(* ===== verification/Prelude.thy ===== *)
theory Prelude
  imports Main "HOL-Library.Word" "HOL-Library.Monad_Syntax" "HOL-Library.Multiset"
begin

text \<open>
  Shared vocabulary of the development.  Objects the C code reaches through pointers live at
  addresses; a pointer is an optional address and \<open>None\<close> is \<open>NULL\<close>.  An operation that can
  fail (a failed \<open>assert\<close>, a \<open>NULL\<close> dereference, a loop that does not return) has result type
  \<open>option\<close>, and every correctness theorem about it proves that the result is \<open>Some\<close>.
\<close>

type_synonym addr = nat
type_synonym ptr = "addr option"
type_synonym byte = "8 word"
type_synonym u16 = "16 word"
type_synonym u32 = "32 word"
type_synonym u64 = "64 word"

text \<open>Collections of rewrite rules that the component proofs share.\<close>

named_theorems ptr_simps \<open>pointer writes and what they leave alone\<close>
named_theorems layout_simps \<open>facts about the layout of a data structure in memory\<close>
named_theorems event_simps \<open>the bookkeeping macros of the event loop\<close>

subsection \<open>Memory blocks\<close>

text \<open>
  A block of memory is a list of cells whose length is the number of cells allocated: a write, \<open>memmove\<close>
  (to \<open>dst\<close> from \<open>src\<close>), \<open>memcpy\<close> of other bytes to an index, and the growing or shrinking of the block, new cells holding the zero element \<open>z\<close>.
\<close>

definition write_cell :: "'a list \<Rightarrow> nat \<Rightarrow> 'a \<Rightarrow> 'a list option" where
  "write_cell m i v = (if i < length m then Some (m[i := v]) else None)"

definition move_cells :: "'a list \<Rightarrow> nat \<Rightarrow> nat \<Rightarrow> nat \<Rightarrow> 'a list option" where
  "move_cells m dst src n =
     (if dst + n \<le> length m \<and> src + n \<le> length m
      then Some (take dst m @ take n (drop src m) @ drop (dst + n) m) else None)"

definition resize_cells :: "'a \<Rightarrow> 'a list \<Rightarrow> nat \<Rightarrow> 'a list" where
  "resize_cells z m n = take n m @ replicate (n - length m) z"

definition put_cells :: "'a list \<Rightarrow> nat \<Rightarrow> 'a list \<Rightarrow> 'a list option" where
  "put_cells m i xs = (if i + length xs \<le> length m then Some (take i m @ xs @ drop (i + length xs) m) else None)"

lemma length_resize_cells [simp]: "length (resize_cells z m n) = n"
  by (simp add: resize_cells_def)

lemma take_resize_cells [simp]: "k \<le> length m \<Longrightarrow> k \<le> n \<Longrightarrow> take k (resize_cells z m n) = take k m"
  by (simp add: resize_cells_def min_def)

lemma drop_take_resize_cells:
  "o' + k \<le> length m \<Longrightarrow> length m \<le> n \<Longrightarrow> take k (drop o' (resize_cells z m n)) = take k (drop o' m)"
  by (simp add: resize_cells_def)

lemma take_drop_snoc [simp]:
  "o' + k < length m \<Longrightarrow> take (Suc k) (drop o' (m[o' + k := x])) = take k (drop o' m) @ [x]"
  by (simp add: drop_update_swap take_Suc_conv_app_nth)

lemma take_snoc [simp]: "k < length m \<Longrightarrow> take (Suc k) (m[k := x]) = take k m @ [x]"
  by (simp add: take_Suc_conv_app_nth)

subsection \<open>Words of 64 bits\<close>

lemma unat_of_nat64: "n < 2 ^ 64 \<Longrightarrow> unat (of_nat n :: u64) = n"
  by (simp add: unat_of_nat)

lemma unat_lt64: "unat (w :: u64) < 2 ^ 64"
  using unsigned_less [of w, where ?'a = nat] by simp

lemma unat_power64: "k < 64 \<Longrightarrow> unat (2 ^ k :: u64) = 2 ^ k"
  using unat_of_nat64 [of "2 ^ k"] power_strict_increasing [of k 64 "2 :: nat"] by simp

end
