(* ===== verification/Hv_Queue.thy ===== *)
theory Hv_Queue imports Prelude begin

section \<open>Queues and arrays (base/queue.h, base/array.h)\<close>

text \<open>
  The growable queue and array that \<open>QUEUE_DECL\<close> and \<open>ARRAY_DECL\<close> generate.  The memory block behind
  \<open>ptr\<close> is a list of cells, so its length is the number of elements that were allocated; \<open>z\<close> is the element
  whose bytes are all zero (what \<open>hv_zalloc\<close> and \<open>memset\<close> leave in a cell).  A write outside the block
  and a failed assertion are \<open>None\<close>.  Sizes are \<open>nat\<close>: an \<open>int\<close> overflow of \<open>maxsize * 2\<close> is not modelled.
\<close>

record 'a queue =
  q_ptr :: "'a list"
  q_size :: nat
  q_maxsize :: nat
  q_offset :: nat

definition QUEUE_INIT_SIZE :: nat where
  "QUEUE_INIT_SIZE = 16"

definition queue_empty :: "'a queue \<Rightarrow> bool" where
  "queue_empty p \<longleftrightarrow> q_size p = 0"

definition queue_front :: "'a queue \<Rightarrow> 'a option" where
  "queue_front p = (if q_size p = 0 then None else Some (q_ptr p ! q_offset p))"

definition queue_back :: "'a queue \<Rightarrow> 'a option" where
  "queue_back p = (if q_size p = 0 then None else Some (q_ptr p ! (q_offset p + q_size p - 1)))"

definition queue_init :: "'a \<Rightarrow> nat \<Rightarrow> 'a queue" where
  "queue_init z maxsize = \<lparr>q_ptr = replicate maxsize z, q_size = 0, q_maxsize = maxsize, q_offset = 0\<rparr>"

definition queue_clear :: "'a \<Rightarrow> 'a queue \<Rightarrow> 'a queue" where
  "queue_clear z p = p\<lparr>q_offset := 0, q_size := 0, q_ptr := replicate (q_maxsize p) z\<rparr>"

definition queue_cleanup :: "'a queue \<Rightarrow> 'a queue" where
  "queue_cleanup p = \<lparr>q_ptr = [], q_size = 0, q_maxsize = 0, q_offset = 0\<rparr>"

definition queue_resize :: "'a \<Rightarrow> 'a queue \<Rightarrow> nat \<Rightarrow> 'a queue" where
  "queue_resize z p maxsize =
     (let maxsize = (if maxsize = 0 then QUEUE_INIT_SIZE else maxsize)
      in p\<lparr>q_ptr := resize_cells z (q_ptr p) maxsize, q_maxsize := maxsize\<rparr>)"

definition queue_double_resize :: "'a \<Rightarrow> 'a queue \<Rightarrow> 'a queue" where
  "queue_double_resize z p = queue_resize z p (q_maxsize p * 2)"

definition queue_push_back :: "'a \<Rightarrow> 'a queue \<Rightarrow> 'a \<Rightarrow> 'a queue option" where
  "queue_push_back z p elem =
     Option.bind
       (if q_size p = q_maxsize p then Some (queue_double_resize z p)
        else if q_offset p + q_size p = q_maxsize p
        then map_option (\<lambda>m. p\<lparr>q_ptr := m, q_offset := 0\<rparr>) (move_cells (q_ptr p) 0 (q_offset p) (q_size p))
        else Some p)
       (\<lambda>p. map_option (\<lambda>m. p\<lparr>q_ptr := m, q_size := q_size p + 1\<rparr>)
              (write_cell (q_ptr p) (q_offset p + q_size p) elem))"

definition queue_pop_front :: "'a queue \<Rightarrow> 'a queue option" where
  "queue_pop_front p =
     (if 0 < q_size p
      then (let p = p\<lparr>q_size := q_size p - 1, q_offset := q_offset p + 1\<rparr>
            in Some (if q_offset p = q_maxsize p then p\<lparr>q_offset := 0\<rparr> else p))
      else None)"

definition queue_pop_back :: "'a queue \<Rightarrow> 'a queue option" where
  "queue_pop_back p = (if 0 < q_size p then Some (p\<lparr>q_size := q_size p - 1\<rparr>) else None)"

record 'a array =
  a_ptr :: "'a list"
  a_size :: nat
  a_maxsize :: nat

definition ARRAY_INIT_SIZE :: nat where
  "ARRAY_INIT_SIZE = 16"

text \<open>A negative position counts from the end: \<open>if (pos < 0) pos += p->size\<close>.\<close>

definition array_pos :: "'a array \<Rightarrow> int \<Rightarrow> int" where
  "array_pos p pos = (if pos < 0 then pos + int (a_size p) else pos)"

definition array_at :: "'a array \<Rightarrow> int \<Rightarrow> 'a option" where
  "array_at p pos =
     (let pos = array_pos p pos
      in if 0 \<le> pos \<and> pos < int (a_size p) then Some (a_ptr p ! nat pos) else None)"

definition array_init :: "'a \<Rightarrow> nat \<Rightarrow> 'a array" where
  "array_init z maxsize = \<lparr>a_ptr = replicate maxsize z, a_size = 0, a_maxsize = maxsize\<rparr>"

definition array_clear :: "'a \<Rightarrow> 'a array \<Rightarrow> 'a array" where
  "array_clear z p = p\<lparr>a_size := 0, a_ptr := replicate (a_maxsize p) z\<rparr>"

definition array_cleanup :: "'a array \<Rightarrow> 'a array" where
  "array_cleanup p = \<lparr>a_ptr = [], a_size = 0, a_maxsize = 0\<rparr>"

definition array_resize :: "'a \<Rightarrow> 'a array \<Rightarrow> nat \<Rightarrow> 'a array" where
  "array_resize z p maxsize =
     (let maxsize = (if maxsize = 0 then ARRAY_INIT_SIZE else maxsize)
      in p\<lparr>a_ptr := resize_cells z (a_ptr p) maxsize, a_maxsize := maxsize\<rparr>)"

definition array_double_resize :: "'a \<Rightarrow> 'a array \<Rightarrow> 'a array" where
  "array_double_resize z p = array_resize z p (a_maxsize p * 2)"

definition array_push_back :: "'a \<Rightarrow> 'a array \<Rightarrow> 'a \<Rightarrow> 'a array option" where
  "array_push_back z p elem =
     (let p = (if a_size p = a_maxsize p then array_double_resize z p else p)
      in map_option (\<lambda>m. p\<lparr>a_ptr := m, a_size := a_size p + 1\<rparr>) (write_cell (a_ptr p) (a_size p) elem))"

definition array_pop_back :: "'a array \<Rightarrow> 'a array option" where
  "array_pop_back p = (if 0 < a_size p then Some (p\<lparr>a_size := a_size p - 1\<rparr>) else None)"

definition array_add :: "'a \<Rightarrow> 'a array \<Rightarrow> 'a \<Rightarrow> int \<Rightarrow> 'a array option" where
  "array_add z p elem pos =
     (let pos = array_pos p pos
      in if 0 \<le> pos \<and> pos \<le> int (a_size p)
         then
           (let i = nat pos;
                p = (if a_size p = a_maxsize p then array_double_resize z p else p)
            in Option.bind
                 (if i < a_size p then move_cells (a_ptr p) (i + 1) i (a_size p - i) else Some (a_ptr p))
                 (\<lambda>m. map_option (\<lambda>m. p\<lparr>a_ptr := m, a_size := a_size p + 1\<rparr>) (write_cell m i elem)))
         else None)"

definition array_del :: "'a array \<Rightarrow> int \<Rightarrow> 'a array option" where
  "array_del p pos =
     (let pos = array_pos p pos
      in if 0 \<le> pos \<and> pos < int (a_size p)
         then
           (let i = nat pos;
                p = p\<lparr>a_size := a_size p - 1\<rparr>
            in if i < a_size p
               then map_option (\<lambda>m. p\<lparr>a_ptr := m\<rparr>) (move_cells (a_ptr p) i (i + 1) (a_size p - i))
               else Some p)
         else None)"

definition array_del_nomove :: "'a array \<Rightarrow> int \<Rightarrow> 'a array option" where
  "array_del_nomove p pos =
     (let pos = array_pos p pos
      in if 0 \<le> pos \<and> pos < int (a_size p)
         then
           (let i = nat pos;
                p = p\<lparr>a_size := a_size p - 1\<rparr>
            in if i < a_size p
               then map_option (\<lambda>m. p\<lparr>a_ptr := m\<rparr>) (write_cell (a_ptr p) i (a_ptr p ! a_size p))
               else Some p)
         else None)"

text \<open>\<open>swap\<close> has no assertion: a position outside the block is the failure.\<close>

definition array_swap :: "'a array \<Rightarrow> int \<Rightarrow> int \<Rightarrow> 'a array option" where
  "array_swap p pos1 pos2 =
     (let i = array_pos p pos1; j = array_pos p pos2
      in if 0 \<le> i \<and> i < int (length (a_ptr p)) \<and> 0 \<le> j \<and> j < int (length (a_ptr p))
         then Some (p\<lparr>a_ptr := (a_ptr p)[nat i := a_ptr p ! nat j, nat j := a_ptr p ! nat i]\<rparr>)
         else None)"

subsection \<open>The queue is a FIFO queue\<close>

definition queue_wf :: "'a queue \<Rightarrow> bool" where
  "queue_wf p \<longleftrightarrow> length (q_ptr p) = q_maxsize p \<and> q_offset p + q_size p \<le> q_maxsize p \<and>
     (q_maxsize p = 0 \<or> q_offset p < q_maxsize p)"

definition queue_content :: "'a queue \<Rightarrow> 'a list" where
  "queue_content p = take (q_size p) (drop (q_offset p) (q_ptr p))"

lemma queue_size_content: "queue_wf p \<Longrightarrow> length (queue_content p) = q_size p"
  by (auto simp: queue_wf_def queue_content_def)

lemma queue_push_back_ok:
  assumes "queue_wf p"
  shows "\<exists>p'. queue_push_back z p x = Some p' \<and> queue_wf p' \<and> queue_content p' = queue_content p @ [x]"
proof -
  have wf: "length (q_ptr p) = q_maxsize p" "q_offset p + q_size p \<le> q_maxsize p"
    using assms by (auto simp: queue_wf_def)
  consider "q_size p = q_maxsize p" "q_offset p = 0" | "q_size p < q_maxsize p" "q_offset p + q_size p = q_maxsize p"
    | "q_offset p + q_size p < q_maxsize p" using assms by (force simp: queue_wf_def)
  then show ?thesis
  proof cases
    case 1
    then show ?thesis using wf
      by (auto simp: queue_push_back_def write_cell_def queue_wf_def queue_content_def queue_double_resize_def
        queue_resize_def QUEUE_INIT_SIZE_def Let_def)
  next
    case 2
    then show ?thesis using wf
      by (auto simp: queue_push_back_def write_cell_def move_cells_def queue_wf_def queue_content_def)
  next
    case 3
    then show ?thesis using wf by (auto simp: queue_push_back_def write_cell_def queue_wf_def queue_content_def)
  qed
qed

lemma queue_content_Cons:
  assumes "queue_wf p" "0 < q_size p"
  shows "queue_content p = q_ptr p ! q_offset p # take (q_size p - 1) (drop (q_offset p + 1) (q_ptr p))"
proof -
  have "q_offset p < length (q_ptr p)" using assms by (auto simp: queue_wf_def)
  then show ?thesis
    using assms by (simp add: queue_content_def Cons_nth_drop_Suc [symmetric] take_Cons')
qed

lemma queue_front_content:
  assumes "queue_wf p"
  shows "queue_front p = (case queue_content p of [] \<Rightarrow> None | x # _ \<Rightarrow> Some x)"
proof (cases "q_size p = 0")
  case True
  then show ?thesis by (simp add: queue_front_def queue_content_def)
next
  case False
  then show ?thesis using queue_content_Cons [OF assms] by (simp add: queue_front_def)
qed

lemma queue_pop_front_ok:
  assumes "queue_wf p" "queue_content p = x # xs"
  shows "\<exists>p'. queue_pop_front p = Some p' \<and> queue_wf p' \<and> queue_content p' = xs"
proof -
  have sz: "0 < q_size p" using queue_size_content [OF assms(1)] assms(2) by simp
  then have "xs = take (q_size p - 1) (drop (q_offset p + 1) (q_ptr p))"
    using queue_content_Cons [OF assms(1)] assms(2) by simp
  then show ?thesis
    using assms(1) sz by (auto simp: queue_pop_front_def queue_wf_def queue_content_def Let_def)
qed

lemma queue_pop_back_ok:
  assumes "queue_wf p" "queue_content p = xs @ [x]"
  shows "\<exists>p'. queue_pop_back p = Some p' \<and> queue_wf p' \<and> queue_content p' = xs"
proof -
  have "q_size p = Suc (length xs)" using queue_size_content [OF assms(1)] assms(2) by simp
  moreover have "take (length xs) (queue_content p) = xs" using assms(2) by simp
  ultimately show ?thesis
    using assms(1) by (auto simp: queue_pop_back_def queue_wf_def queue_content_def)
qed

lemma queue_init_ok [simp]: "queue_wf (queue_init z n)" "queue_content (queue_init z n) = []"
  by (auto simp: queue_wf_def queue_init_def queue_content_def)

text \<open>The contract of a first-in first-out queue, and what its clients (the custom events of the loop, the
  write queue of a connection) rely on.\<close>

locale fifo =
  fixes wf :: "'q \<Rightarrow> bool" and content :: "'q \<Rightarrow> 'a list"
    and push :: "'q \<Rightarrow> 'a \<Rightarrow> 'q option" and front :: "'q \<Rightarrow> 'a option" and pop :: "'q \<Rightarrow> 'q option"
  assumes push: "wf q \<Longrightarrow> \<exists>q'. push q x = Some q' \<and> wf q' \<and> content q' = content q @ [x]"
    and front: "wf q \<Longrightarrow> front q = (case content q of [] \<Rightarrow> None | x # _ \<Rightarrow> Some x)"
    and pop: "wf q \<Longrightarrow> content q = x # xs \<Longrightarrow> \<exists>q'. pop q = Some q' \<and> wf q' \<and> content q' = xs"
begin

primrec push_all :: "'q \<Rightarrow> 'a list \<Rightarrow> 'q option" where
  "push_all q [] = Some q"
| "push_all q (x # xs) = Option.bind (push q x) (\<lambda>q. push_all q xs)"

text \<open>Take up to \<open>n\<close> elements from the front.\<close>

primrec drain :: "nat \<Rightarrow> 'q \<Rightarrow> ('a list \<times> 'q) option" where
  "drain 0 q = Some ([], q)"
| "drain (Suc n) q =
     (case front q of
        None \<Rightarrow> Some ([], q)
      | Some x \<Rightarrow> Option.bind (pop q) (\<lambda>q. map_option (\<lambda>(xs, q). (x # xs, q)) (drain n q)))"

lemma push_all_ok: "wf q \<Longrightarrow> \<exists>q'. push_all q xs = Some q' \<and> wf q' \<and> content q' = content q @ xs"
proof (induction xs arbitrary: q)
  case (Cons x xs)
  obtain q1 where q1: "push q x = Some q1" "wf q1" "content q1 = content q @ [x]" using push [OF Cons.prems] by blast
  then show ?case using Cons.IH [OF q1(2)] by auto
qed simp

lemma drain_ok:
  "wf q \<Longrightarrow> \<exists>q'. drain n q = Some (take n (content q), q') \<and> wf q' \<and> content q' = drop n (content q)"
proof (induction n arbitrary: q)
  case (Suc n)
  show ?case
  proof (cases "content q")
    case Nil
    then show ?thesis using Suc.prems front by simp
  next
    case (Cons x xs)
    obtain q1 where q1: "pop q = Some q1" "wf q1" "content q1 = xs" using pop [OF Suc.prems Cons] by blast
    then show ?thesis using Suc.IH [OF q1(2)] front [OF Suc.prems] Cons by auto
  qed
qed simp

lemma drain_push_all:
  assumes "wf q"
  shows "\<exists>q1 q2. push_all q xs = Some q1 \<and> drain (length (content q) + length xs) q1 = Some (content q @ xs, q2) \<and>
     wf q2 \<and> content q2 = []"
proof -
  obtain q1 where q1: "push_all q xs = Some q1" "wf q1" "content q1 = content q @ xs"
    using push_all_ok [OF assms] by blast
  then show ?thesis using drain_ok [OF q1(2), of "length (content q) + length xs"] by auto
qed

end

interpretation hq: fifo queue_wf queue_content "queue_push_back z" queue_front queue_pop_front for z
  by unfold_locales (simp_all add: queue_push_back_ok queue_front_content queue_pop_front_ok)


subsection \<open>The array is a list\<close>

definition array_wf :: "'a array \<Rightarrow> bool" where
  "array_wf p \<longleftrightarrow> length (a_ptr p) = a_maxsize p \<and> a_size p \<le> a_maxsize p"

definition array_content :: "'a array \<Rightarrow> 'a list" where
  "array_content p = take (a_size p) (a_ptr p)"

lemma array_size_content: "array_wf p \<Longrightarrow> length (array_content p) = a_size p"
  by (simp add: array_wf_def array_content_def)

lemma array_room_ok:
  assumes "array_wf p" "p' = (if a_size p = a_maxsize p then array_double_resize z p else p)"
  shows "array_wf p'" "a_size p' = a_size p" "a_size p' < a_maxsize p'" "array_content p' = array_content p"
  using assms
  by (auto simp: array_wf_def array_content_def array_double_resize_def array_resize_def ARRAY_INIT_SIZE_def Let_def)

lemma array_push_back_ok:
  assumes "array_wf p"
  shows "\<exists>p'. array_push_back z p x = Some p' \<and> array_wf p' \<and> array_content p' = array_content p @ [x]"
  using array_room_ok [OF assms refl, of z]
  by (auto simp: array_push_back_def write_cell_def array_wf_def array_content_def Let_def)

lemma array_pop_back_ok:
  assumes "array_wf p" "array_content p = xs @ [x]"
  shows "\<exists>p'. array_pop_back p = Some p' \<and> array_wf p' \<and> array_content p' = xs"
proof -
  have "a_size p = Suc (length xs)" using array_size_content [OF assms(1)] assms(2) by simp
  moreover have "take (length xs) (array_content p) = xs" using assms(2) by simp
  ultimately show ?thesis
    using assms(1) by (auto simp: array_pop_back_def array_wf_def array_content_def)
qed

lemma array_pos_nat: "i < a_size p \<Longrightarrow> array_pos p (int i) = int i" "array_pos p (int i - int (a_size p)) = (if i < a_size p then int i else int i - int (a_size p))"
  by (simp_all add: array_pos_def)

lemma array_at_ok:
  assumes "array_wf p" "i < length (array_content p)"
  shows "array_at p (int i) = Some (array_content p ! i)" "array_at p (int i - int (length (array_content p))) = Some (array_content p ! i)"
  using assms by (auto simp: array_at_def array_pos_def array_size_content array_content_def array_wf_def)

lemma array_add_ok:
  assumes wf: "array_wf p" and i: "i \<le> length (array_content p)"
  shows "\<exists>p'. array_add z p x (int i) = Some p' \<and> array_wf p' \<and>
     array_content p' = take i (array_content p) @ x # drop i (array_content p)"
proof -
  define q where "q = (if a_size p = a_maxsize p then array_double_resize z p else p)"
  have q: "array_wf q" "a_size q = a_size p" "a_size q < a_maxsize q" "array_content q = array_content p"
    using array_room_ok [OF wf q_def] by simp_all
  have i': "i \<le> a_size q" using i q wf by (simp add: array_size_content)
  let ?m = "take (i + 1) (a_ptr q) @ take (a_size q - i) (drop i (a_ptr q)) @ drop (a_size q + 1) (a_ptr q)"
  show ?thesis
  proof (cases "i < a_size q")
    case True
    have "array_add z p x (int i) = Some (q\<lparr>a_ptr := ?m[i := x], a_size := a_size q + 1\<rparr>)"
      using True q i' by (simp add: array_add_def array_pos_def q_def [symmetric] move_cells_def write_cell_def array_wf_def Let_def)
    moreover have "take (a_size q + 1) (?m[i := x]) = take i (a_ptr q) @ x # drop i (take (a_size q) (a_ptr q))"
      using True q by (simp add: array_wf_def list_update_append take_Suc_conv_app_nth Suc_diff_le drop_take)
    then have "take (a_size q + 1) (?m[i := x]) = take i (array_content p) @ x # drop i (array_content p)"
      using True q(4) [symmetric] by (simp add: array_content_def)
    ultimately show ?thesis using True q by (auto simp: array_wf_def array_content_def)
  next
    case False
    then have "array_add z p x (int i) = array_push_back z p x"
      using i' q by (simp add: array_add_def array_push_back_def array_pos_def q_def [symmetric] Let_def)
    then show ?thesis using False i' array_push_back_ok [OF wf, of z x] q wf by (simp add: array_size_content [symmetric])
  qed
qed

lemma array_del_ok:
  assumes wf: "array_wf p" and i: "i < length (array_content p)"
  shows "\<exists>p'. array_del p (int i) = Some p' \<and> array_wf p' \<and>
     array_content p' = take i (array_content p) @ drop (Suc i) (array_content p)"
proof -
  consider "i < a_size p - 1" | "i = a_size p - 1" "0 < a_size p" using i wf by (force simp: array_size_content)
  then show ?thesis
    using wf by cases (auto simp: array_del_def array_pos_def move_cells_def array_wf_def array_content_def Let_def
      take_drop min_def)
qed

lemma array_del_nomove_ok:
  assumes wf: "array_wf p" and i: "i < length (array_content p)"
  shows "\<exists>p'. array_del_nomove p (int i) = Some p' \<and> array_wf p' \<and>
     array_content p' = butlast ((array_content p)[i := last (array_content p)])"
proof -
  have i': "i < a_size p" "a_size p \<le> length (a_ptr p)" using i wf by (auto simp: array_size_content array_wf_def)
  then have l: "last (array_content p) = a_ptr p ! (a_size p - 1)"
    by (subst last_conv_nth) (auto simp: array_content_def)
  consider "i < a_size p - 1" | "i = a_size p - 1" "0 < a_size p" using i' by force
  then show ?thesis
  proof cases
    case 1
    then show ?thesis using wf i' unfolding l
      by (auto simp: array_del_nomove_def array_pos_def write_cell_def array_wf_def array_content_def Let_def
        butlast_conv_take take_update_swap min_def)
  next
    case 2
    then show ?thesis using wf i' unfolding l
      by (auto simp: array_del_nomove_def array_pos_def array_wf_def array_content_def Let_def
        butlast_conv_take min_def)
  qed
qed

lemma array_swap_ok:
  assumes wf: "array_wf p" and i: "i < length (array_content p)" "j < length (array_content p)"
  shows "\<exists>p'. array_swap p (int i) (int j) = Some p' \<and> array_wf p' \<and>
     array_content p' = (array_content p)[i := array_content p ! j, j := array_content p ! i]"
proof -
  have "i < a_size p" "j < a_size p" "a_size p \<le> length (a_ptr p)"
    using i wf by (auto simp: array_size_content array_wf_def)
  then show ?thesis
    using wf by (auto simp: array_swap_def array_pos_def array_wf_def array_content_def Let_def take_update_swap)
qed

subsection \<open>Properties\<close>





end
