(* ===== verification/Hv_Heap.thy ===== *)
theory Hv_Heap
  imports Prelude
begin

text \<open>
  The intrusive binary heap of \<^verbatim>\<open>base/heap.h\<close>, which holds the timers of an event loop.

  The nodes are linked through \<open>parent\<close>, \<open>left\<close> and \<open>right\<close> pointers and live in a store
  shared by all heaps of a loop.  The comparison is a function pointer that reads the memory
  the nodes are embedded in, so the model passes that memory (type \<open>'m\<close>) along.

  The proofs go through the layout of a complete binary tree: position \<open>i\<close> of the tree has its
  children at \<open>2 * i\<close> and \<open>2 * i + 1\<close>, and \<open>f i\<close> is the node found there.
\<close>

section \<open>Model\<close>

subsection \<open>Nodes, the store and the heap header\<close>

record heap_node =
  hn_parent :: ptr
  hn_left :: ptr
  hn_right :: ptr

type_synonym node_store = "addr \<Rightarrow> heap_node"

record 'm heap =
  root :: ptr
  nelts :: nat
  compare :: "('m \<Rightarrow> addr \<Rightarrow> addr \<Rightarrow> bool) option"

definition null_node :: heap_node where
  "null_node = \<lparr>hn_parent = None, hn_left = None, hn_right = None\<rparr>"

text \<open>Assignments \<open>p->parent = v\<close>, \<open>p->left = v\<close> and \<open>p->right = v\<close>.\<close>

definition set_parent :: "addr \<Rightarrow> ptr \<Rightarrow> node_store \<Rightarrow> node_store" where
  "set_parent p v ns = ns(p := (ns p)\<lparr>hn_parent := v\<rparr>)"

definition set_left :: "addr \<Rightarrow> ptr \<Rightarrow> node_store \<Rightarrow> node_store" where
  "set_left p v ns = ns(p := (ns p)\<lparr>hn_left := v\<rparr>)"

definition set_right :: "addr \<Rightarrow> ptr \<Rightarrow> node_store \<Rightarrow> node_store" where
  "set_right p v ns = ns(p := (ns p)\<lparr>hn_right := v\<rparr>)"

text \<open>\<open>if (q) q->parent = v\<close>.\<close>

definition set_parent_of :: "ptr \<Rightarrow> ptr \<Rightarrow> node_store \<Rightarrow> node_store" where
  "set_parent_of q v ns = (case q of None \<Rightarrow> ns | Some p \<Rightarrow> set_parent p v ns)"

subsection \<open>The operations\<close>

definition heap_init :: "('m \<Rightarrow> addr \<Rightarrow> addr \<Rightarrow> bool) option \<Rightarrow> 'm heap" where
  "heap_init fn = \<lparr>root = None, nelts = 0, compare = fn\<rparr>"

text \<open>
  Redirect the link that points at \<open>s\<close> (the root, or a child link of the parent \<open>pp\<close>) to \<open>r\<close>:
  the first three lines of \<open>heap_replace\<close>, and the same three lines of \<open>heap_swap\<close>.
\<close>

definition relink :: "'m heap \<Rightarrow> node_store \<Rightarrow> ptr \<Rightarrow> addr \<Rightarrow> ptr \<Rightarrow> 'm heap \<times> node_store" where
  "relink h ns pp s r =
     (case pp of
        None \<Rightarrow> (h\<lparr>root := r\<rparr>, ns)
      | Some q \<Rightarrow>
          if hn_left (ns q) = Some s then (h, set_left q r ns)
          else if hn_right (ns q) = Some s then (h, set_right q r ns)
          else (h, ns))"

definition heap_replace :: "'m heap \<Rightarrow> node_store \<Rightarrow> addr \<Rightarrow> ptr \<Rightarrow> 'm heap \<times> node_store" where
  "heap_replace h ns s r =
     (let (h1, ns1) = relink h ns (hn_parent (ns s)) s r;
          ns2 = set_parent_of (hn_left (ns1 s)) r ns1;
          ns3 = set_parent_of (hn_right (ns2 s)) r ns2
      in case r of
           None \<Rightarrow> (h1, ns3)
         | Some q \<Rightarrow>
             (let ns4 = set_parent q (hn_parent (ns3 s)) ns3;
                  ns5 = set_left q (hn_left (ns4 s)) ns4;
                  ns6 = set_right q (hn_right (ns5 s)) ns5
              in (h1, ns6)))"

definition heap_swap :: "'m heap \<Rightarrow> node_store \<Rightarrow> addr \<Rightarrow> addr \<Rightarrow> ('m heap \<times> node_store) option" where
  "heap_swap h ns par child =
     (if hn_parent (ns child) = Some par \<and>
         (hn_left (ns par) = Some child \<or> hn_right (ns par) = Some child)
      then
        (let pparent = hn_parent (ns par);
             lchild = hn_left (ns child);
             rchild = hn_right (ns child);
             (h1, ns1) = relink h ns pparent par (Some child);
             ns2 = set_parent_of lchild (Some par) ns1;
             ns3 = set_parent_of rchild (Some par) ns2;
             ns4 = set_parent child pparent ns3;
             (sibling, ns5) =
               (if hn_left (ns4 par) = Some child
                then (let sib = hn_right (ns4 par)
                      in (sib, set_right child sib (set_left child (Some par) ns4)))
                else (let sib = hn_left (ns4 par)
                      in (sib, set_right child (Some par) (set_left child sib ns4))));
             ns6 = set_parent_of sibling (Some child) ns5;
             ns7 = set_parent par (Some child) ns6;
             ns8 = set_left par lchild ns7;
             ns9 = set_right par rchild ns8
         in Some (h1, ns9))
      else None)"

text \<open>
  \<open>for (d = 0, n = nelts; n >= 2; ++d, n >>= 1) path = (path << 1) | (n & 1)\<close>: the bits of
  \<open>n\<close> below its leading one, in reverse order, and their number.
\<close>

fun heap_path :: "nat \<Rightarrow> nat \<Rightarrow> nat \<Rightarrow> nat \<times> nat" where
  "heap_path n d path =
     (if n \<ge> 2 then heap_path (n div 2) (d + 1) (2 * path + n mod 2) else (d, path))"

declare heap_path.simps [simp del]

text \<open>
  \<open>while (d > 1) { parent = (path & 1) ? parent->right : parent->left; --d; path >>= 1; }\<close>.
  The result is the node reached and the remaining path; \<open>None\<close> is a \<open>NULL\<close> dereference.
\<close>

fun heap_walk :: "node_store \<Rightarrow> ptr \<Rightarrow> nat \<Rightarrow> nat \<Rightarrow> (ptr \<times> nat) option" where
  "heap_walk ns par d path =
     (if d > 1 then
        (case par of
           None \<Rightarrow> None
         | Some q \<Rightarrow>
             heap_walk ns (if odd path then hn_right (ns q) else hn_left (ns q)) (d - 1) (path div 2))
      else Some (par, path))"

declare heap_walk.simps [simp del]

text \<open>\<open>while (node->parent && heap->compare(node, node->parent)) heap_swap(heap, node->parent, node)\<close>.\<close>

partial_function (option) sift_up ::
  "(addr \<Rightarrow> addr \<Rightarrow> bool) \<Rightarrow> 'm heap \<Rightarrow> node_store \<Rightarrow> addr \<Rightarrow> ('m heap \<times> node_store) option" where
  "sift_up cmp h ns v =
     (case hn_parent (ns v) of
        None \<Rightarrow> Some (h, ns)
      | Some q \<Rightarrow>
          if cmp v q
          then Option.bind (heap_swap h ns q v) (\<lambda>(h', ns'). sift_up cmp h' ns' v)
          else Some (h, ns))"

declare sift_up.simps [code]

text \<open>The child of \<open>v\<close>, or \<open>v\<close> itself, that the loop of \<open>heap_remove\<close> selects as \<open>est\<close>.\<close>

definition sift_est :: "(addr \<Rightarrow> addr \<Rightarrow> bool) \<Rightarrow> node_store \<Rightarrow> addr \<Rightarrow> addr" where
  "sift_est cmp ns v =
     (let est = v;
          est = (case hn_left (ns v) of None \<Rightarrow> est | Some l \<Rightarrow> if cmp est l then est else l);
          est = (case hn_right (ns v) of None \<Rightarrow> est | Some r \<Rightarrow> if cmp est r then est else r)
      in est)"

partial_function (option) sift_down ::
  "(addr \<Rightarrow> addr \<Rightarrow> bool) \<Rightarrow> 'm heap \<Rightarrow> node_store \<Rightarrow> addr \<Rightarrow> ('m heap \<times> node_store) option" where
  "sift_down cmp h ns v =
     (let est = sift_est cmp ns v
      in if est = v then Some (h, ns)
         else Option.bind (heap_swap h ns v est) (\<lambda>(h', ns'). sift_down cmp h' ns' v))"

declare sift_down.simps [code]

definition heap_insert :: "'m \<Rightarrow> 'm heap \<Rightarrow> node_store \<Rightarrow> addr \<Rightarrow> ('m heap \<times> node_store) option" where
  "heap_insert m h ns node =
     (let h1 = h\<lparr>nelts := nelts h + 1\<rparr>;
          (d, path) = heap_path (nelts h1) 0 0
      in case heap_walk ns (root h1) d path of
           None \<Rightarrow> None
         | Some (par, path) \<Rightarrow>
             (let ns1 = set_parent node par ns;
                  (h2, ns2) =
                    (case par of
                       None \<Rightarrow> (h1\<lparr>root := Some node\<rparr>, ns1)
                     | Some q \<Rightarrow>
                         (h1, if odd path then set_right q (Some node) ns1
                              else set_left q (Some node) ns1))
              in case compare h2 of
                   None \<Rightarrow> Some (h2, ns2)
                 | Some cmp \<Rightarrow> sift_up (cmp m) h2 ns2 node))"

definition heap_remove :: "'m \<Rightarrow> 'm heap \<Rightarrow> node_store \<Rightarrow> addr \<Rightarrow> ('m heap \<times> node_store) option" where
  "heap_remove m h ns node =
     (if nelts h = 0 then Some (h, ns)
      else
        (let (d, path) = heap_path (nelts h) 0 0;
             h1 = h\<lparr>nelts := nelts h - 1\<rparr>
         in case heap_walk ns (root h1) d path of
              None \<Rightarrow> None
            | Some (None, path) \<Rightarrow> Some (h1, ns)
            | Some (Some par, path) \<Rightarrow>
                (let (last, ns1) =
                       (if odd path then (hn_right (ns par), set_right par None ns)
                        else (hn_left (ns par), set_left par None ns))
                 in case last of
                      None \<Rightarrow>
                        Some (if root h1 = Some node then h1\<lparr>root := None\<rparr> else h1, ns1)
                    | Some v \<Rightarrow>
                        (let (h2, ns2) = heap_replace h1 ns1 node (Some v);
                             ns3 = set_parent node None (set_left node None (set_right node None ns2))
                         in case compare h2 of
                              None \<Rightarrow> Some (h2, ns3)
                            | Some cmp \<Rightarrow>
                                Option.bind (sift_down (cmp m) h2 ns3 v)
                                  (\<lambda>(h4, ns4). sift_up (cmp m) h4 ns4 v)))))"

text \<open>\<open>heap_dequeue\<close> passes the root on; the C code dereferences it without a test unless the
  heap is empty, so a \<open>NULL\<close> root of a nonempty heap is a failure.\<close>

definition heap_dequeue :: "'m \<Rightarrow> 'm heap \<Rightarrow> node_store \<Rightarrow> ('m heap \<times> node_store) option" where
  "heap_dequeue m h ns =
     (if nelts h = 0 then Some (h, ns)
      else Option.bind (root h) (heap_remove m h ns))"

definition slot :: "(nat \<Rightarrow> addr) \<Rightarrow> nat \<Rightarrow> nat \<Rightarrow> ptr" where
  "slot f n i = (if 0 < i \<and> i \<le> n then Some (f i) else None)"

definition laid_node :: "(nat \<Rightarrow> addr) \<Rightarrow> nat \<Rightarrow> nat \<Rightarrow> heap_node" where
  "laid_node f n i =
     \<lparr>hn_parent = slot f n (i div 2), hn_left = slot f n (2 * i), hn_right = slot f n (Suc (2 * i))\<rparr>"

definition laid_out :: "node_store \<Rightarrow> (nat \<Rightarrow> addr) \<Rightarrow> nat \<Rightarrow> bool" where
  "laid_out ns f n \<longleftrightarrow> inj_on f {0<..n} \<and> (\<forall>i. 0 < i \<longrightarrow> i \<le> n \<longrightarrow> ns (f i) = laid_node f n i)"

definition heap_layout :: "'m heap \<Rightarrow> node_store \<Rightarrow> (nat \<Rightarrow> addr) \<Rightarrow> bool" where
  "heap_layout h ns f \<longleftrightarrow> laid_out ns f (nelts h) \<and> root h = slot f (nelts h) 1"

lemma slot_in [simp]: "0 < i \<Longrightarrow> i \<le> n \<Longrightarrow> slot f n i = Some (f i)"
  by (simp add: slot_def)

lemma slot_out [simp]: "slot f n 0 = None" "n < i \<Longrightarrow> slot f n i = None"
  by (simp_all add: slot_def)

lemma slot_eq_Some [layout_simps]:
  "inj_on f {0<..n} \<Longrightarrow> 0 < j \<Longrightarrow> j \<le> n \<Longrightarrow> slot f n i = Some (f j) \<longleftrightarrow> i = j"
  by (auto simp: slot_def dest: inj_onD)

lemma slot_addr_eq [layout_simps]:
  "inj_on f {0<..n} \<Longrightarrow> 0 < i \<Longrightarrow> i \<le> n \<Longrightarrow> 0 < j \<Longrightarrow> j \<le> n \<Longrightarrow> f i = f j \<longleftrightarrow> i = j"
  by (auto dest: inj_onD)

lemma set_parent_of_slot [layout_simps]:
  "inj_on f {0<..n} \<Longrightarrow> 0 < i \<Longrightarrow> i \<le> n \<Longrightarrow>
     set_parent_of (slot f n j) x ns (f i) =
       (if i = j then (ns (f i))\<lparr>hn_parent := x\<rparr> else ns (f i))"
  by (cases "0 < j \<and> j \<le> n") (simp_all add: set_parent_of_def slot_def set_parent_def slot_addr_eq)

lemma set_parent_of_simps [simp]:
  "set_parent_of None x ns = ns" "set_parent_of (Some a) x ns = set_parent a x ns"
  by (simp_all add: set_parent_of_def)

lemma set_links_other [ptr_simps]:
  "a \<noteq> b \<Longrightarrow> set_parent b x ns a = ns a" "a \<noteq> b \<Longrightarrow> set_left b x ns a = ns a"
  "a \<noteq> b \<Longrightarrow> set_right b x ns a = ns a" "q \<noteq> Some a \<Longrightarrow> set_parent_of q x ns a = ns a"
  by (auto simp: set_parent_def set_left_def set_right_def set_parent_of_def split: option.splits)

lemma set_links_slot [layout_simps]:
  assumes "inj_on f {0<..n}" "0 < i" "i \<le> n" "0 < j" "j \<le> n"
  shows "set_parent (f j) x ns (f i) = (if i = j then (ns (f i))\<lparr>hn_parent := x\<rparr> else ns (f i))"
    and "set_left (f j) x ns (f i) = (if i = j then (ns (f i))\<lparr>hn_left := x\<rparr> else ns (f i))"
    and "set_right (f j) x ns (f i) = (if i = j then (ns (f i))\<lparr>hn_right := x\<rparr> else ns (f i))"
  using assms by (simp_all add: set_parent_def set_left_def set_right_def slot_addr_eq)

lemma half_cases:
  assumes "0 < (p::nat)"
  obtains "p = 1" | q where "0 < q" "p = 2 * q" | q where "0 < q" "p = Suc (2 * q)"
  using assms by (metis One_nat_def add_0 bot_nat_0.not_eq_extremum mult_0_right even_Suc evenE Suc_eq_plus1 oddE)

lemma relink_slot:
  assumes inj: "inj_on f {0<..n}" and p: "0 < p" "p \<le> n"
    and node: "\<And>q. 0 < q \<Longrightarrow> q \<le> n \<Longrightarrow> ns (f q) = laid_node f n q"
  shows "relink h ns (slot f n (p div 2)) (f p) x =
     (if p = 1 then (h\<lparr>root := x\<rparr>, ns)
      else (h, if even p then set_left (f (p div 2)) x ns else set_right (f (p div 2)) x ns))"
  using p(1)
proof (cases rule: half_cases)
  case 1
  then show ?thesis by (simp add: relink_def)
next
  case (2 q)
  then show ?thesis using p by (simp add: relink_def node laid_node_def)
next
  case (3 q)
  then show ?thesis using p by (simp add: relink_def node laid_node_def slot_addr_eq [OF inj])
qed


definition swap_at :: "(nat \<Rightarrow> addr) \<Rightarrow> nat \<Rightarrow> (nat \<Rightarrow> addr)" where
  "swap_at f c = f(c div 2 := f c, c := f (c div 2))"

lemma laid_outD:
  assumes "laid_out ns f n"
  shows "inj_on f {0<..n}" and "\<And>i. 0 < i \<Longrightarrow> i \<le> n \<Longrightarrow> ns (f i) = laid_node f n i"
  using assms by (auto simp: laid_out_def)

lemma child_cases:
  assumes "2 \<le> (c::nat)"
  obtains p where "0 < p" "c = 2 * p" "c div 2 = p" | p where "0 < p" "c = Suc (2 * p)" "c div 2 = p"
  using assms by (cases "even c") (auto elim!: evenE oddE)

lemma inj_on_swap_at:
  assumes "inj_on f {0<..n}" "2 \<le> c" "c \<le> n"
  shows "inj_on (swap_at f c) {0<..n}"
proof (rule inj_onI)
  fix i j assume "i \<in> {0<..n}" "j \<in> {0<..n}" "swap_at f c i = swap_at f c j"
  moreover have "0 < c div 2" "c div 2 \<le> n" "c div 2 \<noteq> c" using assms(2,3) by auto
  ultimately show "i = j"
    using assms by (auto simp: swap_at_def slot_addr_eq split: if_splits)
qed

lemma image_swap_at:
  assumes "2 \<le> c" "c \<le> n"
  shows "swap_at f c ` {0<..n} = f ` {0<..n}"
proof -
  have "0 < c div 2" "c div 2 \<le> n" "c div 2 \<noteq> c" using assms by auto
  then have A: "insert c (insert (c div 2) {0<..n}) = {0<..n}" using assms by auto
  have "swap_at f c ` {0<..n} = swap_at f c ` insert c (insert (c div 2) ({0<..n} - {c, c div 2}))"
    using A by (intro arg_cong [of _ _ "image _"]) auto
  also have "\<dots> = insert (f (c div 2)) (insert (f c) (f ` ({0<..n} - {c, c div 2})))"
    using \<open>c div 2 \<noteq> c\<close> by (auto simp: swap_at_def)
  also have "\<dots> = f ` insert c (insert (c div 2) {0<..n})"
    by auto
  finally show ?thesis unfolding A .
qed

lemma slot_swap_at:
  assumes "2 \<le> c" "c \<le> n"
  shows "slot (swap_at f c) n i =
     (if i = c then Some (f (c div 2)) else if i = c div 2 then Some (f c) else slot f n i)"
  using assms by (auto simp: slot_def swap_at_def)


text \<open>The position of the other child of the same parent.\<close>

definition sib :: "nat \<Rightarrow> nat" where
  "sib c = (if even c then Suc c else c - 1)"

lemma sib_cases:
  assumes "2 \<le> (c::nat)"
  obtains p where "0 < p" "c = 2 * p" "c div 2 = p" "sib c = Suc (2 * p)"
        | p where "0 < p" "c = Suc (2 * p)" "c div 2 = p" "sib c = 2 * p"
  using assms by (cases "even c") (auto elim!: evenE oddE simp: sib_def)

text \<open>What \<open>heap_swap\<close> has written when it redirects the child's old links (\<open>swap_mid\<close>) and at
  its end (\<open>swap_links\<close>), for the node at position \<open>c\<close> of a laid out heap.\<close>

definition swap_mid :: "node_store \<Rightarrow> (nat \<Rightarrow> addr) \<Rightarrow> nat \<Rightarrow> nat \<Rightarrow> node_store" where
  "swap_mid ns f n c =
     (let p = c div 2
      in set_parent (f c) (slot f n (p div 2))
           (set_parent_of (slot f n (Suc (2 * c))) (Some (f p))
             (set_parent_of (slot f n (2 * c)) (Some (f p))
               (if p = 1 then ns
                else if even p then set_left (f (p div 2)) (Some (f c)) ns
                else set_right (f (p div 2)) (Some (f c)) ns))))"

definition swap_links :: "node_store \<Rightarrow> (nat \<Rightarrow> addr) \<Rightarrow> nat \<Rightarrow> nat \<Rightarrow> node_store" where
  "swap_links ns f n c =
     (let p = c div 2
      in set_right (f p) (slot f n (Suc (2 * c)))
          (set_left (f p) (slot f n (2 * c))
            (set_parent (f p) (Some (f c))
              (set_parent_of (slot f n (sib c)) (Some (f c))
                (set_right (f c) (if even c then slot f n (sib c) else Some (f p))
                  (set_left (f c) (if even c then Some (f p) else slot f n (sib c))
                    (swap_mid ns f n c)))))))"

lemma swap_mid_at:
  assumes L: "laid_out ns f n" and c: "2 \<le> c" "c \<le> n" and i: "0 < i" "i \<le> n"
  shows "swap_mid ns f n c (f i) =
     (if i = c then (laid_node f n i)\<lparr>hn_parent := slot f n (c div 2 div 2)\<rparr>
      else if i = 2 * c \<or> i = Suc (2 * c) then (laid_node f n i)\<lparr>hn_parent := Some (f (c div 2))\<rparr>
      else if 2 * i = c div 2 then (laid_node f n i)\<lparr>hn_left := Some (f c)\<rparr>
      else if Suc (2 * i) = c div 2 then (laid_node f n i)\<lparr>hn_right := Some (f c)\<rparr>
      else laid_node f n i)"
proof -
  note inj = laid_outD(1) [OF L] and node = laid_outD(2) [OF L]
  define p where "p = c div 2"
  have p: "0 < p" "p < c" using c by (auto simp: p_def)
  show ?thesis
    using p(1)
    by (cases rule: half_cases)
      (use p c i in \<open>simp add: swap_mid_def Let_def p_def [symmetric] set_links_slot [OF inj]
          set_parent_of_slot [OF inj] node del: slot_in\<close>)+
qed


lemma sib_distinct:
  assumes "2 \<le> c"
  shows "0 < c div 2" "c div 2 < c" "c div 2 \<noteq> c" "c div 2 \<noteq> sib c" "sib c \<noteq> c div 2" "sib c \<noteq> c" "c \<noteq> sib c"
    "sib c \<noteq> 2 * c" "sib c \<noteq> Suc (2 * c)" "2 * sib c \<noteq> c div 2" "Suc (2 * sib c) \<noteq> c div 2"
    "c div 2 \<noteq> 2 * c" "c div 2 \<noteq> Suc (2 * c)" "c div 2 \<noteq> Suc (2 * (c div 2))"
    "c \<noteq> c div 2" "2 * c \<noteq> c div 2" "Suc (2 * c) \<noteq> c div 2" "4 * c \<noteq> c div 2"
    "Suc (4 * c) \<noteq> c div 2" "Suc (Suc (4 * c)) \<noteq> c div 2" "Suc (Suc (Suc (4 * c))) \<noteq> c div 2"
  using assms by (cases rule: sib_cases; simp)+

lemma half_index:
  "2 * i = N \<longleftrightarrow> i = N div 2 \<and> even N" "Suc (2 * i) = N \<longleftrightarrow> i = N div 2 \<and> odd (N::nat)"
  by presburger+

lemma sib_index:
  assumes "2 \<le> c"
  shows "i div 2 = c \<longleftrightarrow> i = 2 * c \<or> i = Suc (2 * c)"
    and "i div 2 = c div 2 \<longleftrightarrow> i = c \<or> i = sib c"
    and "2 * i = c \<longleftrightarrow> i = c div 2 \<and> even c"
    and "Suc (2 * i) = c \<longleftrightarrow> i = c div 2 \<and> odd c"
proof -
  show "i div 2 = c \<longleftrightarrow> i = 2 * c \<or> i = Suc (2 * c)" by auto
  show "i div 2 = c div 2 \<longleftrightarrow> i = c \<or> i = sib c" 
    using assms by (cases rule: sib_cases) auto
qed (rule half_index)+

lemma sib_even: "even c \<Longrightarrow> 2 * (c div 2) = c" "even c \<Longrightarrow> sib c = Suc c"
  by (auto simp: sib_def)

lemma sib_odd:
  assumes "odd c" "2 \<le> c"
  shows "sib c = c - Suc 0" "Suc (c - Suc 0) = c" "c - Suc 0 \<noteq> c" "c - Suc 0 \<noteq> c div 2"
  using assms by (auto simp: sib_def elim!: oddE)

lemma swap_links_at:
  assumes L: "laid_out ns f n" and c: "2 \<le> c" "c \<le> n" and i: "0 < i" "i \<le> n"
  shows "swap_links ns f n c (f i) =
     (if i = c div 2 then
        \<lparr>hn_parent = Some (f c), hn_left = slot f n (2 * c), hn_right = slot f n (Suc (2 * c))\<rparr>
      else if i = c then
        \<lparr>hn_parent = slot f n (c div 2 div 2),
         hn_left = (if even c then Some (f (c div 2)) else slot f n (sib c)),
         hn_right = (if even c then slot f n (sib c) else Some (f (c div 2)))\<rparr>
      else if i = sib c then (laid_node f n i)\<lparr>hn_parent := Some (f c)\<rparr>
      else swap_mid ns f n c (f i))"
proof -
  note inj = laid_outD(1) [OF L]
  note sw = swap_links_def Let_def set_links_slot [OF inj] set_parent_of_slot [OF inj] laid_node_def
    sib_distinct [OF c(1)]
  have p: "c div 2 \<le> n" using c by simp
  consider "i = c div 2" | "i = c" | "i = sib c" | "i \<noteq> c div 2" "i \<noteq> c" "i \<noteq> sib c" by blast
  then show ?thesis
    by cases (use c i p in \<open>simp add: sw swap_mid_at [OF L c] del: slot_in\<close>)+
qed

lemma swap_links_other:
  assumes "2 \<le> c" "c \<le> n" "a \<notin> f ` {0<..n}"
  shows "swap_links ns f n c a = ns a"
proof -
  have "slot f n j \<noteq> Some a" "0 < j \<Longrightarrow> j \<le> n \<Longrightarrow> a \<noteq> f j" for j
    using assms by (auto simp: slot_def)
  then show ?thesis
    using assms by (simp add: swap_links_def swap_mid_def Let_def ptr_simps del: slot_in)
qed


lemma swap_links_laid_out:
  assumes L: "laid_out ns f n" and c: "2 \<le> c" "c \<le> n"
  shows "laid_out (swap_links ns f n c) (swap_at f c) n"
proof -
  have "swap_links ns f n c (swap_at f c i) = laid_node (swap_at f c) n i"
    if i: "0 < i" "i \<le> n" for i
  proof -
    note at = swap_links_at [OF L c] swap_mid_at [OF L c] laid_node_def slot_swap_at [OF c]
      sib_distinct [OF c(1)] sib_index [OF c(1)]
    have p: "c div 2 \<le> n" "c div 2 div 2 \<noteq> c" "c div 2 div 2 \<noteq> c div 2" using c by auto
    consider "i = c div 2" "swap_at f c i = f c" | "i = c" "swap_at f c i = f (c div 2)"
      | "i \<noteq> c div 2" "i \<noteq> c" "swap_at f c i = f i"
      using sib_distinct(3) [OF c(1)] by (auto simp: swap_at_def)
    then show ?thesis
    proof cases
      case 1
      show ?thesis unfolding 1(2) unfolding 1(1)
        using c p by (cases "even c") (simp_all add: at sib_even sib_odd del: slot_in)
    next
      case 2
      show ?thesis unfolding 2(2) unfolding 2(1)
        using c p by (simp add: at del: slot_in)
    next
      case 3
      show ?thesis unfolding 3(3)
        using 3(1,2) c i by (simp add: at del: slot_in)
    qed
  qed
  then show ?thesis
    using inj_on_swap_at [OF laid_outD(1) [OF L] c] by (simp add: laid_out_def)
qed

lemma heap_swap_laid_out:
  assumes L: "laid_out ns f n" and c: "2 \<le> c" "c \<le> n"
  shows "heap_swap h ns (f (c div 2)) (f c) =
     Some (if c div 2 = 1 then h\<lparr>root := Some (f c)\<rparr> else h, swap_links ns f n c)"
proof -
  note inj = laid_outD(1) [OF L] and node = laid_outD(2) [OF L]
  have p: "0 < c div 2" "c div 2 \<le> n" using c by auto
  have r: "relink h ns (slot f n (c div 2 div 2)) (f (c div 2)) (Some (f c)) =
     (if c div 2 = 1 then h\<lparr>root := Some (f c)\<rparr> else h,
      if c div 2 = 1 then ns else if even (c div 2) then set_left (f (c div 2 div 2)) (Some (f c)) ns
      else set_right (f (c div 2 div 2)) (Some (f c)) ns)"
    by (subst relink_slot [OF inj p node]) auto
  note mid = swap_mid_def [of ns f n c, unfolded Let_def, symmetric]
  have "swap_mid ns f n c (f (c div 2)) = laid_node f n (c div 2)"
    using c by (subst swap_mid_at [OF L c p]) (auto simp: div_eq_0_iff sib_distinct [OF c(1)])
  then have m: "hn_left (swap_mid ns f n c (f (c div 2))) = slot f n (2 * (c div 2))"
    "hn_right (swap_mid ns f n c (f (c div 2))) = slot f n (Suc (2 * (c div 2)))"
    by (simp_all add: laid_node_def)
  have cc: "0 < c" using c by simp
  have e: "slot f n (2 * (c div 2)) = Some (f c) \<longleftrightarrow> even c" "slot f n (Suc (2 * (c div 2))) = Some (f c) \<longleftrightarrow> odd c"
    unfolding slot_eq_Some [OF inj cc c(2)] by presburger+
  show ?thesis
    unfolding heap_swap_def node [OF cc c(2)] node [OF p] laid_node_def heap_node.simps e Let_def r prod.case mid m
    by (cases "even c") (simp_all add: swap_links_def Let_def sib_even sib_odd cc c p)
qed

text \<open>One arrangement of the same nodes replaced by another, everything else left alone.\<close>

definition rearranged ::
  "'m heap \<Rightarrow> node_store \<Rightarrow> (nat \<Rightarrow> addr) \<Rightarrow> 'm heap \<Rightarrow> node_store \<Rightarrow> (nat \<Rightarrow> addr) \<Rightarrow> bool" where
  "rearranged h ns f h' ns' f' \<longleftrightarrow>
     nelts h' = nelts h \<and> compare h' = compare h \<and> heap_layout h' ns' f' \<and>
     f' ` {0<..nelts h} = f ` {0<..nelts h} \<and> (\<forall>a. a \<notin> f ` {0<..nelts h} \<longrightarrow> ns' a = ns a)"

lemma rearranged_refl: "heap_layout h ns f \<Longrightarrow> rearranged h ns f h ns f"
  by (simp add: rearranged_def)

lemma rearranged_trans:
  "rearranged h ns f h1 ns1 f1 \<Longrightarrow> rearranged h1 ns1 f1 h2 ns2 f2 \<Longrightarrow> rearranged h ns f h2 ns2 f2"
  by (simp add: rearranged_def)

lemma heap_swap_rearranged:
  assumes L: "heap_layout h ns f" and c: "2 \<le> c" "c \<le> nelts h"
  obtains h' ns' where "heap_swap h ns (f (c div 2)) (f c) = Some (h', ns')"
    and "rearranged h ns f h' ns' (swap_at f c)"
proof -
  let ?h = "if c div 2 = 1 then h\<lparr>root := Some (f c)\<rparr> else h"
  let ?ns = "swap_links ns f (nelts h) c"
  have L': "laid_out ns f (nelts h)" using L by (simp add: heap_layout_def)
  have "slot (swap_at f c) (nelts h) 1 = (if c div 2 = 1 then Some (f c) else slot f (nelts h) 1)"
    using c slot_swap_at [OF c, of f 1] by auto
  then have "rearranged h ns f ?h ?ns (swap_at f c)"
    using L swap_links_laid_out [OF L' c] swap_links_other [OF c] image_swap_at [OF c, of f]
    by (auto simp: rearranged_def heap_layout_def)
  with heap_swap_laid_out [OF L' c] show thesis by (rule that)
qed

subsection \<open>The order of the keys\<close>

definition heap_ordered :: "(addr \<Rightarrow> addr \<Rightarrow> bool) \<Rightarrow> (nat \<Rightarrow> addr) \<Rightarrow> nat \<Rightarrow> bool" where
  "heap_ordered lt f n \<longleftrightarrow> (\<forall>i. 2 \<le> i \<longrightarrow> i \<le> n \<longrightarrow> \<not> lt (f i) (f (i div 2)))"

text \<open>The children of \<open>c\<close> are in order with the parent of \<open>c\<close>.\<close>

definition skips :: "(addr \<Rightarrow> addr \<Rightarrow> bool) \<Rightarrow> (nat \<Rightarrow> addr) \<Rightarrow> nat \<Rightarrow> nat \<Rightarrow> bool" where
  "skips lt f n c \<longleftrightarrow> (\<forall>i. i div 2 = c \<longrightarrow> i \<le> n \<longrightarrow> 2 \<le> c \<longrightarrow> \<not> lt (f i) (f (c div 2)))"

text \<open>In order but for the node at \<open>c\<close> and its parent, and but for the node at \<open>c\<close> and its
  parent and children: the invariants of the loops that sift up and down.\<close>

definition up_ok :: "(addr \<Rightarrow> addr \<Rightarrow> bool) \<Rightarrow> (nat \<Rightarrow> addr) \<Rightarrow> nat \<Rightarrow> nat \<Rightarrow> bool" where
  "up_ok lt f n c \<longleftrightarrow>
     (\<forall>i. 2 \<le> i \<longrightarrow> i \<le> n \<longrightarrow> i \<noteq> c \<longrightarrow> \<not> lt (f i) (f (i div 2))) \<and> skips lt f n c"

definition down_ok :: "(addr \<Rightarrow> addr \<Rightarrow> bool) \<Rightarrow> (nat \<Rightarrow> addr) \<Rightarrow> nat \<Rightarrow> nat \<Rightarrow> bool" where
  "down_ok lt f n c \<longleftrightarrow>
     (\<forall>i. 2 \<le> i \<longrightarrow> i \<le> n \<longrightarrow> i \<noteq> c \<longrightarrow> i div 2 \<noteq> c \<longrightarrow> \<not> lt (f i) (f (i div 2))) \<and> skips lt f n c"

locale heap_order =
  fixes lt :: "addr \<Rightarrow> addr \<Rightarrow> bool"
  assumes asym: "lt a b \<Longrightarrow> \<not> lt b a"
    and negtrans: "\<not> lt b a \<Longrightarrow> \<not> lt c b \<Longrightarrow> \<not> lt c a"
begin

lemma up_ok_swap:
  assumes ok: "up_ok lt f n c" and c: "2 \<le> c" "c \<le> n" and cp: "lt (f c) (f (c div 2))"
  shows "up_ok lt (swap_at f c) n (c div 2)"
proof -
  define p where "p = c div 2"
  have p: "0 < p" "p \<noteq> c" "p \<le> n" "p div 2 \<noteq> p" "p div 2 \<noteq> c" using c by (auto simp: p_def)
  have ord: "\<not> lt (f i) (f (i div 2))" if "2 \<le> i" "i \<le> n" "i \<noteq> c" for i
    using ok that by (auto simp: up_ok_def)
  have skip: "\<not> lt (f i) (f p)" if "i div 2 = c" "i \<le> n" for i
    using ok that c by (auto simp: up_ok_def skips_def p_def)
  have sw: "swap_at f c p = f c" "swap_at f c c = f p" "\<And>i. i \<noteq> p \<Longrightarrow> i \<noteq> c \<Longrightarrow> swap_at f c i = f i"
    using p by (auto simp: swap_at_def p_def)
  have lt_asym: "\<not> lt (f p) (f c)" using asym [OF cp] by (simp add: p_def)
  have "\<not> lt (swap_at f c i) (swap_at f c (i div 2))" if i: "2 \<le> i" "i \<le> n" "i \<noteq> p" for i
  proof -
    consider "i = c" | "i \<noteq> c" "i div 2 = p" | "i div 2 = c" | "i \<noteq> c" "i div 2 \<noteq> p" "i div 2 \<noteq> c" by blast
    then show ?thesis
    proof cases
      case 1 then show ?thesis using lt_asym sw by (simp add: p_def [symmetric])
    next
      case 2 then show ?thesis using sw i ord [of i] negtrans [OF lt_asym, of "f i"] by simp
    next
      case 3 then show ?thesis using sw i skip [of i] p c by auto
    next
      case 4 then show ?thesis using sw i ord [of i] by simp
    qed
  qed
  moreover have "\<not> lt (swap_at f c i) (swap_at f c (p div 2))" if i: "i div 2 = p" "i \<le> n" "2 \<le> p" for i
  proof -
    have top: "\<not> lt (f p) (f (p div 2))" using ord [of p] p i by simp
    have "i \<noteq> p" using i p by auto
    then show ?thesis using sw p i top ord [of i] negtrans [OF top, of "f i"]
      by (cases "i = c") auto
  qed
  ultimately show ?thesis by (auto simp: up_ok_def skips_def p_def)
qed

lemma sift_up_correct:
  assumes "heap_layout h ns f" "up_ok lt f (nelts h) c" "0 < c" "c \<le> nelts h"
  shows "\<exists>h' ns' f'. sift_up lt h ns (f c) = Some (h', ns') \<and>
     rearranged h ns f h' ns' f' \<and> heap_ordered lt f' (nelts h)"
  using assms
proof (induction c arbitrary: h ns f rule: less_induct)
  case (less c)
  have node: "hn_parent (ns (f c)) = slot f (nelts h) (c div 2)"
    using less.prems by (auto simp: heap_layout_def laid_out_def laid_node_def)
  show ?case
  proof (cases "2 \<le> c \<and> lt (f c) (f (c div 2))")
    case True
    obtain h1 ns1 where sw: "heap_swap h ns (f (c div 2)) (f c) = Some (h1, ns1)"
      and r: "rearranged h ns f h1 ns1 (swap_at f c)"
      using heap_swap_rearranged [of h ns f c] less.prems True by blast
    have n1: "nelts h1 = nelts h" "heap_layout h1 ns1 (swap_at f c)" using r by (auto simp: rearranged_def)
    have "c div 2 < c" "0 < c div 2" "c div 2 \<le> nelts h" using True less.prems by auto
    moreover have "up_ok lt (swap_at f c) (nelts h) (c div 2)"
      using up_ok_swap less.prems True by blast
    ultimately obtain h' ns' f' where "sift_up lt h1 ns1 (swap_at f c (c div 2)) = Some (h', ns')"
      "rearranged h1 ns1 (swap_at f c) h' ns' f'" "heap_ordered lt f' (nelts h)"
      using less.IH [of "c div 2" h1 ns1 "swap_at f c"] n1 by auto
    moreover have "swap_at f c (c div 2) = f c" using \<open>c div 2 < c\<close> by (simp add: swap_at_def)
    ultimately show ?thesis
      using rearranged_trans [OF r] sw True node less.prems by (subst sift_up.simps) auto
  next
    case False
    have "sift_up lt h ns (f c) = Some (h, ns)"
      using False node less.prems by (subst sift_up.simps) (cases "2 \<le> c"; simp add: slot_def)
    moreover have "heap_ordered lt f (nelts h)"
      using less.prems(2) False by (auto simp: up_ok_def heap_ordered_def)
    ultimately show ?thesis using rearranged_refl less.prems by blast
  qed
qed


lemma sift_est_min:
  assumes L: "laid_out ns f n" and c: "0 < c" "c \<le> n"
  obtains e where "sift_est lt ns (f c) = f e" "e \<in> {c, 2 * c, Suc (2 * c)}" "e \<le> n"
    "\<And>j. j \<in> {c, 2 * c, Suc (2 * c)} \<Longrightarrow> j \<le> n \<Longrightarrow> \<not> lt (f j) (f e)"
proof -
  have irr: "\<not> lt a a" for a using asym by blast
  have node: "ns (f c) = laid_node f n c" using laid_outD(2) [OF L] c by simp
  consider "n < 2 * c" | "2 * c \<le> n" "n < Suc (2 * c)" | "Suc (2 * c) \<le> n" by linarith
  then show thesis
  proof cases
    case 1
    then show thesis using c irr
      by (intro that [of c]) (auto simp: sift_est_def node laid_node_def)
  next
    case 2
    then show thesis using c irr asym
      by (intro that [of "if lt (f c) (f (2 * c)) then c else 2 * c"])
        (auto simp: sift_est_def node laid_node_def)
  next
    case 3
    define e where "e = (if lt (f c) (f (2 * c)) then c else 2 * c)"
    have e: "\<not> lt (f j) (f e)" if "j \<in> {c, 2 * c}" for j
      using that irr asym by (auto simp: e_def)
    have l: "f e = (if lt (f c) (f (2 * c)) then f c else f (2 * c))" by (simp add: e_def)
    define e' where "e' = (if lt (f e) (f (Suc (2 * c))) then e else Suc (2 * c))"
    have "\<not> lt (f j) (f e')" if "j \<in> {c, 2 * c, Suc (2 * c)}" for j
    proof (cases "lt (f e) (f (Suc (2 * c)))")
      case True
      then show ?thesis using that e [of j] asym [OF True] by (auto simp: e'_def)
    next
      case False
      then show ?thesis using that e [of j] negtrans [OF False, of "f j"] irr by (auto simp: e'_def)
    qed
    then show thesis using c 3
      by (intro that [of e']) (auto simp: sift_est_def node laid_node_def e'_def e_def Let_def)
  qed
qed

lemma down_ok_swap:
  assumes ok: "down_ok lt f n c" and c: "0 < c" "e div 2 = c" "e \<le> n"
    and e: "\<And>j. j \<in> {c, 2 * c, Suc (2 * c)} \<Longrightarrow> j \<le> n \<Longrightarrow> \<not> lt (f j) (f e)"
  shows "down_ok lt (swap_at f e) n e"
proof -
  have ce: "c \<noteq> e" "c div 2 \<noteq> c" "c div 2 \<noteq> e" "2 \<le> e" using c by auto
  have sw: "swap_at f e c = f e" "swap_at f e e = f c" "\<And>i. i \<noteq> c \<Longrightarrow> i \<noteq> e \<Longrightarrow> swap_at f e i = f i"
    using ce c(2) by (auto simp: swap_at_def)
  have ord: "\<not> lt (f i) (f (i div 2))" if "2 \<le> i" "i \<le> n" "i \<noteq> c" "i div 2 \<noteq> c" for i
    using ok that by (auto simp: down_ok_def)
  have "\<not> lt (swap_at f e i) (swap_at f e (i div 2))"
    if i: "2 \<le> i" "i \<le> n" "i \<noteq> e" "i div 2 \<noteq> e" for i
  proof -
    consider "i = c" | "i \<noteq> c" "i div 2 = c" | "i \<noteq> c" "i div 2 \<noteq> c" by blast
    then show ?thesis
    proof cases
      case 1
      then show ?thesis using ok sw ce c i by (auto simp: down_ok_def skips_def)
    next
      case 2
      then have "i \<in> {c, 2 * c, Suc (2 * c)}" by auto
      with 2 show ?thesis using e [of i] sw i by simp
    next
      case 3
      then show ?thesis using ord [of i] sw i by simp
    qed
  qed
  moreover have "\<not> lt (swap_at f e i) (swap_at f e (e div 2))" if i: "i div 2 = e" "i \<le> n" for i
  proof -
    have "i \<noteq> c" "i \<noteq> e" "2 \<le> i" using i c ce by auto
    then show ?thesis using ord [of i] sw i c(2) ce by simp
  qed
  ultimately show ?thesis by (auto simp: down_ok_def skips_def)
qed

lemma sift_down_correct:
  assumes "heap_layout h ns f" "down_ok lt f (nelts h) c" "0 < c" "c \<le> nelts h"
  shows "\<exists>h' ns' f' c'. sift_down lt h ns (f c) = Some (h', ns') \<and>
     rearranged h ns f h' ns' f' \<and> f' c' = f c \<and> 0 < c' \<and> c' \<le> nelts h \<and> up_ok lt f' (nelts h) c'"
  using assms
proof (induction "nelts h - c" arbitrary: c h ns f rule: less_induct)
  case less
  have L: "laid_out ns f (nelts h)" using less.prems by (simp add: heap_layout_def)
  obtain e where e: "sift_est lt ns (f c) = f e" "e \<in> {c, 2 * c, Suc (2 * c)}" "e \<le> nelts h"
    and min: "\<And>j. j \<in> {c, 2 * c, Suc (2 * c)} \<Longrightarrow> j \<le> nelts h \<Longrightarrow> \<not> lt (f j) (f e)"
    using sift_est_min [OF L less.prems(3,4)] by blast
  show ?case
  proof (cases "e = c")
    case True
    have "sift_down lt h ns (f c) = Some (h, ns)"
      using e True by (subst sift_down.simps) simp
    moreover have "\<not> lt (f i) (f (i div 2))" if "i \<noteq> c" "2 \<le> i" "i \<le> nelts h" for i
    proof (cases "i div 2 = c")
      case True
      then have "i \<in> {c, 2 * c, Suc (2 * c)}" by auto
      with min [of i] \<open>e = c\<close> True that show ?thesis by simp
    qed (use less.prems(2) that in \<open>auto simp: down_ok_def\<close>)
    then have "up_ok lt f (nelts h) c"
      using less.prems(2) by (auto simp: up_ok_def down_ok_def)
    ultimately show ?thesis using rearranged_refl less.prems by blast
  next
    case False
    then have ec: "e div 2 = c" "2 \<le> e" "c < e" using e(2) less.prems(3) by auto
    have "f e \<noteq> f c"
      using False e(3) ec less.prems slot_addr_eq [OF laid_outD(1) [OF L], of e c] by auto
    obtain h1 ns1 where sw: "heap_swap h ns (f (e div 2)) (f e) = Some (h1, ns1)"
      and r: "rearranged h ns f h1 ns1 (swap_at f e)"
      using heap_swap_rearranged [OF less.prems(1) ec(2) e(3)] by blast
    have n1: "nelts h1 = nelts h" "heap_layout h1 ns1 (swap_at f e)" using r by (auto simp: rearranged_def)
    have "down_ok lt (swap_at f e) (nelts h) e"
      using down_ok_swap [OF less.prems(2,3) ec(1) e(3) min] by blast
    moreover have "nelts h1 - e < nelts h - c" using n1 e(3) ec by simp
    ultimately obtain h' ns' f' c' where *: "sift_down lt h1 ns1 (swap_at f e e) = Some (h', ns')"
      "rearranged h1 ns1 (swap_at f e) h' ns' f'" "f' c' = swap_at f e e" "0 < c'" "c' \<le> nelts h"
      "up_ok lt f' (nelts h) c'"
      using less.hyps [of h1 e ns1 "swap_at f e"] n1 e(3) ec(2) by auto
    have "swap_at f e e = f c" using ec by (simp add: swap_at_def)
    with * have "sift_down lt h ns (f c) = Some (h', ns')" "f' c' = f c"
      using sw e(1) ec \<open>f e \<noteq> f c\<close> by (simp_all add: sift_down.simps [of lt h])
    with * rearranged_trans [OF r] show ?thesis by metis
  qed
qed

end

fun path_index :: "nat \<Rightarrow> nat \<Rightarrow> nat \<Rightarrow> nat" where
  "path_index i 0 path = i"
| "path_index i (Suc d) path = path_index (2 * i + path mod 2) d (path div 2)"

lemma path_index_ge: "i \<le> path_index i d path"
  by (induction i d path rule: path_index.induct) auto

lemma heap_path_index:
  "heap_path n d path = (d', path') \<Longrightarrow> 0 < n \<Longrightarrow> path_index 1 d' path' = path_index n d path"
proof (induction n d path rule: heap_path.induct)
  case (1 n d path)
  show ?case
  proof (cases "2 \<le> n")
    case True
    have "path_index 1 d' path' = path_index (n div 2) (d + 1) (2 * path + n mod 2)"
      using "1.IH" "1.prems" True heap_path.simps [of n d path] by simp
    also have "\<dots> = path_index n d path" by simp
    finally show ?thesis .
  next
    case False
    with "1.prems" have "n = 1" by simp
    with "1.prems" heap_path.simps [of n d path] show ?thesis by simp
  qed
qed

lemma heap_path_depth: "heap_path n d path = (d', path') \<Longrightarrow> d \<le> d' \<and> (2 \<le> n \<longrightarrow> d < d')"
proof (induction n d path rule: heap_path.induct)
  case (1 n d path)
  then show ?case by (cases "2 \<le> n") (auto simp: heap_path.simps [of n])
qed

lemma heap_walk_index:
  assumes L: "laid_out ns f n"
  shows "0 < i \<Longrightarrow> path_index i d path \<le> n \<Longrightarrow>
     \<exists>rest. heap_walk ns (Some (f i)) (Suc d) path = Some (Some (f (path_index i d path)), rest) \<and>
       path_index i (Suc d) path = 2 * path_index i d path + rest mod 2"
proof (induction i d path rule: path_index.induct)
  case (1 i path)
  then show ?case by (simp add: heap_walk.simps)
next
  case (2 i d path)
  let ?j = "2 * i + path mod 2"
  have "?j \<le> n" using path_index_ge [of ?j d "path div 2"] "2.prems" by simp
  moreover have "?j = (if odd path then Suc (2 * i) else 2 * i)" by (simp add: mod_2_eq_odd)
  ultimately have "heap_walk ns (Some (f i)) (Suc (Suc d)) path =
      heap_walk ns (Some (f ?j)) (Suc d) (path div 2)"
    using "2.prems" laid_outD(2) [OF L, of i] 
    by (subst heap_walk.simps) (auto simp: laid_node_def)
  then show ?case using "2.IH" "2.prems" by auto
qed

lemma heap_find_parent:
  assumes L: "laid_out ns f n" and N: "2 \<le> N" "N div 2 \<le> n" and hp: "heap_path N 0 0 = (d, path)"
  obtains rest where "heap_walk ns (slot f n 1) d path = Some (Some (f (N div 2)), rest)" "odd rest \<longleftrightarrow> odd N"
proof -
  obtain k where d: "d = Suc k" using heap_path_depth [OF hp] N by (cases d) auto
  have idx: "path_index 1 (Suc k) path = N" using heap_path_index [OF hp] N d by simp
  have "path_index i (Suc d) path div 2 = path_index i d path" for i d path
    by (induction i d path rule: path_index.induct) auto
  then have half: "path_index 1 k path = N div 2" using idx by metis
  obtain rest where w: "heap_walk ns (Some (f 1)) d path = Some (Some (f (N div 2)), rest)"
    and "N = 2 * (N div 2) + rest mod 2"
    using heap_walk_index [OF L, of 1 k path] N(2) unfolding half idx d by auto
  then have "odd rest \<longleftrightarrow> odd N" by presburger
  moreover have "slot f n 1 = Some (f 1)" using N by (intro slot_in) auto
  ultimately show thesis using w that by simp
qed

lemma laid_out_push:
  assumes L: "laid_out ns f n" and N: "N = Suc n" and fresh: "node \<notin> f ` {0<..n}"
    and links: "hn_left (ns node) = None" "hn_right (ns node) = None" and n: "0 < n"
  shows "laid_out
     ((if odd N then set_right else set_left) (f (N div 2)) (Some node) (set_parent node (Some (f (N div 2))) ns))
     (f(N := node)) N" (is "laid_out ?ns ?f _")
proof -
  note inj = laid_outD(1) [OF L] and node = laid_outD(2) [OF L]
  have p: "0 < N div 2" "N div 2 \<le> n" "N div 2 \<noteq> N" using n N by auto
  have sl: "slot ?f N i = (if i = N then Some node else slot f n i)" for i
    using N by (auto simp: slot_def)
  have ne: "f i \<noteq> node" "node \<noteq> f i" if "0 < i" "i \<le> n" for i using fresh that by auto
  have "?ns (?f i) = laid_node ?f N i" if i: "0 < i" "i \<le> N" for i
  proof (cases "i = N")
    case True
    have "slot f n (N div 2) = Some (f (N div 2))" "slot f n (2 * N) = None" "slot f n (Suc (2 * N)) = None"
      "2 * N \<noteq> N" "Suc (2 * N) \<noteq> N" using p N by auto
    then show ?thesis using True p(3) links ne [OF p(1,2)] unfolding laid_node_def sl
      by (simp add: set_left_def set_right_def set_parent_def)
  next
    case False
    then have i': "i \<le> n" and i2: "i div 2 \<noteq> N" using i N by auto
    show ?thesis
      using False i' i(1) i2 p(1,2) ne [OF i(1) i'] unfolding laid_node_def sl half_index
      by (cases "i = N div 2") (simp_all add: set_links_slot [OF inj] set_links_other node laid_node_def del: slot_in)
  qed
  moreover have "inj_on ?f {0<..N}"
  proof -
    have "{0<..N} = insert N {0<..n}" "N \<notin> {0<..n}" using N by auto
    then show ?thesis using inj_on_fun_updI [OF inj fresh, of N] fresh by auto
  qed
  ultimately show ?thesis by (simp add: laid_out_def)
qed


lemma heap_node_update_all:
  "r\<lparr>hn_parent := a, hn_left := b, hn_right := c\<rparr> = \<lparr>hn_parent = a, hn_left = b, hn_right = c\<rparr>"
  by (cases r) simp

lemma laid_out_pop:
  assumes L: "laid_out ns f N" and N: "N = Suc n" and n: "0 < n"
  shows "laid_out ((if odd N then set_right else set_left) (f (N div 2)) None ns) f n"
proof -
  note inj = laid_outD(1) [OF L] and node = laid_outD(2) [OF L]
  have p: "0 < N div 2" "N div 2 \<le> N" "N div 2 \<noteq> N" using n N by auto
  have sl: "slot f N i = (if i = N then Some (f N) else slot f n i)" for i
    using N by (auto simp: slot_def)
  have "(if odd N then set_right else set_left) (f (N div 2)) None ns (f i) = laid_node f n i"
    if i: "0 < i" "i \<le> n" for i
  proof -
    have i': "i \<le> N" "i \<noteq> N" "i div 2 \<noteq> N" "slot f n N = None" using i N by auto
    then show ?thesis
      using i(1) p unfolding laid_node_def
      by (cases "i = N div 2")
        (simp_all add: set_links_slot [OF inj] node laid_node_def sl half_index del: slot_in, simp_all add: slot_def N)
  qed
  moreover have "inj_on f {0<..n}" using inj by (rule inj_on_subset) (auto simp: N)
  ultimately show ?thesis by (simp add: laid_out_def)
qed

lemma relink_at:
  assumes L: "laid_out ns f n" and k: "0 < k" "k \<le> n"
  obtains ns1 where "relink h ns (slot f n (k div 2)) (f k) x = (if k = 1 then h\<lparr>root := x\<rparr> else h, ns1)"
    "\<And>i. 0 < i \<Longrightarrow> i \<le> n \<Longrightarrow> ns1 (f i) =
       (if i = k div 2 then if even k then (ns (f i))\<lparr>hn_left := x\<rparr> else (ns (f i))\<lparr>hn_right := x\<rparr> else ns (f i))"
    "\<And>a. a \<notin> f ` {0<..n} \<Longrightarrow> ns1 a = ns a"
proof (cases "k = 1")
  case True
  then show thesis using relink_slot [OF laid_outD(1) [OF L] k laid_outD(2) [OF L]] by (intro that) auto
next
  case False
  then have k2: "0 < k div 2" "k div 2 \<le> n" using k by auto
  then have "f (k div 2) \<in> f ` {0<..n}" by (intro imageI) auto
  then show thesis
    using relink_slot [OF laid_outD(1) [OF L] k laid_outD(2) [OF L], of h x] False k2
    by (intro that [of "if even k then set_left (f (k div 2)) x ns else set_right (f (k div 2)) x ns"])
      (auto simp: set_links_slot [OF laid_outD(1) [OF L]] intro!: set_links_other)
qed

lemma heap_replace_at:
  assumes L: "laid_out ns f n" and k: "0 < k" "k \<le> n" and v: "v \<notin> f ` {0<..n}"
  obtains ns' where "heap_replace h ns (f k) (Some v) = (if k = 1 then h\<lparr>root := Some v\<rparr> else h, ns')"
    "laid_out ns' (f(k := v)) n" "\<And>a. a \<notin> insert v (f ` {0<..n}) \<Longrightarrow> ns' a = ns a"
proof -
  note inj = laid_outD(1) [OF L] and node = laid_outD(2) [OF L]
  let ?f = "f(k := v)"
  obtain ns1 where r: "relink h ns (slot f n (k div 2)) (f k) (Some v) = (if k = 1 then h\<lparr>root := Some v\<rparr> else h, ns1)"
    and ns1: "\<And>i. 0 < i \<Longrightarrow> i \<le> n \<Longrightarrow> ns1 (f i) = (if i = k div 2 then
       if even k then (ns (f i))\<lparr>hn_left := Some v\<rparr> else (ns (f i))\<lparr>hn_right := Some v\<rparr> else ns (f i))"
    and ns1': "\<And>a. a \<notin> f ` {0<..n} \<Longrightarrow> ns1 a = ns a"
    using relink_at [OF L k] by metis
  define ns3 where "ns3 = set_parent_of (slot f n (Suc (2 * k))) (Some v) (set_parent_of (slot f n (2 * k)) (Some v) ns1)"
  have k2: "k \<noteq> k div 2" "k \<noteq> 2 * k" "k \<noteq> Suc (2 * k)" using k by auto
  have ns3: "ns3 (f i) = (if i = 2 * k \<or> i = Suc (2 * k) then (ns1 (f i))\<lparr>hn_parent := Some v\<rparr> else ns1 (f i))"
    if "0 < i" "i \<le> n" for i using that by (simp add: ns3_def set_parent_of_slot [OF inj] del: slot_in)
  have at_k: "ns3 (f k) = laid_node f n k" "hn_left (ns1 (f k)) = slot f n (2 * k)"
     "hn_right (set_parent_of (slot f n (2 * k)) (Some v) ns1 (f k)) = slot f n (Suc (2 * k))"
    using k k2 by (simp_all add: ns3 ns1 node laid_node_def set_parent_of_slot [OF inj] del: slot_in)
  have vk: "f i \<noteq> v" "v \<noteq> f i" if "0 < i" "i \<le> n" for i using v that by auto
  define ns' where "ns' = ns3(v := laid_node f n k)"
  have "heap_replace h ns (f k) (Some v) = (if k = 1 then h\<lparr>root := Some v\<rparr> else h, ns')"
    using at_k vk [OF k] r node [OF k]
    by (simp add: heap_replace_def laid_node_def Let_def ns3_def [symmetric] ns'_def set_parent_def set_left_def set_right_def
      heap_node_update_all del: slot_in)
  moreover have sl: "slot ?f n i = (if i = k then Some v else slot f n i)" for i using k by (auto simp: slot_def)
  have "ns' (?f i) = laid_node ?f n i" if i: "0 < i" "i \<le> n" for i
  proof (cases "i = k")
    case True
    then show ?thesis using k2 by (simp add: ns'_def laid_node_def sl del: slot_in)
  next
    case False
    have c: "i div 2 = k \<longleftrightarrow> i = 2 * k \<or> i = Suc (2 * k)" by auto
    have up: "\<not> (i = 2 * k \<or> i = Suc (2 * k))" if "i = k div 2" using that k by auto
    have "ns' (?f i) = ns3 (f i)" using False vk [OF i] by (simp add: ns'_def)
    then show ?thesis
      unfolding ns3 [OF i] ns1 [OF i] node [OF i] laid_node_def sl half_index c using up
      by (simp del: slot_in split: if_splits)
  qed
  then have "laid_out ns' ?f n" using inj_on_fun_updI [OF inj v] by (simp add: laid_out_def)
  moreover have "ns' a = ns a" if "a \<notin> insert v (f ` {0<..n})" for a
  proof -
    have "slot f n j \<noteq> Some a" for j using that by (auto simp: slot_def)
    then show ?thesis using that ns1' [of a] by (simp add: ns'_def ns3_def set_links_other)
  qed
  ultimately show thesis by (rule that)
qed

text \<open>The heap \<open>h\<close> holds exactly the nodes \<open>S\<close>, in order.\<close>

definition heap_rep :: "'m \<Rightarrow> 'm heap \<Rightarrow> node_store \<Rightarrow> addr set \<Rightarrow> bool" where
  "heap_rep m h ns S \<longleftrightarrow>
     (\<exists>cmp f. compare h = Some cmp \<and> heap_layout h ns f \<and>
        heap_ordered (cmp m) f (nelts h) \<and> S = f ` {0<..nelts h})"

lemma heap_repI:
  "compare h = Some cmp \<Longrightarrow> heap_layout h ns f \<Longrightarrow> heap_ordered (cmp m) f (nelts h) \<Longrightarrow>
     f ` {0<..nelts h} = S \<Longrightarrow> heap_rep m h ns S"
  unfolding heap_rep_def by blast

lemma heap_insert_laid_out:
  assumes L: "heap_layout h ns f" and cmp: "compare h = Some cmp" and fresh: "node \<notin> f ` {0<..nelts h}"
    and links: "hn_left (ns node) = None" "hn_right (ns node) = None"
  obtains h2 ns2 f2 where "heap_insert m h ns node = sift_up (cmp m) h2 ns2 node"
    "heap_layout h2 ns2 f2" "f2 = f(Suc (nelts h) := node)" "nelts h2 = Suc (nelts h)" "compare h2 = Some cmp"
    "\<And>a. a \<notin> insert node (f ` {0<..nelts h}) \<Longrightarrow> ns2 a = ns a"
proof (cases "nelts h = 0")
  case True
  let ?h2 = "h\<lparr>nelts := 1, root := Some node\<rparr>"
  let ?ns2 = "set_parent node None ns"
  have "heap_path 1 0 0 = (0, 0)" by (simp add: heap_path.simps)
  moreover have "root h = None" using L True by (simp add: heap_layout_def)
  ultimately have "heap_insert m h ns node = sift_up (cmp m) ?h2 ?ns2 node"
    using True cmp by (simp add: heap_insert_def heap_walk.simps)
  moreover have "heap_layout ?h2 ?ns2 (f(Suc (nelts h) := node))"
    using True links by (auto simp: heap_layout_def laid_out_def laid_node_def set_parent_def le_Suc_eq inj_on_def)
  ultimately show thesis
    using True cmp by (intro that [of ?h2 ?ns2]) (auto simp: set_links_other)
next
  case False
  let ?n = "nelts h" let ?N = "Suc (nelts h)"
  obtain d path where hp: "heap_path ?N 0 0 = (d, path)" by fastforce
  have L': "laid_out ns f ?n" and r: "root h = slot f ?n 1" using L by (auto simp: heap_layout_def)
  have N: "2 \<le> ?N" "?N div 2 \<le> ?n" using False by auto
  obtain rest where w: "heap_walk ns (slot f ?n 1) d path = Some (Some (f (?N div 2)), rest)" "odd rest \<longleftrightarrow> odd ?N"
    using heap_find_parent [OF L' N hp] by blast
  let ?h2 = "h\<lparr>nelts := ?N\<rparr>"
  let ?ns2 = "(if odd ?N then set_right else set_left) (f (?N div 2)) (Some node) (set_parent node (Some (f (?N div 2))) ns)"
  have "heap_insert m h ns node = sift_up (cmp m) ?h2 ?ns2 node"
    using w cmp hp r by (simp add: heap_insert_def)
  moreover have "laid_out ?ns2 (f(?N := node)) ?N"
    using laid_out_push [OF L' refl fresh links] False by simp
  moreover have "?ns2 a = ns a" if "a \<notin> insert node (f ` {0<..?n})" for a
  proof -
    have "f (?N div 2) \<in> f ` {0<..?n}" using N by (intro imageI) auto
    then have "a \<noteq> f (?N div 2)" "a \<noteq> node" using that by auto
    then show ?thesis by (cases "odd ?N") (simp_all only: set_links_other if_True if_False not_False_eq_True)
  qed
  ultimately show thesis
    using cmp r False by (intro that [of ?h2 ?ns2]) (simp_all add: heap_layout_def)
qed

context heap_order
begin

lemma heap_insert_rep:
  assumes rep: "heap_rep m h ns S" and cmp: "compare h = Some cmp" "cmp m = lt"
    and fresh: "node \<notin> S" and links: "hn_left (ns node) = None" "hn_right (ns node) = None"
  shows "\<exists>h' ns'. heap_insert m h ns node = Some (h', ns') \<and> heap_rep m h' ns' (insert node S) \<and>
     nelts h' = Suc (nelts h) \<and> compare h' = compare h \<and> (\<forall>a. a \<notin> insert node S \<longrightarrow> ns' a = ns a)"
proof -
  from rep cmp obtain f where L: "heap_layout h ns f" and o: "heap_ordered lt f (nelts h)"
    and S: "S = f ` {0<..nelts h}" by (auto simp: heap_rep_def)
  let ?N = "Suc (nelts h)"
  obtain h2 ns2 f2 where i: "heap_insert m h ns node = sift_up lt h2 ns2 node"
    and L2: "heap_layout h2 ns2 f2" and f2: "f2 = f(?N := node)" and n2: "nelts h2 = ?N" "compare h2 = Some cmp"
    and fr: "\<And>a. a \<notin> insert node (f ` {0<..nelts h}) \<Longrightarrow> ns2 a = ns a"
    using heap_insert_laid_out [OF L cmp(1) fresh [unfolded S] links, of m] cmp(2) by metis
  have "up_ok lt f2 ?N ?N"
    using o by (auto simp: up_ok_def skips_def heap_ordered_def f2 le_Suc_eq)
  then obtain h' ns' f' where s: "sift_up lt h2 ns2 (f2 ?N) = Some (h', ns')"
    and r: "rearranged h2 ns2 f2 h' ns' f'" and o': "heap_ordered lt f' ?N"
    using sift_up_correct [OF L2, of ?N] n2 by auto
  have "f2 ` {0<..?N} = insert node S" unfolding S f2 by (auto simp: image_iff le_Suc_eq)
  then have "heap_rep m h' ns' (insert node S)" "\<forall>a. a \<notin> insert node S \<longrightarrow> ns' a = ns a"
    using r o' n2 cmp fr heap_repI [of h' cmp ns' f' m] unfolding rearranged_def by (simp_all add: S)
  moreover have "nelts h' = Suc (nelts h)" "compare h' = compare h" using r n2 cmp by (simp_all add: rearranged_def)
  ultimately show ?thesis using i s f2 by simp
qed

end

lemma image_last: "inj_on f {0<..Suc n} \<Longrightarrow> f ` {0<..n} = f ` {0<..Suc n} - {f (Suc n)}"
proof -
  assume inj: "inj_on f {0<..Suc n}"
  have "{0<..n} = {0<..Suc n} - {Suc n}" by auto
  then show ?thesis using inj_on_image_set_diff [OF inj, of "{0<..Suc n}" "{Suc n}"] by auto
qed

lemma image_replace:
  assumes inj: "inj_on f {0<..Suc n}" and k: "0 < k" "k \<le> n"
  shows "(f(k := f (Suc n))) ` {0<..n} = f ` {0<..Suc n} - {f k}"
proof -
  have i: "{0<..n} = insert k ({0<..n} - {k})" "{0<..Suc n} - {k} = insert (Suc n) ({0<..n} - {k})" using k by auto
  have "(f(k := f (Suc n))) ` {0<..n} = f ` ({0<..Suc n} - {k})"
    unfolding i(2) by (subst i(1)) auto
  also have "\<dots> = f ` {0<..Suc n} - {f k}"
    using inj_on_image_set_diff [OF inj, of "{0<..Suc n}" "{k}"] k by auto
  finally show ?thesis .
qed

lemma heap_remove_single:
  assumes "heap_layout h ns f" "nelts h = 1"
  shows "heap_remove m h ns (f 1) = Some (h\<lparr>nelts := 0, root := None\<rparr>, ns)" "ns (f 1) = null_node"
proof -
  have "ns (f 1) = null_node" "root h = Some (f 1)"
    using assms by (auto simp: heap_layout_def laid_out_def laid_node_def null_node_def)
  moreover have "set_left (f 1) None ns = ns"
    using calculation by (auto simp: set_left_def null_node_def fun_eq_iff)
  ultimately show "heap_remove m h ns (f 1) = Some (h\<lparr>nelts := 0, root := None\<rparr>, ns)" "ns (f 1) = null_node"
    using assms by (simp_all add: heap_remove_def heap_path.simps heap_walk.simps null_node_def)
qed

text \<open>The part of \<open>heap_remove\<close> after the last node has been cut off.\<close>

lemma heap_remove_cut:
  assumes L: "heap_layout h ns f" and N: "nelts h = N" "N = Suc n" "0 < n" and cmp: "compare h = Some cmp"
    and ns1: "ns1 = (if odd N then set_right else set_left) (f (N div 2)) None ns"
  shows "heap_remove m h ns node =
     (let (h2, ns2) = heap_replace (h\<lparr>nelts := n\<rparr>) ns1 node (Some (f N))
      in Option.bind (sift_down (cmp m) h2 (ns2(node := null_node)) (f N))
           (\<lambda>(h4, ns4). sift_up (cmp m) h4 ns4 (f N)))"
proof -
  have L': "laid_out ns f N" and r: "root h = slot f N 1" using L N by (auto simp: heap_layout_def)
  obtain d path where hp: "heap_path N 0 0 = (d, path)" by fastforce
  have p: "2 \<le> N" "N div 2 \<le> N" "0 < N div 2" using N by auto
  obtain rest where w: "heap_walk ns (slot f N 1) d path = Some (Some (f (N div 2)), rest)" "odd rest \<longleftrightarrow> odd N"
    using heap_find_parent [OF L' p(1,2) hp] by blast
  have last: "odd N \<Longrightarrow> hn_right (ns (f (N div 2))) = Some (f N)" "even N \<Longrightarrow> hn_left (ns (f (N div 2))) = Some (f N)"
    using laid_outD(2) [OF L' p(3,2)] p by (simp_all add: laid_node_def)
  have null: "set_parent a None (set_left a None (set_right a None s)) = s(a := null_node)" for a s
    by (cases "s a") (simp add: set_parent_def set_left_def set_right_def null_node_def)
  have keep: "heap_replace h s a q = (h', s') \<Longrightarrow> compare h' = compare h" for h h' :: "'a heap" and s s' a q
    by (auto simp: heap_replace_def relink_def Let_def split: option.splits if_splits)
  obtain h2 ns2 where hr: "heap_replace (h\<lparr>nelts := n\<rparr>) ns1 node (Some (f N)) = (h2, ns2)" by fastforce
  have "compare h2 = Some cmp" using keep [OF hr] cmp by simp
  then show ?thesis
    using w hp N(1,2) r last ns1 hr p(1)
    by (cases "odd N") (simp_all add: heap_remove_def Let_def null)
qed

lemma heap_replace_self:
  assumes L: "laid_out ns f N" and N: "N = Suc n" "0 < n"
    and ns1: "ns1 = (if odd N then set_right else set_left) (f (N div 2)) None ns"
  shows "heap_replace h ns1 (f N) (Some (f N)) = (h, ns1)"
proof -
  have p: "0 < N div 2" "N div 2 \<le> N" "N div 2 \<noteq> N" "N \<le> N" "0 < N" "N div 2 \<le> n" using N by auto
  note inj = laid_outD(1) [OF L]
  have l: "laid_out ns1 f n" unfolding ns1 by (rule laid_out_pop [OF L N])
  have "slot f n j \<noteq> Some (f N)" for j using N by (auto simp: slot_def slot_addr_eq [OF inj])
  then have "hn_left (ns1 (f (N div 2))) \<noteq> Some (f N)" "hn_right (ns1 (f (N div 2))) \<noteq> Some (f N)"
    using laid_outD(2) [OF l p(1,6)] by (simp_all add: laid_node_def)
  moreover have "ns1 (f N) = \<lparr>hn_parent = Some (f (N div 2)), hn_left = None, hn_right = None\<rparr>"
    using p ns1 laid_outD(2) [OF L p(5,4)]
    by (cases "odd N") (simp_all add: set_links_slot [OF inj] laid_node_def slot_def)
  ultimately show ?thesis
    by (simp add: heap_replace_def relink_def set_parent_def set_left_def set_right_def fun_upd_idem)
qed

lemma sift_lone:
  "ns v = null_node \<Longrightarrow> sift_down lt h ns v = Some (h, ns)" "ns v = null_node \<Longrightarrow> sift_up lt h ns v = Some (h, ns)"
  by (simp_all add: sift_down.simps sift_up.simps sift_est_def null_node_def)


context heap_order
begin

lemma down_ok_replace:
  assumes o: "heap_ordered lt f N" and k: "0 < k" "k \<le> n" and n: "n \<le> N"
  shows "down_ok lt (f(k := v)) n k"
proof -
  have "\<not> lt ((f(k := v)) i) ((f(k := v)) (k div 2))" if i: "i div 2 = k" "i \<le> n" "2 \<le> k" for i
  proof -
    have "\<not> lt (f k) (f (k div 2))" "\<not> lt (f i) (f k)" using o i k n by (auto simp: heap_ordered_def)
    then have "\<not> lt (f i) (f (k div 2))" by (rule negtrans)
    moreover have "i \<noteq> k" "k div 2 \<noteq> k" using i k by auto
    ultimately show ?thesis by simp
  qed
  then have "skips lt (f(k := v)) n k" unfolding skips_def by blast
  moreover have "\<not> lt ((f(k := v)) i) ((f(k := v)) (i div 2))" if "2 \<le> i" "i \<le> n" "i \<noteq> k" "i div 2 \<noteq> k" for i
    using o that n by (simp add: heap_ordered_def)
  ultimately show ?thesis unfolding down_ok_def by blast
qed

lemma heap_remove_inner:
  assumes L: "heap_layout h ns f" and o: "heap_ordered lt f N" and N: "nelts h = N" "N = Suc n" "0 < n"
    and cmp: "compare h = Some cmp" "cmp m = lt" and k: "0 < k" "k \<le> n"
  shows "\<exists>h' ns' f'. heap_remove m h ns (f k) = Some (h', ns') \<and> heap_layout h' ns' f' \<and> heap_ordered lt f' n \<and>
     f' ` {0<..n} = f ` {0<..N} - {f k} \<and> nelts h' = n \<and> compare h' = compare h \<and> ns' (f k) = null_node \<and>
     (\<forall>a. a \<notin> f ` {0<..N} \<longrightarrow> ns' a = ns a)"
proof -
  have L': "laid_out ns f N" and r: "root h = slot f N 1" using L N by (auto simp: heap_layout_def)
  note inj = laid_outD(1) [OF L']
  define ns1 where "ns1 = (if odd N then set_right else set_left) (f (N div 2)) None ns"
  have l1: "laid_out ns1 f n" unfolding ns1_def by (rule laid_out_pop [OF L' N(2,3)])
  have v: "f N \<notin> f ` {0<..n}" using N by (auto simp: slot_addr_eq [OF inj])
  let ?h = "h\<lparr>nelts := n\<rparr>" and ?f = "f(k := f N)"
  obtain ns2 where hr: "heap_replace ?h ns1 (f k) (Some (f N)) = (if k = 1 then ?h\<lparr>root := Some (f N)\<rparr> else ?h, ns2)"
    and l2: "laid_out ns2 ?f n" and fr: "\<And>a. a \<notin> insert (f N) (f ` {0<..n}) \<Longrightarrow> ns2 a = ns1 a"
    using heap_replace_at [OF l1 k v] by metis
  define h2 ns3 where "h2 = (if k = 1 then ?h\<lparr>root := Some (f N)\<rparr> else ?h)" and "ns3 = ns2(f k := null_node)"
  define g where "g = ?f"
  have im: "g ` {0<..n} = f ` {0<..N} - {f k}" using image_replace [of f n k] inj k N by (simp add: g_def)
  have "ns3 (g i) = ns2 (g i)" if "0 < i" "i \<le> n" for i
    using im that unfolding ns3_def by (metis DiffD2 fun_upd_other greaterThanAtMost_iff image_eqI singletonI)
  then have "laid_out ns3 g n" using l2 by (simp add: laid_out_def g_def)
  then have l3: "heap_layout h2 ns3 g" and c2: "nelts h2 = n" "compare h2 = Some cmp"
    using r k N cmp by (auto simp: heap_layout_def h2_def g_def)
  have kk: "g k = f N" and ok: "down_ok lt g (nelts h2) k" and kle: "k \<le> nelts h2"
    unfolding c2 g_def using down_ok_replace [OF o k] k(2) N by auto
  obtain h4 ns4 f4 c4 where s: "sift_down lt h2 ns3 (f N) = Some (h4, ns4)" and r4: "rearranged h2 ns3 g h4 ns4 f4"
    and c4: "f4 c4 = f N" "0 < c4" "c4 \<le> n" "up_ok lt f4 n c4"
    using sift_down_correct [OF l3 ok k(1) kle] unfolding c2 kk by blast
  have l4: "heap_layout h4 ns4 f4" "nelts h4 = n" using r4 c2 by (simp_all add: rearranged_def)
  obtain h5 ns5 f5 where u: "sift_up lt h4 ns4 (f N) = Some (h5, ns5)" and r5: "rearranged h4 ns4 f4 h5 ns5 f5"
    and o5: "heap_ordered lt f5 n"
    using sift_up_correct [OF l4(1), of c4] c4 unfolding l4(2) by auto
  have r: "rearranged h2 ns3 g h5 ns5 f5" using rearranged_trans [OF r4 r5] .
  then have h5: "nelts h5 = n" "compare h5 = compare h" "heap_layout h5 ns5 f5" "f5 ` {0<..n} = f ` {0<..N} - {f k}"
    and fr5: "\<And>a. a \<notin> f ` {0<..N} - {f k} \<Longrightarrow> ns5 a = ns3 a"
    unfolding rearranged_def c2 im by (simp_all add: cmp)
  have "heap_remove m h ns (f k) = Some (h5, ns5)"
    using heap_remove_cut [OF L N cmp(1) ns1_def, of m "f k"] hr s u cmp(2) by (simp add: h2_def ns3_def)
  moreover have "ns5 a = ns a" if a: "a \<notin> f ` {0<..N}" for a
  proof -
    have "f (N div 2) \<in> f ` {0<..N}" "f k \<in> f ` {0<..N}" "f N \<in> f ` {0<..N}" "f ` {0<..n} \<subseteq> f ` {0<..N}"
      using N k by auto
    then have "a \<noteq> f (N div 2)" "a \<noteq> f k" "a \<notin> insert (f N) (f ` {0<..n})" using a by auto
    then have "ns3 a = ns a"
      using fr [of a] unfolding ns3_def ns1_def by (cases "odd N") (simp_all add: set_links_other)
    then show ?thesis using fr5 [of a] a by simp
  qed
  moreover have "ns5 (f k) = null_node" using fr5 [of "f k"] by (simp add: ns3_def)
  ultimately show ?thesis using h5 o5 by blast
qed


lemma heap_remove_last:
  assumes L: "heap_layout h ns f" and o: "heap_ordered lt f N" and N: "nelts h = N" "N = Suc n" "0 < n"
    and cmp: "compare h = Some cmp" "cmp m = lt"
  shows "\<exists>ns'. heap_remove m h ns (f N) = Some (h\<lparr>nelts := n\<rparr>, ns') \<and> heap_layout (h\<lparr>nelts := n\<rparr>) ns' f \<and>
     heap_ordered lt f n \<and> ns' (f N) = null_node \<and> (\<forall>a. a \<notin> f ` {0<..N} \<longrightarrow> ns' a = ns a)"
proof -
  have L': "laid_out ns f N" and r: "root h = slot f N 1" using L N by (auto simp: heap_layout_def)
  note inj = laid_outD(1) [OF L']
  define ns1 where "ns1 = (if odd N then set_right else set_left) (f (N div 2)) None ns"
  have l1: "laid_out ns1 f n" unfolding ns1_def by (rule laid_out_pop [OF L' N(2,3)])
  let ?ns = "ns1(f N := null_node)"
  have "heap_remove m h ns (f N) = Some (h\<lparr>nelts := n\<rparr>, ?ns)"
    using heap_remove_cut [OF L N cmp(1) ns1_def, of m "f N"] heap_replace_self [OF L' N(2,3) ns1_def, of "h\<lparr>nelts := n\<rparr>"]
    by (simp add: sift_lone)
  moreover have "?ns (f i) = ns1 (f i)" if "0 < i" "i \<le> n" for i
    using that N by (simp add: slot_addr_eq [OF inj])
  then have "heap_layout (h\<lparr>nelts := n\<rparr>) ?ns f" using l1 r N by (simp add: heap_layout_def laid_out_def)
  moreover have "?ns a = ns a" if "a \<notin> f ` {0<..N}" for a
  proof -
    have "f (N div 2) \<in> f ` {0<..N}" "f N \<in> f ` {0<..N}" using N by auto
    then have "a \<noteq> f (N div 2)" "a \<noteq> f N" using that by auto
    then show ?thesis unfolding ns1_def by (cases "odd N") (simp_all add: set_links_other)
  qed
  moreover have "heap_ordered lt f n" using o N by (simp add: heap_ordered_def)
  ultimately show ?thesis by (intro exI [of _ ?ns]) simp
qed

lemma heap_remove_rep:
  assumes rep: "heap_rep m h ns S" and cmp: "compare h = Some cmp" "cmp m = lt" and node: "node \<in> S"
  shows "\<exists>h' ns'. heap_remove m h ns node = Some (h', ns') \<and> heap_rep m h' ns' (S - {node}) \<and>
     Suc (nelts h') = nelts h \<and> compare h' = compare h \<and> ns' node = null_node \<and> (\<forall>a. a \<notin> S \<longrightarrow> ns' a = ns a)"
proof -
  from rep cmp obtain f where L: "heap_layout h ns f" and o: "heap_ordered lt f (nelts h)"
    and S: "S = f ` {0<..nelts h}" by (auto simp: heap_rep_def)
  from node S obtain k where k: "0 < k" "k \<le> nelts h" "node = f k" by auto
  then obtain n where N: "nelts h = Suc n" by (cases "nelts h") auto
  have inj: "inj_on f {0<..Suc n}" using L N by (simp add: heap_layout_def laid_out_def)
  consider "n = 0" | "0 < n" "k = Suc n" | "0 < n" "k \<le> n" using k N by linarith
  then show ?thesis
  proof cases
    case 1
    then have "k = 1" "S = {f 1}" using k N S by (auto simp: image_iff le_Suc_eq)
    then have "heap_rep m (h\<lparr>nelts := 0, root := None\<rparr>) ns (S - {node})"
      using k cmp by (intro heap_repI [of _ cmp _ f]) (auto simp: heap_layout_def laid_out_def heap_ordered_def)
    then show ?thesis using heap_remove_single [OF L] 1 k N \<open>k = 1\<close> by simp
  next
    case 2
    obtain ns' where r: "heap_remove m h ns node = Some (h\<lparr>nelts := n\<rparr>, ns')" "heap_layout (h\<lparr>nelts := n\<rparr>) ns' f"
      "heap_ordered lt f n" "ns' node = null_node" "\<forall>a. a \<notin> S \<longrightarrow> ns' a = ns a"
      using heap_remove_last [OF L o refl N 2(1) cmp] 2(2) k S N by auto
    have "heap_rep m (h\<lparr>nelts := n\<rparr>) ns' (S - {node})"
      using r cmp image_last [OF inj] 2 k S N by (intro heap_repI [of _ cmp _ f]) simp_all
    then show ?thesis using r N by simp
  next
    case 3
    obtain h' ns' f' where r: "heap_remove m h ns node = Some (h', ns')" "heap_layout h' ns' f'" "heap_ordered lt f' n"
      "f' ` {0<..n} = S - {node}" "nelts h' = n" "compare h' = compare h" "ns' node = null_node" "\<forall>a. a \<notin> S \<longrightarrow> ns' a = ns a"
      using heap_remove_inner [OF L o refl N 3(1) cmp k(1) 3(2)] k(3) S by auto
    have "heap_rep m h' ns' (S - {node})" using r cmp by (intro heap_repI [of _ cmp _ f']) simp_all
    then show ?thesis using r N by simp
  qed
qed

lemma ordered_root_min:
  assumes "heap_ordered lt f n" "0 < i" "i \<le> n"
  shows "\<not> lt (f i) (f 1)"
  using assms(2,3)
proof (induction i rule: less_induct)
  case (less i)
  show ?case
  proof (cases "i = 1")
    case True
    then show ?thesis using asym by blast
  next
    case False
    then have "\<not> lt (f (i div 2)) (f 1)" "\<not> lt (f i) (f (i div 2))"
      using less assms(1) by (auto simp: heap_ordered_def)
    then show ?thesis by (rule negtrans)
  qed
qed

lemma heap_rep_root:
  assumes rep: "heap_rep m h ns S" and cmp: "compare h = Some cmp" "cmp m = lt"
  shows "root h = None \<longleftrightarrow> S = {}" "root h = Some a \<Longrightarrow> a \<in> S \<and> (\<forall>b\<in>S. \<not> lt b a)" "nelts h = card S" "finite S"
proof -
  from rep cmp obtain f where L: "heap_layout h ns f" and o: "heap_ordered lt f (nelts h)"
    and S: "S = f ` {0<..nelts h}" by (auto simp: heap_rep_def)
  show "root h = None \<longleftrightarrow> S = {}" using L S by (auto simp: heap_layout_def slot_def)
  show "nelts h = card S" "finite S" using L S by (simp_all add: heap_layout_def laid_out_def card_image)
  show "a \<in> S \<and> (\<forall>b\<in>S. \<not> lt b a)" if "root h = Some a"
  proof -
    have "a = f 1" "0 < nelts h" using that L by (auto simp: heap_layout_def slot_def split: if_splits)
    then show ?thesis using S ordered_root_min [OF o] by auto
  qed
qed

end

lemma heap_rep_init: "heap_rep m (heap_init (Some cmp)) ns {}"
  by (rule heap_repI [of _ cmp _ "\<lambda>_. 0"]) (auto simp: heap_init_def heap_layout_def laid_out_def heap_ordered_def)

subsection \<open>The order of a key\<close>

text \<open>
  The comparison functions the program installs (\<open>timers_compare\<close> of \<open>event/hloop.c\<close>) compare one key
  of the two nodes, so they meet the contract of \<open>heap_order\<close>.
\<close>

interpretation key_order: heap_order "\<lambda>a b. (key :: addr \<Rightarrow> 'k::linorder) a < key b" for key
  by unfold_locales auto

text \<open>A heap of three nodes for the examples below, laid out at the addresses 1, 2 and 3.\<close>

definition demo_store :: node_store where
  "demo_store = (\<lambda>a. laid_node id 3 a)"

definition demo_heap :: "unit heap" where
  "demo_heap = \<lparr>root = Some 1, nelts = 3, compare = Some (\<lambda>_ a b. a < b)\<rparr>"

lemma demo_heap_rep: "heap_rep () demo_heap demo_store {1, 2, 3}"
proof (rule heap_repI [of _ "\<lambda>_ a b. a < b" _ id])
  show "id ` {0<..nelts demo_heap} = {1, 2, 3}" by (auto simp: demo_heap_def)
qed (auto simp: demo_heap_def demo_store_def heap_layout_def laid_out_def heap_ordered_def)



text \<open>
  C7: removing any node of the heap returns a heap in order with exactly the other nodes; the links of the
  removed node are all \<open>NULL\<close> afterwards and nodes outside the heap are not touched.
\<close>

theorem heap_remove_correct:
  assumes "heap_rep m h ns S" "compare h = Some (\<lambda>m a b. key m a < (key m b :: 'k::linorder))" "node \<in> S"
  shows "\<exists>h' ns'. heap_remove m h ns node = Some (h', ns') \<and> heap_rep m h' ns' (S - {node}) \<and>
     Suc (nelts h') = nelts h \<and> compare h' = compare h \<and> ns' node = null_node \<and> (\<forall>a. a \<notin> S \<longrightarrow> ns' a = ns a)"
  using key_order.heap_remove_rep [OF assms(1,2) refl assms(3)] .

theorem heap_remove_correct_witness:
  "\<exists>h' ns'. heap_remove () demo_heap demo_store 1 = Some (h', ns') \<and> heap_rep () h' ns' ({1, 2, 3} - {1}) \<and>
     Suc (nelts h') = 3 \<and> compare h' = compare demo_heap \<and> ns' 1 = null_node \<and>
     (\<forall>a. a \<notin> {1, 2, 3} \<longrightarrow> ns' a = demo_store a)"
  using heap_remove_correct [OF demo_heap_rep, of "\<lambda>_ a. a" 1] by (simp add: demo_heap_def)



end
