(* ===== verification/Hv_List.thy ===== *)
theory Hv_List imports Prelude begin

section \<open>Doubly linked lists (base/list.h)\<close>

text \<open>
  The intrusive circular lists of \<open>base/list.h\<close>.  A \<open>struct list_head\<close> is a record of two links in a
  store indexed by addresses; the operations are the assignments of the C functions, in their order.
  \<open>list_rep\<close> says that the list with a given head links exactly the entries of a HOL list, forwards and
  backwards, and every operation is shown to implement the corresponding operation on HOL lists.
\<close>

record list_head =
  ln_next :: addr
  ln_prev :: addr

type_synonym list_store = "addr \<Rightarrow> list_head"

definition set_next :: "addr \<Rightarrow> addr \<Rightarrow> list_store \<Rightarrow> list_store" where
  "set_next a v s = s(a := (s a)\<lparr>ln_next := v\<rparr>)"

definition set_prev :: "addr \<Rightarrow> addr \<Rightarrow> list_store \<Rightarrow> list_store" where
  "set_prev a v s = s(a := (s a)\<lparr>ln_prev := v\<rparr>)"

definition list_init :: "addr \<Rightarrow> list_store \<Rightarrow> list_store" where
  "list_init l s = set_prev l l (set_next l l s)"

definition list_add_between :: "addr \<Rightarrow> addr \<Rightarrow> addr \<Rightarrow> list_store \<Rightarrow> list_store" where
  "list_add_between n p q s = set_next p n (set_prev n p (set_next n q (set_prev q n s)))"

definition list_add :: "addr \<Rightarrow> addr \<Rightarrow> list_store \<Rightarrow> list_store" where
  "list_add n head s = list_add_between n head (ln_next (s head)) s"

definition list_add_tail :: "addr \<Rightarrow> addr \<Rightarrow> list_store \<Rightarrow> list_store" where
  "list_add_tail n head s = list_add_between n (ln_prev (s head)) head s"

definition list_del_between :: "addr \<Rightarrow> addr \<Rightarrow> list_store \<Rightarrow> list_store" where
  "list_del_between p q s = set_next p q (set_prev q p s)"

definition list_del :: "addr \<Rightarrow> list_store \<Rightarrow> list_store" where
  "list_del entry s = list_del_between (ln_prev (s entry)) (ln_next (s entry)) s"

definition list_replace :: "addr \<Rightarrow> addr \<Rightarrow> list_store \<Rightarrow> list_store" where
  "list_replace old n s =
     (let s = set_next n (ln_next (s old)) s;
          s = set_prev (ln_next (s n)) n s;
          s = set_prev n (ln_prev (s old)) s
      in set_next (ln_prev (s n)) n s)"

definition list_replace_init :: "addr \<Rightarrow> addr \<Rightarrow> list_store \<Rightarrow> list_store" where
  "list_replace_init old n s = list_init old (list_replace old n s)"

definition list_del_init :: "addr \<Rightarrow> list_store \<Rightarrow> list_store" where
  "list_del_init entry s = list_init entry (list_del entry s)"

definition list_move :: "addr \<Rightarrow> addr \<Rightarrow> list_store \<Rightarrow> list_store" where
  "list_move l head s = list_add l head (list_del l s)"

definition list_move_tail :: "addr \<Rightarrow> addr \<Rightarrow> list_store \<Rightarrow> list_store" where
  "list_move_tail l head s = list_add_tail l head (list_del l s)"

definition list_is_last :: "addr \<Rightarrow> addr \<Rightarrow> list_store \<Rightarrow> bool" where
  "list_is_last l head s \<longleftrightarrow> ln_next (s l) = head"

definition list_empty :: "addr \<Rightarrow> list_store \<Rightarrow> bool" where
  "list_empty head s \<longleftrightarrow> ln_next (s head) = head"

definition list_rotate_left :: "addr \<Rightarrow> list_store \<Rightarrow> list_store" where
  "list_rotate_left head s =
     (if \<not> list_empty head s then list_move_tail (ln_next (s head)) head s else s)"

definition list_is_singular :: "addr \<Rightarrow> list_store \<Rightarrow> bool" where
  "list_is_singular head s \<longleftrightarrow> \<not> list_empty head s \<and> ln_next (s head) = ln_prev (s head)"

definition list_splice_between :: "addr \<Rightarrow> addr \<Rightarrow> addr \<Rightarrow> list_store \<Rightarrow> list_store" where
  "list_splice_between l p q s =
     (let first = ln_next (s l); last = ln_prev (s l)
      in set_prev q last (set_next last q (set_next p first (set_prev first p s))))"

definition list_splice :: "addr \<Rightarrow> addr \<Rightarrow> list_store \<Rightarrow> list_store" where
  "list_splice l head s =
     (if \<not> list_empty l s then list_splice_between l head (ln_next (s head)) s else s)"

definition list_splice_tail :: "addr \<Rightarrow> addr \<Rightarrow> list_store \<Rightarrow> list_store" where
  "list_splice_tail l head s =
     (if \<not> list_empty l s then list_splice_between l (ln_prev (s head)) head s else s)"

definition list_splice_tail_init :: "addr \<Rightarrow> addr \<Rightarrow> list_store \<Rightarrow> list_store" where
  "list_splice_tail_init l head s =
     (if \<not> list_empty l s then list_init l (list_splice_between l (ln_prev (s head)) head s) else s)"

definition list_splice_init :: "addr \<Rightarrow> addr \<Rightarrow> list_store \<Rightarrow> list_store" where
  "list_splice_init l head s =
     (if \<not> list_empty l s then list_init l (list_splice_between l head (ln_next (s head)) s) else s)"

definition list_cut_between :: "addr \<Rightarrow> addr \<Rightarrow> addr \<Rightarrow> list_store \<Rightarrow> list_store" where
  "list_cut_between l head entry s =
     (let new_first = ln_next (s entry);
          s = set_next l (ln_next (s head)) s;
          s = set_prev (ln_next (s l)) l s;
          s = set_prev l entry s;
          s = set_next entry l s;
          s = set_next head new_first s
      in set_prev new_first head s)"

definition list_cut_position :: "addr \<Rightarrow> addr \<Rightarrow> addr \<Rightarrow> list_store \<Rightarrow> list_store" where
  "list_cut_position l head entry s =
     (if list_empty head s then s
      else if list_is_singular head s \<and> (ln_next (s head) \<noteq> entry \<and> head \<noteq> entry) then s
      else if entry = head then list_init l s
      else list_cut_between l head entry s)"

subsection \<open>The list a head stands for\<close>

text \<open>The links run from \<open>a\<close> through the entries \<open>xs\<close> to \<open>b\<close>, in both directions.\<close>

fun dseg :: "list_store \<Rightarrow> addr \<Rightarrow> addr list \<Rightarrow> addr \<Rightarrow> bool" where
  "dseg s a [] b \<longleftrightarrow> ln_next (s a) = b \<and> ln_prev (s b) = a"
| "dseg s a (x # xs) b \<longleftrightarrow> ln_next (s a) = x \<and> ln_prev (s x) = a \<and> dseg s x xs b"

definition list_rep :: "list_store \<Rightarrow> addr \<Rightarrow> addr list \<Rightarrow> bool" where
  "list_rep s h xs \<longleftrightarrow> dseg s h xs h \<and> distinct (h # xs)"

lemma link_simps [simp]:
  "ln_next (set_next a v s x) = (if x = a then v else ln_next (s x))"
  "ln_prev (set_next a v s x) = ln_prev (s x)"
  "ln_next (set_prev a v s x) = ln_next (s x)"
  "ln_prev (set_prev a v s x) = (if x = a then v else ln_prev (s x))"
  by (simp_all add: set_next_def set_prev_def)

lemma links_other [ptr_simps]:
  "x \<noteq> a \<Longrightarrow> set_next a v s x = s x" "x \<noteq> a \<Longrightarrow> set_prev a v s x = s x"
  by (simp_all add: set_next_def set_prev_def)

lemma dseg_append: "dseg s a (xs @ y # ys) b \<longleftrightarrow> dseg s a xs y \<and> dseg s y ys b"
  by (induction xs arbitrary: a) auto

lemma dseg_set [simp]:
  "c \<noteq> a \<Longrightarrow> c \<notin> set xs \<Longrightarrow> dseg (set_next c v s) a xs b = dseg s a xs b"
  "c \<noteq> b \<Longrightarrow> c \<notin> set xs \<Longrightarrow> dseg (set_prev c v s) a xs b = dseg s a xs b"
  by (induction xs arbitrary: a) auto

lemma dseg_ends: "dseg s a xs b \<Longrightarrow> ln_next (s a) = hd (xs @ [b]) \<and> ln_prev (s b) = last (a # xs)"
  by (induction xs arbitrary: a) auto

text \<open>The three changes of shape: an entry added, an entry bypassed, a segment put in.\<close>

lemma dseg_insert:
  assumes "dseg s a (xs @ ys) b" "distinct (a # xs @ ys)" "b \<notin> set (xs @ ys)" "n \<notin> set (a # b # xs @ ys)"
  shows "dseg (list_add_between n (last (a # xs)) (hd (ys @ [b])) s) a (xs @ n # ys) b"
  using assms
proof (induction xs arbitrary: a)
  case Nil
  show ?case
  proof (cases ys)
    case (Cons y zs)
    then show ?thesis using Nil by (simp add: list_add_between_def)
  qed (use Nil in \<open>simp add: list_add_between_def\<close>)
next
  case (Cons x xs)
  then have "dseg (list_add_between n (last (x # xs)) (hd (ys @ [b])) s) x (xs @ n # ys) b"
    by (intro Cons.IH) auto
  moreover have "last (x # xs) \<in> set (x # xs)" by (rule last_in_set) simp
  then have "last (x # xs) \<noteq> a" using Cons.prems by auto
  moreover have "hd (ys @ [b]) \<in> set (b # ys)" by (cases ys) auto
  then have "hd (ys @ [b]) \<noteq> x" using Cons.prems by auto
  ultimately show ?case using Cons.prems by (simp add: list_add_between_def)
qed

lemma dseg_bypass:
  assumes "dseg s a xs e" "dseg s e ys b" "distinct (a # xs @ e # ys)" "b \<notin> set (xs @ e # ys)"
  shows "dseg (list_del_between (last (a # xs)) (hd (ys @ [b])) s) a (xs @ ys) b"
  using assms
proof (induction xs arbitrary: a)
  case Nil
  show ?case
  proof (cases ys)
    case (Cons y zs)
    then show ?thesis using Nil by (simp add: list_del_between_def)
  qed (use Nil in \<open>simp add: list_del_between_def\<close>)
next
  case (Cons x xs)
  then have "dseg (list_del_between (last (x # xs)) (hd (ys @ [b])) s) x (xs @ ys) b"
    by (intro Cons.IH) auto
  moreover have "last (x # xs) \<in> set (x # xs)" by (rule last_in_set) simp
  then have "last (x # xs) \<noteq> a" using Cons.prems by auto
  moreover have "hd (ys @ [b]) \<in> set (b # ys)" by (cases ys) auto
  then have "hd (ys @ [b]) \<noteq> x" using Cons.prems by auto
  ultimately show ?case using Cons.prems by (simp add: list_del_between_def)
qed


lemma dseg_retarget:
  assumes "dseg s a zs m" "zs \<noteq> []" "distinct (a # zs)" "b \<notin> set zs"
  shows "dseg (set_prev b (last zs) (set_next (last zs) b s)) a zs b"
proof -
  obtain ys z where zs: "zs = ys @ [z]" using assms(2) by (metis append_butlast_last_id)
  then show ?thesis using assms by (auto simp: dseg_append)
qed

lemma dseg_restart:
  assumes "dseg s l zs m" "zs \<noteq> []" "distinct (a # zs)" "m \<notin> set zs"
  shows "dseg (set_next a (hd zs) (set_prev (hd zs) a s)) a zs m"
  using assms by (cases zs) auto

subsection \<open>The operations on the list\<close>

lemma list_rep_init [simp]: "list_rep (list_init h s) h []"
  by (simp add: list_rep_def list_init_def)

lemma list_rep_empty: "list_rep s h xs \<Longrightarrow> list_empty h s \<longleftrightarrow> xs = []"
  by (cases xs) (auto simp: list_rep_def list_empty_def)

lemma list_rep_first: "list_rep s h (x # xs) \<Longrightarrow> ln_next (s h) = x"
  by (simp add: list_rep_def)

lemma list_rep_next:
  assumes "list_rep s h (xs @ e # ys)"
  shows "ln_next (s e) = hd (ys @ [h])" "ln_prev (s e) = last (h # xs)"
  using assms dseg_ends unfolding list_rep_def dseg_append by blast+

lemma list_rep_add:
  assumes "list_rep s h xs" "n \<notin> set (h # xs)"
  shows "list_rep (list_add n h s) h (n # xs)"
  using assms dseg_insert [of s h "[]" xs h n] dseg_ends [of s h xs h]
  by (auto simp: list_rep_def list_add_def)

lemma list_rep_add_tail:
  assumes "list_rep s h xs" "n \<notin> set (h # xs)"
  shows "list_rep (list_add_tail n h s) h (xs @ [n])"
  using assms dseg_insert [of s h xs "[]" h n] dseg_ends [of s h xs h]
  by (auto simp: list_rep_def list_add_tail_def)

lemma list_rep_del:
  assumes "list_rep s h (xs @ e # ys)"
  shows "list_rep (list_del e s) h (xs @ ys)"
  using assms dseg_bypass [of s h xs e ys h] list_rep_next [OF assms]
  by (auto simp: list_rep_def list_del_def dseg_append)

lemma list_rep_remove1:
  assumes "list_rep s h xs" "e \<in> set xs"
  shows "list_rep (list_del e s) h (remove1 e xs)"
proof -
  obtain ys zs where xs: "xs = ys @ e # zs" using assms(2) split_list by fast
  moreover have "e \<notin> set ys" using assms(1) xs by (simp add: list_rep_def)
  ultimately show ?thesis using list_rep_del assms(1) by (simp add: remove1_append)
qed

lemma list_rep_init_other:
  assumes "list_rep s h xs" "e \<notin> set (h # xs)"
  shows "list_rep (list_init e s) h xs"
  using assms by (simp add: list_rep_def list_init_def)

lemma list_rep_move_tail:
  assumes "list_rep s h xs" "e \<in> set xs"
  shows "list_rep (list_move_tail e h s) h (remove1 e xs @ [e])"
proof -
  have "e \<notin> set (h # remove1 e xs)" using assms by (auto simp: list_rep_def)
  then show ?thesis using list_rep_remove1 [OF assms] unfolding list_move_tail_def by (rule list_rep_add_tail [rotated])
qed

lemma list_rep_move:
  assumes "list_rep s h xs" "e \<in> set xs"
  shows "list_rep (list_move e h s) h (e # remove1 e xs)"
proof -
  have "e \<notin> set (h # remove1 e xs)" using assms by (auto simp: list_rep_def)
  then show ?thesis using list_rep_remove1 [OF assms] unfolding list_move_def by (rule list_rep_add [rotated])
qed

lemma list_rep_rotate_left:
  assumes "list_rep s h xs"
  shows "list_rep (list_rotate_left h s) h (rotate1 xs)"
proof (cases xs)
  case Nil
  then show ?thesis using assms by (simp add: list_rotate_left_def list_rep_empty)
next
  case (Cons x ys)
  then show ?thesis
    using assms list_rep_move_tail [of s h xs x] by (simp add: list_rotate_left_def list_rep_empty list_rep_first)
qed

lemma list_store_eqI:
  assumes "\<And>x. ln_next (s x) = ln_next (t x)" "\<And>x. ln_prev (s x) = ln_prev (t x)"
  shows "(s :: list_store) = t"
  using assms by (intro ext list_head.equality) auto

lemma list_rep_replace:
  assumes rep: "list_rep s h (xs @ e # ys)" and n: "n \<notin> set (h # xs @ e # ys)"
  shows "list_rep (list_replace e n s) h (xs @ n # ys)"
proof -
  let ?p = "last (h # xs)" and ?q = "hd (ys @ [h])"
  have pq: "ln_next (s e) = ?q" "ln_prev (s e) = ?p" using list_rep_next [OF rep] by auto
  have "?p \<in> set (h # xs)" by (rule last_in_set) simp
  moreover have "?q \<in> set (h # ys)" by (cases ys) auto
  ultimately have ne: "?p \<noteq> n" "?q \<noteq> n" "?p \<noteq> e" "?q \<noteq> e" "e \<noteq> n"
    using rep n by (auto simp: list_rep_def)
  have "list_replace e n s = list_add_between n ?p ?q (list_del e s)"
    by (rule list_store_eqI) (use ne in \<open>simp_all add: list_replace_def list_add_between_def list_del_def
      list_del_between_def pq Let_def\<close>)
  moreover have "dseg (list_add_between n ?p ?q (list_del e s)) h (xs @ n # ys) h"
    using n list_rep_del [OF rep] by (intro dseg_insert) (auto simp: list_rep_def)
  ultimately show ?thesis using rep n by (auto simp: list_rep_def)
qed

lemma list_rep_splice_tail:
  assumes h: "list_rep s h xs" and l: "list_rep s l zs" and d: "set (h # xs) \<inter> set (l # zs) = {}"
  shows "list_rep (list_splice_tail_init l h s) h (xs @ zs) \<and> list_rep (list_splice_tail_init l h s) l []"
proof (cases "zs = []")
  case True
  then show ?thesis using h l by (simp add: list_splice_tail_init_def list_rep_empty)
next
  case False
  let ?p = "last (h # xs)"
  let ?s = "set_prev h (last zs) (set_next (last zs) h (set_next ?p (hd zs) (set_prev (hd zs) ?p s)))"
  have e: "ln_next (s l) = hd zs" "ln_prev (s l) = last zs" "ln_prev (s h) = ?p"
    using l h False dseg_ends [of s l zs l] dseg_ends [of s h xs h] by (auto simp: list_rep_def)
  have "?p \<in> set (h # xs)" by (rule last_in_set) simp
  then have p: "?p \<notin> set (l # zs)" using d by blast
  have z: "hd zs \<in> set zs" "last zs \<in> set zs" using False by simp_all
  have seg: "dseg ?s ?p zs h"
    using l p d False by (intro dseg_retarget dseg_restart [of s l]) (auto simp: list_rep_def)
  have "dseg ?s h (xs @ zs) h"
  proof (cases xs rule: rev_cases)
    case (snoc ys y)
    then have "dseg s h ys y" "h \<noteq> y" "h \<notin> set ys" "y \<notin> set ys" using h by (auto simp: list_rep_def dseg_append)
    moreover have "last zs \<noteq> h" "last zs \<notin> set ys" "hd zs \<noteq> y" "hd zs \<notin> set ys" using z d snoc by auto
    ultimately have "dseg ?s h ys y" using snoc by simp
    then show ?thesis using seg snoc by (simp add: dseg_append)
  qed (use seg in simp)
  moreover have "distinct (h # xs @ zs)" "l \<notin> set (h # xs @ zs)" using h l d by (auto simp: list_rep_def)
  ultimately have "list_rep (list_init l ?s) h (xs @ zs)" by (intro list_rep_init_other) (auto simp: list_rep_def)
  moreover have "list_splice_tail_init l h s = list_init l ?s"
    using l False unfolding list_splice_tail_init_def list_rep_empty [OF l] list_splice_between_def e by (simp add: Let_def)
  ultimately show ?thesis by simp
qed

text \<open>Lists of other heads are left alone.\<close>

lemma list_rep_add_other:
  assumes "list_rep s h xs" "n \<notin> set (h # xs)" "k \<notin> set (h # xs)" "ln_next (s k) \<notin> set (h # xs)"
  shows "list_rep (list_add n k s) h xs"
  using assms by (simp add: list_rep_def list_add_def list_add_between_def)


definition demo_links :: list_store where
  "demo_links = list_add_tail 4 3 (list_init 3 (list_add_tail 2 0 (list_add_tail 1 0 (list_init 0
     (\<lambda>_. \<lparr>ln_next = 9, ln_prev = 9\<rparr>)))))"


end
