(* ===== verification/Event_Loop.thy ===== *)
theory Event_Loop imports Hv_Heap Hv_List begin

section \<open>The event loop: events, timers, idles, pending events (event/hevent.h, event/hloop.c)\<close>

text \<open>
  One loop and the events allocated on it.  Events live in a store indexed by addresses; an address that
  maps to \<open>None\<close> is not allocated, or has been freed, and every read or write through it is a failure
  (\<open>None\<close>), so that a theorem that an operation returns \<open>Some\<close> includes that it uses no freed event.
  Timers carry the heap node, idles the list node, at the address of the event itself (the code's
  \<open>container_of\<close>).  \<open>malloc\<close> is the address handed to the constructors, clock readings are arguments,
  callbacks are labels whose behaviour is a parameter of \<open>hloop_process_pendings\<close>.
\<close>

datatype hloop_status = HLOOP_STATUS_STOP | HLOOP_STATUS_RUNNING | HLOOP_STATUS_PAUSE | HLOOP_STATUS_DESTROY

datatype hevent_type =
    HEVENT_TYPE_NONE | HEVENT_TYPE_IO | HEVENT_TYPE_TIMEOUT | HEVENT_TYPE_PERIOD
  | HEVENT_TYPE_IDLE | HEVENT_TYPE_SIGNAL | HEVENT_TYPE_CUSTOM nat

definition HEVENT_LOWEST_PRIORITY :: int where
  "HEVENT_LOWEST_PRIORITY = -5"

definition HEVENT_HIGH_PRIORITY :: int where
  "HEVENT_HIGH_PRIORITY = 3"

definition HEVENT_HIGHEST_PRIORITY :: int where
  "HEVENT_HIGHEST_PRIORITY = 5"

definition HEVENT_PRIORITY_SIZE :: nat where
  "HEVENT_PRIORITY_SIZE = 11"

definition HEVENT_PRIORITY_INDEX :: "int \<Rightarrow> int" where
  "HEVENT_PRIORITY_INDEX p = p - HEVENT_LOWEST_PRIORITY"

definition INFINITE :: u32 where
  "INFINITE = - 1"

record hperiod =
  minute :: int
  hour :: int
  day :: int
  week :: int
  month :: int

text \<open>\<open>HEVENT_FIELDS\<close> with the fields of the structures that extend it (\<open>hidle_t\<close>, \<open>htimeout_t\<close>,
  \<open>hperiod_t\<close>, and the \<open>events\<close> mask of \<open>hio_t\<close>).\<close>

record hevent =
  ev_loop :: ptr
  event_type :: hevent_type
  event_id :: u64
  cb :: "nat option"
  pending_next :: ptr
  priority :: int
  destroy :: bool
  active :: bool
  pending :: bool
  repeat :: u32
  next_timeout :: u64
  timeout :: u32
  period :: hperiod
  io_events :: u32

definition zero_event :: hevent where
  "zero_event = \<lparr>ev_loop = None, event_type = HEVENT_TYPE_NONE, event_id = 0, cb = None, pending_next = None,
     priority = 0, destroy = False, active = False, pending = False, repeat = 0, next_timeout = 0, timeout = 0,
     period = \<lparr>minute = 0, hour = 0, day = 0, week = 0, month = 0\<rparr>, io_events = 0\<rparr>"

type_synonym event_store = "addr \<Rightarrow> hevent option"

text \<open>
  \<open>self\<close> is the address of the loop, and of the head of its list of idles.  \<open>next_event_id\<close> is the static
  counter of \<open>hloop_next_event_id\<close>.  \<open>calls\<close> records the callbacks that were run, newest first.
\<close>

record hloop =
  self :: addr
  flags :: u32
  status :: hloop_status
  start_ms :: u64
  start_hrtime :: u64
  end_hrtime :: u64
  cur_hrtime :: u64
  loop_cnt :: u64
  intern_nevents :: u32
  nactives :: u32
  npendings :: u32
  pendings :: "ptr list"
  links :: list_store
  nidles :: u32
  timers :: "event_store heap"
  realtimers :: "event_store heap"
  nodes :: node_store
  ntimers :: u32
  nios :: u32
  events :: event_store
  next_event_id :: u64
  calls :: "addr list"

text \<open>The readings of the clocks: \<open>gethrtime_us\<close>, \<open>gettimeofday_ms\<close> and \<open>time\<close>.\<close>

record clock =
  hrtime_us :: u64
  timeofday_ms :: u64
  time_s :: u64

definition timers_compare :: "event_store \<Rightarrow> addr \<Rightarrow> addr \<Rightarrow> bool" where
  "timers_compare m lhs rhs \<longleftrightarrow> next_timeout (the (m lhs)) < next_timeout (the (m rhs))"

subsection \<open>The bookkeeping macros\<close>

definition ev_update :: "addr \<Rightarrow> (hevent \<Rightarrow> hevent) \<Rightarrow> hloop \<Rightarrow> hloop" where
  "ev_update a f l = l\<lparr>events := (events l)(a := map_option f (events l a))\<rparr>"

definition EVENT_ACTIVE :: "addr \<Rightarrow> hloop \<Rightarrow> hloop option" where
  "EVENT_ACTIVE a l = do {
     e \<leftarrow> events l a;
     Some (if active e then l
           else (ev_update a (active_update (\<lambda>_. True)) l)\<lparr>nactives := nactives l + 1\<rparr>) }"

definition EVENT_INACTIVE :: "addr \<Rightarrow> hloop \<Rightarrow> hloop option" where
  "EVENT_INACTIVE a l = do {
     e \<leftarrow> events l a;
     Some (if active e
           then (ev_update a (active_update (\<lambda>_. False)) l)\<lparr>nactives := nactives l - 1\<rparr>
           else l) }"

definition EVENT_PENDING :: "addr \<Rightarrow> hloop \<Rightarrow> hloop option" where
  "EVENT_PENDING a l = do {
     e \<leftarrow> events l a;
     if pending e then Some l
     else (let i = HEVENT_PRIORITY_INDEX (priority e)
           in if 0 \<le> i \<and> nat i < length (pendings l)
              then Some ((ev_update a (\<lambda>e. e\<lparr>pending := True, pending_next := pendings l ! nat i\<rparr>) l)
                     \<lparr>npendings := npendings l + 1, pendings := (pendings l)[nat i := Some a]\<rparr>)
              else None) }"

definition EVENT_ADD :: "addr \<Rightarrow> nat option \<Rightarrow> hloop \<Rightarrow> hloop option" where
  "EVENT_ADD a c l = do {
     e \<leftarrow> events l a;
     let l = l\<lparr>next_event_id := next_event_id l + 1\<rparr>;
     let l = ev_update a (\<lambda>e. e\<lparr>ev_loop := Some (self l), event_id := next_event_id l, cb := c\<rparr>) l;
     EVENT_ACTIVE a l }"

definition EVENT_DEL :: "addr \<Rightarrow> hloop \<Rightarrow> hloop option" where
  "EVENT_DEL a l = do {
     l \<leftarrow> EVENT_INACTIVE a l;
     e \<leftarrow> events l a;
     Some (if pending e then l else l\<lparr>events := (events l)(a := None)\<rparr>) }"

definition EVENT_RESET :: "addr \<Rightarrow> hloop \<Rightarrow> hloop option" where
  "EVENT_RESET a l = do {
     e \<leftarrow> events l a;
     l \<leftarrow> EVENT_ACTIVE a (ev_update a (destroy_update (\<lambda>_. False)) l);
     Some (ev_update a (pending_update (\<lambda>_. False)) l) }"

definition EVENT_UNPENDING :: "addr \<Rightarrow> hloop \<Rightarrow> hloop option" where
  "EVENT_UNPENDING a l = do {
     e \<leftarrow> events l a;
     Some (if pending e
           then (ev_update a (pending_update (\<lambda>_. False)) l)\<lparr>npendings := npendings l - 1\<rparr>
           else l) }"

subsection \<open>Time\<close>

definition hloop_now :: "hloop \<Rightarrow> u64" where
  "hloop_now l = start_ms l div 1000 + (cur_hrtime l - start_hrtime l) div 1000000"

definition hloop_now_ms :: "hloop \<Rightarrow> u64" where
  "hloop_now_ms l = start_ms l + (cur_hrtime l - start_hrtime l) div 1000"

definition hloop_now_us :: "hloop \<Rightarrow> u64" where
  "hloop_now_us l = start_ms l * 1000 + (cur_hrtime l - start_hrtime l)"

definition hloop_update_time :: "clock \<Rightarrow> hloop \<Rightarrow> hloop" where
  "hloop_update_time c l =
     (let l = l\<lparr>cur_hrtime := hrtime_us c\<rparr>
      in if hloop_now l \<noteq> time_s c
         then l\<lparr>start_ms := timeofday_ms c - (cur_hrtime l - start_hrtime l) div 1000\<rparr>
         else l)"

subsection \<open>Timers\<close>

text \<open>An operation of the heap library on the timers (\<open>real\<close> false) or the realtime timers of the loop.\<close>

definition heap_of :: "bool \<Rightarrow> hloop \<Rightarrow> event_store heap" where
  "heap_of real l = (if real then realtimers l else timers l)"

definition on_heap ::
  "bool \<Rightarrow> (event_store heap \<Rightarrow> node_store \<Rightarrow> (event_store heap \<times> node_store) option) \<Rightarrow> hloop \<Rightarrow> hloop option" where
  "on_heap real f l =
     map_option (\<lambda>(h, ns). if real then l\<lparr>realtimers := h, nodes := ns\<rparr> else l\<lparr>timers := h, nodes := ns\<rparr>)
       (f (heap_of real l) (nodes l))"

text \<open>\<open>hv_zalloc\<close> of an event at the address \<open>a\<close>.\<close>

definition alloc_event :: "addr \<Rightarrow> hevent \<Rightarrow> hloop \<Rightarrow> hloop" where
  "alloc_event a e l = l\<lparr>events := (events l)(a := Some e), nodes := (nodes l)(a := null_node)\<rparr>"

definition timeout_at :: "u64 \<Rightarrow> u32 \<Rightarrow> u64" where
  "timeout_at now timeout_ms =
     (let t = now + ucast timeout_ms * 1000
      in if 1000 \<le> timeout_ms \<and> timeout_ms mod 100 = 0 then t div 100000 * 100000 else t)"

definition htimer_add :: "addr \<Rightarrow> clock \<Rightarrow> nat option \<Rightarrow> u32 \<Rightarrow> u32 \<Rightarrow> hloop \<Rightarrow> (ptr \<times> hloop) option" where
  "htimer_add a clk c timeout_ms rep l =
     (if timeout_ms = 0 then Some (None, l)
      else do {
        let l = alloc_event a (zero_event\<lparr>event_type := HEVENT_TYPE_TIMEOUT, priority := HEVENT_HIGHEST_PRIORITY,
                  repeat := rep, timeout := timeout_ms\<rparr>) l;
        let l = hloop_update_time clk l;
        let l = ev_update a (next_timeout_update (\<lambda>_. timeout_at (cur_hrtime l) timeout_ms)) l;
        l \<leftarrow> on_heap False (\<lambda>h ns. heap_insert (events l) h ns a) l;
        l \<leftarrow> EVENT_ADD a c l;
        Some (Some a, l\<lparr>ntimers := ntimers l + 1\<rparr>) })"

definition htimer_reset :: "addr \<Rightarrow> u32 \<Rightarrow> hloop \<Rightarrow> hloop option" where
  "htimer_reset a timeout_ms l = do {
     e \<leftarrow> events l a;
     if event_type e \<noteq> HEVENT_TYPE_TIMEOUT then Some l
     else do {
       l \<leftarrow> (if destroy e then Some (l\<lparr>ntimers := ntimers l + 1\<rparr>) else on_heap False (\<lambda>h ns. heap_remove (events l) h ns a) l);
       let l = ev_update a (\<lambda>e. if repeat e = 0 then e\<lparr>repeat := 1\<rparr> else e) l;
       let l = ev_update a (\<lambda>e. if 0 < timeout_ms then e\<lparr>timeout := timeout_ms\<rparr> else e) l;
       let l = ev_update a (\<lambda>e. e\<lparr>next_timeout := timeout_at (cur_hrtime l) (timeout e)\<rparr>) l;
       l \<leftarrow> on_heap False (\<lambda>h ns. heap_insert (events l) h ns a) l;
       EVENT_RESET a l } }"

definition htimer_add_period ::
  "addr \<Rightarrow> (hperiod \<Rightarrow> u64) \<Rightarrow> nat option \<Rightarrow> hperiod \<Rightarrow> u32 \<Rightarrow> hloop \<Rightarrow> (ptr \<times> hloop) option" where
  "htimer_add_period a cron c p rep l =
     (if minute p > 59 \<or> hour p > 23 \<or> day p > 31 \<or> week p > 6 \<or> month p > 12 then Some (None, l)
      else do {
        let l = alloc_event a (zero_event\<lparr>event_type := HEVENT_TYPE_PERIOD, priority := HEVENT_HIGH_PRIORITY,
                  repeat := rep, period := p, next_timeout := cron p * 1000000\<rparr>) l;
        l \<leftarrow> on_heap True (\<lambda>h ns. heap_insert (events l) h ns a) l;
        l \<leftarrow> EVENT_ADD a c l;
        Some (Some a, l\<lparr>ntimers := ntimers l + 1\<rparr>) })"

definition htimer_del_node :: "addr \<Rightarrow> hloop \<Rightarrow> hloop option" where
  "htimer_del_node a l = do {
     e \<leftarrow> events l a;
     if destroy e then Some l
     else do {
       l \<leftarrow> (if event_type e = HEVENT_TYPE_TIMEOUT then on_heap False (\<lambda>h ns. heap_remove (events l) h ns a) l
             else if event_type e = HEVENT_TYPE_PERIOD then on_heap True (\<lambda>h ns. heap_remove (events l) h ns a) l
             else Some l);
       Some ((ev_update a (destroy_update (\<lambda>_. True)) l)\<lparr>ntimers := ntimers l - 1\<rparr>) } }"

definition htimer_del :: "addr \<Rightarrow> hloop \<Rightarrow> hloop option" where
  "htimer_del a l = do {
     e \<leftarrow> events l a;
     if \<not> active e then Some l
     else do { l \<leftarrow> htimer_del_node a l; EVENT_DEL a l } }"

subsection \<open>Idles\<close>

definition hidle_add :: "addr \<Rightarrow> nat option \<Rightarrow> u32 \<Rightarrow> hloop \<Rightarrow> (ptr \<times> hloop) option" where
  "hidle_add a c rep l = do {
     let l = alloc_event a (zero_event\<lparr>event_type := HEVENT_TYPE_IDLE, priority := HEVENT_LOWEST_PRIORITY,
               repeat := rep\<rparr>) l;
     let l = l\<lparr>links := list_add a (self l) (links l)\<rparr>;
     l \<leftarrow> EVENT_ADD a c l;
     Some (Some a, l\<lparr>nidles := nidles l + 1\<rparr>) }"

definition hidle_del_node :: "addr \<Rightarrow> hloop \<Rightarrow> hloop option" where
  "hidle_del_node a l = do {
     e \<leftarrow> events l a;
     Some (if destroy e then l
           else (ev_update a (destroy_update (\<lambda>_. True)) l)
                  \<lparr>links := list_del a (links l), nidles := nidles l - 1\<rparr>) }"

definition hidle_del :: "addr \<Rightarrow> hloop \<Rightarrow> hloop option" where
  "hidle_del a l = do {
     e \<leftarrow> events l a;
     if \<not> active e then Some l
     else do { l \<leftarrow> hidle_del_node a l; EVENT_DEL a l } }"

subsection \<open>Making events pending\<close>

text \<open>The body of the loop of \<open>hloop_process_idles\<close>, and the loop, from the link \<open>node\<close> on.\<close>

definition process_idle :: "addr \<Rightarrow> hloop \<Rightarrow> hloop option" where
  "process_idle a l = do {
     e \<leftarrow> events l a;
     let l = ev_update a (\<lambda>e. if repeat e \<noteq> INFINITE then e\<lparr>repeat := repeat e - 1\<rparr> else e) l;
     e \<leftarrow> events l a;
     l \<leftarrow> (if repeat e = 0 then hidle_del_node a l else Some l);
     EVENT_PENDING a l }"

partial_function (option) process_idles_from :: "addr \<Rightarrow> hloop \<Rightarrow> nat \<Rightarrow> (nat \<times> hloop) option" where
  "process_idles_from node l n =
     (if node = self l then Some (n, l)
      else do {
        let nxt = ln_next (links l node);
        l \<leftarrow> process_idle node l;
        process_idles_from nxt l (n + 1) })"

declare process_idles_from.simps [code]

definition hloop_process_idles :: "hloop \<Rightarrow> (nat \<times> hloop) option" where
  "hloop_process_idles l = process_idles_from (ln_next (links l (self l))) l 0"

text \<open>\<open>while (timer->next_timeout <= timeout) timer->next_timeout += timeout_us\<close>\<close>

partial_function (option) catch_up :: "u64 \<Rightarrow> u64 \<Rightarrow> u64 \<Rightarrow> u64 option" where
  "catch_up now step t = (if t \<le> now then catch_up now step (t + step) else Some t)"

declare catch_up.simps [code]

text \<open>The body of the loop of \<open>__hloop_process_timers\<close> for the timer \<open>a\<close> at the root of one of the two
  heaps, \<open>real\<close> saying which.\<close>

definition process_timer :: "bool \<Rightarrow> (hperiod \<Rightarrow> u64) \<Rightarrow> u64 \<Rightarrow> addr \<Rightarrow> hloop \<Rightarrow> hloop option" where
  "process_timer real cron now a l = do {
     let l = ev_update a (\<lambda>e. if repeat e \<noteq> INFINITE then e\<lparr>repeat := repeat e - 1\<rparr> else e) l;
     e \<leftarrow> events l a;
     l \<leftarrow> (if repeat e = 0 then htimer_del_node a l
           else do {
             l \<leftarrow> on_heap real (\<lambda>h ns. heap_dequeue (events l) h ns) l;
             t \<leftarrow> (if event_type e = HEVENT_TYPE_TIMEOUT
                   then catch_up now (ucast (timeout e) * 1000) (next_timeout e)
                   else if event_type e = HEVENT_TYPE_PERIOD then Some (cron (period e) * 1000000)
                   else Some (next_timeout e));
             let l = ev_update a (next_timeout_update (\<lambda>_. t)) l;
             on_heap real (\<lambda>h ns. heap_insert (events l) h ns a) l });
     EVENT_PENDING a l }"

partial_function (option) process_timers_heap ::
  "bool \<Rightarrow> (hperiod \<Rightarrow> u64) \<Rightarrow> u64 \<Rightarrow> hloop \<Rightarrow> nat \<Rightarrow> (nat \<times> hloop) option" where
  "process_timers_heap real cron now l n =
     (case root (heap_of real l) of
        None \<Rightarrow> Some (n, l)
      | Some a \<Rightarrow>
          do {
            e \<leftarrow> events l a;
            if now < next_timeout e then Some (n, l)
            else do {
              l \<leftarrow> process_timer real cron now a l;
              process_timers_heap real cron now l (n + 1) } })"

declare process_timers_heap.simps [code]

definition hloop_process_timers :: "(hperiod \<Rightarrow> u64) \<Rightarrow> hloop \<Rightarrow> (nat \<times> hloop) option" where
  "hloop_process_timers cron l = do {
     let now = hloop_now_us l;
     (n, l) \<leftarrow> process_timers_heap False cron (cur_hrtime l) l 0;
     (m, l) \<leftarrow> process_timers_heap True cron now l 0;
     Some (n + m, l) }"


subsection \<open>Running the pending events\<close>

text \<open>The calls to the loop that a callback makes: a callback is any function from the state it finds to
  the calls it makes in order.\<close>

datatype api =
    Timer_add addr clock "nat option" u32 u32
  | Timer_add_period addr "nat option" hperiod u32
  | Timer_reset addr u32
  | Timer_del addr
  | Idle_add addr "nat option" u32
  | Idle_del addr
  | Set_status hloop_status

fun run_api :: "(hperiod \<Rightarrow> u64) \<Rightarrow> api \<Rightarrow> hloop \<Rightarrow> hloop option" where
  "run_api cron (Timer_add a clk c t r) l = map_option snd (htimer_add a clk c t r l)"
| "run_api cron (Timer_add_period a c p r) l = map_option snd (htimer_add_period a cron c p r l)"
| "run_api cron (Timer_reset a t) l = htimer_reset a t l"
| "run_api cron (Timer_del a) l = htimer_del a l"
| "run_api cron (Idle_add a c r) l = map_option snd (hidle_add a c r l)"
| "run_api cron (Idle_del a) l = hidle_del a l"
| "run_api cron (Set_status s) l = Some (l\<lparr>status := s\<rparr>)"

primrec run_apis :: "(hperiod \<Rightarrow> u64) \<Rightarrow> api list \<Rightarrow> hloop \<Rightarrow> hloop option" where
  "run_apis cron [] l = Some l"
| "run_apis cron (c # cs) l = do { l \<leftarrow> run_api cron c l; run_apis cron cs l }"

type_synonym callbacks = "nat \<Rightarrow> addr \<Rightarrow> hloop \<Rightarrow> api list"

text \<open>The body of the inner loop of \<open>hloop_process_pendings\<close> for the event \<open>cur\<close>.\<close>

definition process_pending :: "(hperiod \<Rightarrow> u64) \<Rightarrow> callbacks \<Rightarrow> addr \<Rightarrow> hloop \<Rightarrow> (nat \<times> hloop) option" where
  "process_pending cron cbs cur l = do {
     e \<leftarrow> events l cur;
     if pending e \<and> ev_loop e = Some (self l) then do {
       (n, l) \<leftarrow> (case cb e of
                    Some c \<Rightarrow>
                      if active e
                      then map_option (Pair 1) (run_apis cron (cbs c cur l) (l\<lparr>calls := cur # calls l\<rparr>))
                      else Some (0, l)
                  | None \<Rightarrow> Some (0, l));
       e \<leftarrow> events l cur;
       let l = ev_update cur (pending_update (\<lambda>_. False)) l;
       l \<leftarrow> (if destroy e then EVENT_DEL cur l else Some l);
       Some (n, l) }
     else Some (0, l) }"

partial_function (option) process_chain ::
  "(hperiod \<Rightarrow> u64) \<Rightarrow> callbacks \<Rightarrow> ptr \<Rightarrow> hloop \<Rightarrow> nat \<Rightarrow> (nat \<times> hloop) option" where
  "process_chain cron cbs cur l n =
     (case cur of
        None \<Rightarrow> Some (n, l)
      | Some a \<Rightarrow>
          do {
            e \<leftarrow> events l a;
            let nxt = pending_next e;
            (k, l) \<leftarrow> process_pending cron cbs a l;
            process_chain cron cbs nxt l (n + k) })"

declare process_chain.simps [code]

primrec process_priorities ::
  "(hperiod \<Rightarrow> u64) \<Rightarrow> callbacks \<Rightarrow> nat \<Rightarrow> hloop \<Rightarrow> nat \<Rightarrow> (nat \<times> hloop) option" where
  "process_priorities cron cbs 0 l n = Some (n, l)"
| "process_priorities cron cbs (Suc i) l n = do {
     (n, l) \<leftarrow> process_chain cron cbs (pendings l ! i) l n;
     process_priorities cron cbs i (l\<lparr>pendings := (pendings l)[i := None]\<rparr>) n }"

definition hloop_process_pendings :: "(hperiod \<Rightarrow> u64) \<Rightarrow> callbacks \<Rightarrow> hloop \<Rightarrow> (nat \<times> hloop) option" where
  "hloop_process_pendings cron cbs l =
     (if npendings l = 0 then Some (0, l)
      else do {
        (n, l) \<leftarrow> process_priorities cron cbs HEVENT_PRIORITY_SIZE l 0;
        Some (n, l\<lparr>npendings := 0\<rparr>) })"

subsection \<open>One turn of the loop\<close>

text \<open>
  What a turn takes from outside: the readings of the clock at the two calls of \<open>hloop_update_time\<close>, the
  events that \<open>iowatcher_poll_events\<close> makes pending, the next cron times, and the status another thread may
  have set while the loop was blocked.
\<close>

record turn =
  clock1 :: clock
  clock2 :: clock
  ready :: "addr list"
  cron_next :: "hperiod \<Rightarrow> u64"
  wakeup_status :: "hloop_status option"

definition woken :: "turn \<Rightarrow> hloop \<Rightarrow> hloop" where
  "woken t l = (case wakeup_status t of None \<Rightarrow> l | Some s \<Rightarrow> l\<lparr>status := s\<rparr>)"

primrec pend_all :: "addr list \<Rightarrow> hloop \<Rightarrow> hloop option" where
  "pend_all [] l = Some l"
| "pend_all (a # as) l = do { l \<leftarrow> EVENT_PENDING a l; pend_all as l }"

text \<open>The time, in microseconds, until the first timer expires, at most the given one.\<close>

definition block_us :: "hloop \<Rightarrow> int \<Rightarrow> int option" where
  "block_us l us = do {
     us \<leftarrow> (case root (timers l) of
               None \<Rightarrow> Some us
             | Some a \<Rightarrow> do { e \<leftarrow> events l a; Some (min us (sint (next_timeout e - cur_hrtime l))) });
     (case root (realtimers l) of
        None \<Rightarrow> Some us
      | Some a \<Rightarrow> do { e \<leftarrow> events l a; Some (min us (sint (next_timeout e - hloop_now_us l))) }) }"

text \<open>The product of two \<open>int\<close>s: overflow is undefined behaviour.\<close>

definition mul_i32 :: "int \<Rightarrow> int \<Rightarrow> int option" where
  "mul_i32 x y = (if - (2 ^ 31) \<le> x * y \<and> x * y < 2 ^ 31 then Some (x * y) else None)"

text \<open>The part of \<open>hloop_process_events\<close> from the label \<open>process_timers\<close> on.\<close>

definition process_ready :: "turn \<Rightarrow> callbacks \<Rightarrow> hloop \<Rightarrow> (nat \<times> hloop) option" where
  "process_ready t cbs l = do {
     l \<leftarrow> (if ntimers l \<noteq> 0 then map_option snd (hloop_process_timers (cron_next t) l) else Some l);
     l \<leftarrow> (if npendings l = 0 \<and> nidles l \<noteq> 0 then map_option snd (hloop_process_idles l) else Some l);
     hloop_process_pendings (cron_next t) cbs l }"

definition hloop_process_events :: "turn \<Rightarrow> callbacks \<Rightarrow> int \<Rightarrow> hloop \<Rightarrow> (nat \<times> hloop) option" where
  "hloop_process_events t cbs timeout_ms l = do {
     let l = (if ntimers l \<noteq> 0 then hloop_update_time (clock1 t) l else l);
     us \<leftarrow> (if ntimers l \<noteq> 0 then do { us \<leftarrow> mul_i32 timeout_ms 1000; block_us l us } else Some 0);
     if us < 0 then process_ready t cbs l
     else do {
       l \<leftarrow> (if nios l \<noteq> 0 then pend_all (ready t) l else Some l);
       let l = hloop_update_time (clock2 t) l;
       let l = woken t l;
       if status l = HLOOP_STATUS_STOP then Some (0, l) else process_ready t cbs l } }"

subsection \<open>The life of the loop\<close>

definition hloop_init :: "clock \<Rightarrow> addr \<Rightarrow> hloop" where
  "hloop_init c a = \<lparr>self = a, flags = 0, status = HLOOP_STATUS_STOP, start_ms = timeofday_ms c,
     start_hrtime = hrtime_us c, end_hrtime = 0, cur_hrtime = hrtime_us c, loop_cnt = 0, intern_nevents = 0,
     nactives = 0, npendings = 0, pendings = replicate HEVENT_PRIORITY_SIZE None,
     links = list_init a (\<lambda>_. \<lparr>ln_next = 0, ln_prev = 0\<rparr>), nidles = 0, timers = heap_init (Some timers_compare),
     realtimers = heap_init (Some timers_compare), nodes = (\<lambda>_. null_node), ntimers = 0, nios = 0,
     events = (\<lambda>_. None), next_event_id = 0, calls = []\<rparr>"

definition hloop_new :: "clock \<Rightarrow> addr \<Rightarrow> u32 \<Rightarrow> hloop" where
  "hloop_new c a fs = (hloop_init c a)\<lparr>flags := fs\<rparr>"

definition HLOOP_FLAG_RUN_ONCE :: u32 where "HLOOP_FLAG_RUN_ONCE = 1"

definition HLOOP_FLAG_QUIT_WHEN_NO_ACTIVE_EVENTS :: u32 where "HLOOP_FLAG_QUIT_WHEN_NO_ACTIVE_EVENTS = 4"

definition HLOOP_MAX_BLOCK_TIME :: int where "HLOOP_MAX_BLOCK_TIME = 100"

text \<open>The loop of \<open>hloop_run\<close>, over the turns that the outside world offers; the flag in the result says
  whether the loop was left.\<close>

primrec run_turns :: "turn list \<Rightarrow> callbacks \<Rightarrow> hloop \<Rightarrow> (bool \<times> hloop) option" where
  "run_turns [] cbs l = Some (status l = HLOOP_STATUS_STOP, l)"
| "run_turns (t # ts) cbs l =
     (if status l = HLOOP_STATUS_STOP then Some (True, l)
      else if status l = HLOOP_STATUS_PAUSE then run_turns ts cbs (woken t (hloop_update_time (clock1 t) l))
      else do {
        let l = l\<lparr>loop_cnt := loop_cnt l + 1\<rparr>;
        if and (flags l) HLOOP_FLAG_QUIT_WHEN_NO_ACTIVE_EVENTS \<noteq> 0 \<and> nactives l \<le> intern_nevents l then Some (True, l)
        else do {
          (n, l) \<leftarrow> hloop_process_events t cbs HLOOP_MAX_BLOCK_TIME l;
          if and (flags l) HLOOP_FLAG_RUN_ONCE \<noteq> 0 then Some (True, l) else run_turns ts cbs l } })"

definition hloop_run :: "u64 \<Rightarrow> turn list \<Rightarrow> callbacks \<Rightarrow> hloop \<Rightarrow> (int \<times> hloop) option" where
  "hloop_run end_us ts cbs l =
     (if status l = HLOOP_STATUS_RUNNING then Some (- 2, l)
      else do {
        (left, l) \<leftarrow> run_turns ts cbs (l\<lparr>status := HLOOP_STATUS_RUNNING\<rparr>);
        Some (0, if left then l\<lparr>status := HLOOP_STATUS_STOP, end_hrtime := end_us\<rparr> else l) })"

subsection \<open>The invariant of the loop\<close>

text \<open>The events of one type that are linked in their heap or list, and the active events.\<close>

definition live :: "event_store \<Rightarrow> hevent_type \<Rightarrow> addr set" where
  "live m ty = {a. \<exists>e. m a = Some e \<and> event_type e = ty \<and> \<not> destroy e}"

definition actives :: "event_store \<Rightarrow> addr set" where
  "actives m = {a. \<exists>e. m a = Some e \<and> active e}"

definition heap_ok :: "event_store \<Rightarrow> event_store heap \<Rightarrow> node_store \<Rightarrow> addr set \<Rightarrow> bool" where
  "heap_ok m h ns S \<longleftrightarrow> compare h = Some timers_compare \<and> heap_rep m h ns S"

definition ttype :: "bool \<Rightarrow> hevent_type" where
  "ttype real = (if real then HEVENT_TYPE_PERIOD else HEVENT_TYPE_TIMEOUT)"

text \<open>The two heaps hold the timers \<open>Z False\<close> and \<open>Z True\<close>.\<close>

definition heaps :: "hloop \<Rightarrow> (bool \<Rightarrow> addr set) \<Rightarrow> bool" where
  "heaps l Z \<longleftrightarrow> (\<forall>r. heap_ok (events l) (heap_of r l) (nodes l) (Z r)) \<and> Z False \<inter> Z True = {}"

definition live_timers :: "event_store \<Rightarrow> bool \<Rightarrow> addr set" where
  "live_timers m r = live m (ttype r)"

definition timers_ok :: "hloop \<Rightarrow> bool" where
  "timers_ok l \<longleftrightarrow> heaps l (live_timers (events l)) \<and>
     ntimers l = of_nat (card (live_timers (events l) False) + card (live_timers (events l) True)) \<and>
     (\<forall>a e r. events l a = Some e \<longrightarrow> destroy e \<longrightarrow> event_type e = ttype r \<longrightarrow> nodes l a = null_node)"

definition idles_ok :: "event_store \<Rightarrow> addr \<Rightarrow> list_store \<Rightarrow> u32 \<Rightarrow> bool" where
  "idles_ok m h lk n \<longleftrightarrow>
     (\<exists>xs. list_rep lk h xs \<and> set xs = live m HEVENT_TYPE_IDLE) \<and> n = of_nat (card (live m HEVENT_TYPE_IDLE))"

definition actives_ok :: "event_store \<Rightarrow> u32 \<Rightarrow> bool" where
  "actives_ok m n \<longleftrightarrow> finite (actives m) \<and> n = of_nat (card (actives m))"

definition event_ok :: "hevent \<Rightarrow> bool" where
  "event_ok e \<longleftrightarrow> HEVENT_LOWEST_PRIORITY \<le> priority e \<and> priority e \<le> HEVENT_HIGHEST_PRIORITY \<and>
     (event_type e = HEVENT_TYPE_TIMEOUT \<longrightarrow> timeout e \<noteq> 0)"

text \<open>
  \<open>self\<close> is not the address of an event, priorities index the table of pending events,
  no timer has the timeout 0, and only an event
  that is pending may be marked as destroyed (so that the run of the pending events frees it).
\<close>

definition events_ok :: "hloop \<Rightarrow> bool" where
  "events_ok l \<longleftrightarrow> events l (self l) = None \<and> length (pendings l) = HEVENT_PRIORITY_SIZE \<and>
     (\<forall>a e. events l a = Some e \<longrightarrow> event_ok e \<and> ev_loop e = Some (self l) \<and> (destroy e \<longrightarrow> pending e))"

definition loop_inv :: "hloop \<Rightarrow> bool" where
  "loop_inv l \<longleftrightarrow>
     timers_ok l \<and>
     idles_ok (events l) (self l) (links l) (nidles l) \<and>
     actives_ok (events l) (nactives l) \<and> events_ok l"

subsubsection \<open>How the sets change\<close>

lemma live_upd [event_simps]:
  "live (m(a \<mapsto> e)) ty = (if event_type e = ty \<and> \<not> destroy e then insert a (live m ty) else live m ty - {a})"
  by (auto simp: live_def)

lemma live_free [event_simps]: "live (m(a := None)) ty = live m ty - {a}"
  by (auto simp: live_def)

lemma actives_upd [event_simps]:
  "actives (m(a \<mapsto> e)) = (if active e then insert a (actives m) else actives m - {a})"
  by (auto simp: actives_def)

lemma actives_free [event_simps]: "actives (m(a := None)) = actives m - {a}"
  by (auto simp: actives_def)

lemma in_live: "a \<in> live m ty \<longleftrightarrow> (\<exists>e. m a = Some e \<and> event_type e = ty \<and> \<not> destroy e)"
  by (simp add: live_def)

lemma in_actives: "a \<in> actives m \<longleftrightarrow> (\<exists>e. m a = Some e \<and> active e)"
  by (simp add: actives_def)

lemma fresh_not_live: "m a = None \<Longrightarrow> a \<notin> live m ty" "m a = None \<Longrightarrow> a \<notin> actives m"
  by (simp_all add: live_def actives_def)

lemma ev_update_simps [simp]:
  "events (ev_update a f l) = (events l)(a := map_option f (events l a))"
  "self (ev_update a f l) = self l" "pendings (ev_update a f l) = pendings l"
  "npendings (ev_update a f l) = npendings l" "nactives (ev_update a f l) = nactives l"
  "timers (ev_update a f l) = timers l" "realtimers (ev_update a f l) = realtimers l"
  "nodes (ev_update a f l) = nodes l" "ntimers (ev_update a f l) = ntimers l" "nidles (ev_update a f l) = nidles l"
  "links (ev_update a f l) = links l" "cur_hrtime (ev_update a f l) = cur_hrtime l" "calls (ev_update a f l) = calls l"
  "status (ev_update a f l) = status l" "next_event_id (ev_update a f l) = next_event_id l"
  "start_ms (ev_update a f l) = start_ms l" "start_hrtime (ev_update a f l) = start_hrtime l" "nios (ev_update a f l) = nios l"
  by (simp_all add: ev_update_def)

subsubsection \<open>The heaps of timers\<close>

interpretation timer_order: heap_order "timers_compare m" for m
  by unfold_locales (auto simp: timers_compare_def)

lemma heap_rep_same:
  assumes rep: "heap_rep m h ns S" and cmp: "compare h = Some timers_compare"
    and m: "\<And>a. a \<in> S \<Longrightarrow> next_timeout (the (m' a)) = next_timeout (the (m a))" and ns: "\<And>a. a \<in> S \<Longrightarrow> ns' a = ns a"
  shows "heap_rep m' h ns' S"
proof -
  from rep cmp obtain f where L: "heap_layout h ns f" and o: "heap_ordered (timers_compare m) f (nelts h)"
    and S: "S = f ` {0<..nelts h}" by (auto simp: heap_rep_def)
  have "heap_layout h ns' f" using L ns by (simp add: heap_layout_def laid_out_def S)
  moreover have "timers_compare m' (f i) (f j) = timers_compare m (f i) (f j)"
    if "0 < i" "i \<le> nelts h" "0 < j" "j \<le> nelts h" for i j
    using m that by (simp add: timers_compare_def S)
  then have "heap_ordered (timers_compare m') f (nelts h)" using o by (simp add: heap_ordered_def)
  ultimately show ?thesis using heap_repI [OF cmp, of ns' f m' S] S by simp
qed

lemma heap_ok_same:
  assumes "heap_ok m h ns S" "\<And>a. a \<in> S \<Longrightarrow> next_timeout (the (m' a)) = next_timeout (the (m a))"
    "\<And>a. a \<in> S \<Longrightarrow> ns' a = ns a"
  shows "heap_ok m' h ns' S"
  using assms heap_rep_same [of m h ns S m' ns'] by (auto simp: heap_ok_def)

lemma heap_ok_root:
  assumes "heap_ok m h ns S"
  shows "finite S" "root h = None \<longleftrightarrow> S = {}"
    "root h = Some a \<Longrightarrow> a \<in> S \<and> (\<forall>b\<in>S. next_timeout (the (m a)) \<le> next_timeout (the (m b)))"
  using assms timer_order.heap_rep_root [of m h ns S timers_compare] unfolding heap_ok_def
  by (auto simp: timers_compare_def not_less)

lemma heap_ok_insert:
  assumes "heap_ok m h ns S" "a \<notin> S" "ns a = null_node"
  obtains h' ns' where "heap_insert m h ns a = Some (h', ns')" "heap_ok m h' ns' (insert a S)"
    "\<And>b. b \<notin> insert a S \<Longrightarrow> ns' b = ns b"
proof -
  have "\<exists>h' ns'. heap_insert m h ns a = Some (h', ns') \<and> heap_rep m h' ns' (insert a S) \<and>
    nelts h' = Suc (nelts h) \<and> compare h' = compare h \<and> (\<forall>b. b \<notin> insert a S \<longrightarrow> ns' b = ns b)"
    using assms by (intro timer_order.heap_insert_rep [OF _ _ refl]) (auto simp: heap_ok_def null_node_def)
  then show thesis using assms that by (auto simp: heap_ok_def)
qed

lemma heap_ok_remove:
  assumes "heap_ok m h ns S" "a \<in> S"
  obtains h' ns' where "heap_remove m h ns a = Some (h', ns')" "heap_ok m h' ns' (S - {a})" "ns' a = null_node"
    "\<And>b. b \<notin> S \<Longrightarrow> ns' b = ns b"
proof -
  have "\<exists>h' ns'. heap_remove m h ns a = Some (h', ns') \<and> heap_rep m h' ns' (S - {a}) \<and>
    Suc (nelts h') = nelts h \<and> compare h' = compare h \<and> ns' a = null_node \<and> (\<forall>b. b \<notin> S \<longrightarrow> ns' b = ns b)"
    using assms by (intro timer_order.heap_remove_rep [OF _ _ refl]) (auto simp: heap_ok_def)
  then show thesis using assms that by (auto simp: heap_ok_def)
qed

lemma heap_ok_dequeue:
  assumes "heap_ok m h ns S" "root h = Some a"
  shows "heap_dequeue m h ns = heap_remove m h ns a"
proof -
  have "0 < nelts h"
    using assms heap_ok_root [OF assms(1)] timer_order.heap_rep_root(3) [of m h ns S timers_compare]
    by (auto simp: heap_ok_def card_gt_0_iff)
  then show ?thesis using assms(2) by (simp add: heap_dequeue_def)
qed


text \<open>Everything but the heaps is the same.\<close>

definition off_heap :: "hloop \<Rightarrow> hloop \<Rightarrow> bool" where
  "off_heap l l' \<longleftrightarrow> (\<exists>h h' ns. l' = l\<lparr>timers := h, realtimers := h', nodes := ns\<rparr>)"

lemma off_heapD:
  assumes "off_heap l l'"
  shows "self l' = self l" "status l' = status l" "cur_hrtime l' = cur_hrtime l" "nactives l' = nactives l"
    "npendings l' = npendings l" "pendings l' = pendings l" "links l' = links l" "nidles l' = nidles l"
    "ntimers l' = ntimers l" "events l' = events l" "next_event_id l' = next_event_id l" "calls l' = calls l"
    "start_ms l' = start_ms l" "start_hrtime l' = start_hrtime l" "nios l' = nios l"
  using assms by (auto simp: off_heap_def)

lemma ttype_simps [simp]: "ttype False = HEVENT_TYPE_TIMEOUT" "ttype True = HEVENT_TYPE_PERIOD"
  "ttype r = HEVENT_TYPE_TIMEOUT \<longleftrightarrow> \<not> r" "ttype r = HEVENT_TYPE_PERIOD \<longleftrightarrow> r"
  "ttype r \<noteq> HEVENT_TYPE_IDLE" "HEVENT_TYPE_IDLE \<noteq> ttype r" "ttype r = ttype q \<longleftrightarrow> r = q"
  by (auto simp: ttype_def)

lemma heap_of_put [simp]:
  "heap_of r (if r then l\<lparr>realtimers := h, nodes := ns\<rparr> else l\<lparr>timers := h, nodes := ns\<rparr>) = h"
  "heap_of (\<not> r) (if r then l\<lparr>realtimers := h, nodes := ns\<rparr> else l\<lparr>timers := h, nodes := ns\<rparr>) = heap_of (\<not> r) l"
  "heap_of r (ev_update a f l) = heap_of r l"
  by (auto simp: heap_of_def)

lemma off_heap_put [simp]:
  "off_heap l (if r then l\<lparr>realtimers := h, nodes := ns\<rparr> else l\<lparr>timers := h, nodes := ns\<rparr>)"
proof -
  have "off_heap l (l\<lparr>realtimers := h, nodes := ns\<rparr>)"
    unfolding off_heap_def by (intro exI [of _ "timers l"] exI [of _ h] exI [of _ ns]) simp
  moreover have "off_heap l (l\<lparr>timers := h, nodes := ns\<rparr>)"
    unfolding off_heap_def by (intro exI [of _ h] exI [of _ "realtimers l"] exI [of _ ns]) simp
  ultimately show ?thesis by simp
qed

lemma heapsD: "heaps l Z \<Longrightarrow> heap_ok (events l) (heap_of r l) (nodes l) (Z r)" "heaps l Z \<Longrightarrow> Z r \<inter> Z (\<not> r) = {}"
  by (cases r; auto simp: heaps_def)+

lemma heapsI:
  assumes "heap_ok (events l) (heap_of r l) (nodes l) (Z r)" "heap_ok (events l) (heap_of (\<not> r) l) (nodes l) (Z (\<not> r))"
    "Z r \<inter> Z (\<not> r) = {}"
  shows "heaps l Z"
  using assms by (cases r) (auto simp: heaps_def all_bool_eq)

lemma heaps_same:
  assumes "heaps l Z" "\<And>r. heap_of r l' = heap_of r l" "\<And>r a. a \<in> Z r \<Longrightarrow> nodes l' a = nodes l a"
    "\<And>r a. a \<in> Z r \<Longrightarrow> next_timeout (the (events l' a)) = next_timeout (the (events l a))"
  shows "heaps l' Z"
  using assms by (auto simp: heaps_def intro: heap_ok_same)

lemma heaps_insert:
  assumes h: "heaps l Z" and a: "a \<notin> Z r" "a \<notin> Z (\<not> r)" "nodes l a = null_node"
  obtains l' where "on_heap r (\<lambda>h ns. heap_insert (events l) h ns a) l = Some l'" "off_heap l l'"
    "heaps l' (Z(r := insert a (Z r)))" "\<And>b. b \<notin> insert a (Z r) \<Longrightarrow> nodes l' b = nodes l b"
proof -
  obtain h' ns' where i: "heap_insert (events l) (heap_of r l) (nodes l) a = Some (h', ns')"
    and h': "heap_ok (events l) h' ns' (insert a (Z r))" and fr: "\<And>b. b \<notin> insert a (Z r) \<Longrightarrow> ns' b = nodes l b"
    using heap_ok_insert [OF heapsD(1) [OF h] a(1,3)] by blast
  let ?l = "if r then l\<lparr>realtimers := h', nodes := ns'\<rparr> else l\<lparr>timers := h', nodes := ns'\<rparr>"
  have e: "events ?l = events l" "nodes ?l = ns'" by simp_all
  have "ns' b = nodes l b" if "b \<in> Z (\<not> r)" for b using that heapsD(2) [OF h, of r] a(2) by (intro fr) auto
  then have "heap_ok (events l) (heap_of (\<not> r) l) ns' (Z (\<not> r))"
    by (intro heap_ok_same [OF heapsD(1) [OF h]]) auto
  then have "heaps ?l (Z(r := insert a (Z r)))"
    using h' heapsD(2) [OF h, of r] a(2) by (intro heapsI [of _ r]) (simp_all only: e heap_of_put, auto)
  then show thesis using i fr by (intro that [of ?l]) (auto simp: on_heap_def)
qed

lemma heaps_remove:
  assumes h: "heaps l Z" and a: "a \<in> Z r"
  obtains l' where "on_heap r (\<lambda>h ns. heap_remove (events l) h ns a) l = Some l'" "off_heap l l'"
    "heaps l' (Z(r := Z r - {a}))" "nodes l' a = null_node" "\<And>b. b \<notin> Z r \<Longrightarrow> nodes l' b = nodes l b"
proof -
  obtain h' ns' where i: "heap_remove (events l) (heap_of r l) (nodes l) a = Some (h', ns')"
    and h': "heap_ok (events l) h' ns' (Z r - {a})" "ns' a = null_node" and fr: "\<And>b. b \<notin> Z r \<Longrightarrow> ns' b = nodes l b"
    using heap_ok_remove [OF heapsD(1) [OF h] a] by blast
  let ?l = "if r then l\<lparr>realtimers := h', nodes := ns'\<rparr> else l\<lparr>timers := h', nodes := ns'\<rparr>"
  have e: "events ?l = events l" "nodes ?l = ns'" by simp_all
  have "ns' b = nodes l b" if "b \<in> Z (\<not> r)" for b using that heapsD(2) [OF h, of r] by (intro fr) auto
  then have "heap_ok (events l) (heap_of (\<not> r) l) ns' (Z (\<not> r))"
    by (intro heap_ok_same [OF heapsD(1) [OF h]]) auto
  then have "heaps ?l (Z(r := Z r - {a}))"
    using h' heapsD(2) [OF h, of r] by (intro heapsI [of _ r]) (simp_all only: e heap_of_put, auto)
  then show thesis using i fr h' by (intro that [of ?l]) (auto simp: on_heap_def)
qed

lemma heaps_dequeue:
  assumes "heaps l Z" "root (heap_of r l) = Some a"
  shows "on_heap r (\<lambda>h ns. heap_dequeue (events l) h ns) l = on_heap r (\<lambda>h ns. heap_remove (events l) h ns a) l"
  using heap_ok_dequeue [OF heapsD(1) [OF assms(1)] assms(2)] by (simp add: on_heap_def)


lemma live_timers_upd [event_simps]:
  "live_timers (m(a \<mapsto> e)) r =
     (if event_type e = ttype r \<and> \<not> destroy e then insert a (live_timers m r) else live_timers m r - {a})"
  "live_timers (m(a := None)) r = live_timers m r - {a}"
  by (simp_all add: live_timers_def live_upd live_free)

lemma in_live_timers: "a \<in> live_timers m r \<longleftrightarrow> (\<exists>e. m a = Some e \<and> event_type e = ttype r \<and> \<not> destroy e)"
  by (simp add: live_timers_def live_def)

lemma timers_okD:
  assumes "timers_ok l"
  shows "heaps l (live_timers (events l))" "finite (live_timers (events l) r)"
    "ntimers l = of_nat (card (live_timers (events l) False) + card (live_timers (events l) True))"
    "events l a = Some e \<Longrightarrow> destroy e \<Longrightarrow> event_type e = ttype q \<Longrightarrow> nodes l a = null_node"
  using assms heap_ok_root(1) [OF heapsD(1)] by (auto simp: timers_ok_def)

lemma count_swap: "of_nat (card (Z False) + card (Z True)) = (of_nat (card (Z r) + card (Z (\<not> r))) :: u32)"
  by (cases r) (simp_all add: add.commute)

text \<open>A timer enters the heap \<open>r\<close>, or leaves it.\<close>

lemma timers_ok_enter:
  assumes ok: "timers_ok l" and a: "a \<notin> live_timers (events l) True" "a \<notin> live_timers (events l) False"
    and ev: "events l' = (events l)(a \<mapsto> e)" "event_type e = ttype r" "\<not> destroy e"
    and h: "heaps l' ((live_timers (events l))(r := insert a (live_timers (events l) r)))"
    and n: "ntimers l' = ntimers l + 1"
    and fr: "\<And>b. b \<notin> insert a (live_timers (events l) r) \<Longrightarrow> nodes l' b = nodes l b"
  shows "timers_ok l'"
proof -
  let ?Z = "live_timers (events l)"
  have a': "a \<notin> ?Z q" for q using a by (cases q) auto
  have Z: "live_timers (events l') = ?Z(r := insert a (?Z r))"
    unfolding ev(1) using a' ev(2,3) by (intro ext) (simp add: live_timers_upd)
  have "ntimers l' = of_nat (card (insert a (?Z r)) + card (?Z (\<not> r)))"
    using n timers_okD(3) [OF ok] timers_okD(2) [OF ok] a' count_swap [of ?Z r] by simp
  moreover have "nodes l' b = null_node" if b: "events l' b = Some e'" "destroy e'" "event_type e' = ttype q" for b e' q
  proof -
    have "b \<noteq> a" "b \<notin> ?Z r" using b ev by (auto simp: in_live_timers split: if_splits)
    then show ?thesis using fr [of b] timers_okD(4) [OF ok] b ev by simp
  qed
  ultimately show ?thesis
    using h count_swap [of "live_timers (events l')" r] unfolding timers_ok_def Z by simp
qed

lemma timers_ok_leave:
  assumes ok: "timers_ok l" and a: "a \<in> live_timers (events l) r"
    and ev: "events l' = (events l)(a := x)" "\<And>e. x = Some e \<Longrightarrow> destroy e"
    and h: "heaps l' ((live_timers (events l))(r := live_timers (events l) r - {a}))"
    and n: "ntimers l' = ntimers l - 1" and null: "nodes l' a = null_node"
    and fr: "\<And>b. b \<notin> live_timers (events l) r \<Longrightarrow> nodes l' b = nodes l b"
  shows "timers_ok l'"
proof -
  let ?Z = "live_timers (events l)"
  have a': "a \<notin> ?Z (\<not> r)" using heapsD(2) [OF timers_okD(1) [OF ok], of r] a by blast
  have Z: "live_timers (events l') = ?Z(r := ?Z r - {a})"
    unfolding ev(1) using a' ev(2) by (intro ext; cases x) (simp_all add: live_timers_upd)
  have "card (?Z r) = Suc (card (?Z r - {a}))" using card_Suc_Diff1 [OF timers_okD(2) [OF ok] a] by simp
  then have "ntimers l' = of_nat (card (?Z r - {a}) + card (?Z (\<not> r)))"
    unfolding n timers_okD(3) [OF ok] count_swap [of ?Z r] by simp
  moreover have "nodes l' b = null_node" if b: "events l' b = Some e'" "destroy e'" "event_type e' = ttype q" for b e' q
  proof (cases "b = a")
    case False
    then have "b \<notin> ?Z r" using b ev by (auto simp: in_live_timers)
    then show ?thesis using fr [of b] timers_okD(4) [OF ok] b ev False by simp
  qed (use null in simp)
  ultimately show ?thesis
    using h count_swap [of "live_timers (events l')" r] unfolding timers_ok_def Z by simp
qed

text \<open>Changes that concern no timer.\<close>

lemma timers_ok_same:
  assumes ok: "timers_ok l" and Z: "live_timers (events l') = live_timers (events l)"
    and k: "\<And>r b. b \<in> live_timers (events l) r \<Longrightarrow> next_timeout (the (events l' b)) = next_timeout (the (events l b))"
    and h: "\<And>r. heap_of r l' = heap_of r l" "ntimers l' = ntimers l"
      "\<And>r b. b \<in> live_timers (events l) r \<Longrightarrow> nodes l' b = nodes l b"
    and null: "\<And>b e r. events l' b = Some e \<Longrightarrow> destroy e \<Longrightarrow> event_type e = ttype r \<Longrightarrow> nodes l' b = null_node"
  shows "timers_ok l'"
proof -
  have "heaps l' (live_timers (events l))" using k h by (intro heaps_same [OF timers_okD(1) [OF ok]]) auto
  then show ?thesis using timers_okD(3) [OF ok] h(2) null unfolding timers_ok_def Z by simp
qed

lemma timers_ok_upd:
  assumes ok: "timers_ok l" and ev: "events l a = Some e" "events l' = (events l)(a \<mapsto> e')"
    and e: "event_type e' = event_type e" "destroy e' = destroy e" "next_timeout e' = next_timeout e"
    and h: "\<And>r. heap_of r l' = heap_of r l" "ntimers l' = ntimers l" "nodes l' = nodes l"
  shows "timers_ok l'"
proof (rule timers_ok_same [OF ok])
  show "live_timers (events l') = live_timers (events l)"
    unfolding ev(2) using ev(1) e by (intro ext) (auto simp: live_timers_upd in_live_timers)
  show "next_timeout (the (events l' b)) = next_timeout (the (events l b))" for b using ev e by simp
  show "nodes l' b = null_node" if "events l' b = Some x" "destroy x" "event_type x = ttype q" for b x q
  proof (cases "b = a")
    case True
    then have "destroy e" "event_type e = ttype q" using that ev(2) e by auto
    then show ?thesis using timers_okD(4) [OF ok ev(1)] h(3) True by simp
  next
    case False
    then show ?thesis using that ev(2) h(3) timers_okD(4) [OF ok, of b x q] by simp
  qed
qed (simp_all add: h)

lemma timers_ok_new:
  assumes ok: "timers_ok l" and ev: "events l a = None" "events l' = (events l)(a \<mapsto> e')"
    and e: "\<not> destroy e'" "\<And>r. event_type e' \<noteq> ttype r"
    and h: "\<And>r. heap_of r l' = heap_of r l" "ntimers l' = ntimers l" "\<And>b. b \<noteq> a \<Longrightarrow> nodes l' b = nodes l b"
  shows "timers_ok l'"
proof (rule timers_ok_same [OF ok])
  have a: "b \<noteq> a" if "b \<in> live_timers (events l) r" for b r using that ev by (auto simp: in_live_timers)
  show "live_timers (events l') = live_timers (events l)"
    unfolding ev(2) using ev(1) e by (intro ext) (auto simp: live_timers_upd in_live_timers)
  show "next_timeout (the (events l' b)) = next_timeout (the (events l b))" "nodes l' b = nodes l b"
    if "b \<in> live_timers (events l) r" for b r using a [OF that] ev h(3) by simp_all
  show "nodes l' b = null_node" if "events l' b = Some x" "destroy x" "event_type x = ttype q" for b x q
    using that ev e h(3) timers_okD(4) [OF ok] by (cases "b = a") auto
qed (simp_all add: h)

lemma timers_ok_free:
  assumes ok: "timers_ok l" and ev: "events l a = Some e" "events l' = (events l)(a := None)"
    and e: "destroy e \<or> (\<forall>r. event_type e \<noteq> ttype r)"
    and h: "\<And>r. heap_of r l' = heap_of r l" "ntimers l' = ntimers l" "nodes l' = nodes l"
  shows "timers_ok l'"
proof (rule timers_ok_same [OF ok])
  show "live_timers (events l') = live_timers (events l)"
    unfolding ev(2) using ev(1) e by (intro ext) (auto simp: live_timers_upd in_live_timers)
  have a: "b \<noteq> a" if "b \<in> live_timers (events l) r" for b r using that ev e by (auto simp: in_live_timers)
  show "next_timeout (the (events l' b)) = next_timeout (the (events l b))"
    if "b \<in> live_timers (events l) r" for b r using a [OF that] ev by simp
  show "nodes l' b = null_node" if "events l' b = Some x" "destroy x" "event_type x = ttype q" for b x q
    using that ev h(3) timers_okD(4) [OF ok] by (cases "b = a") auto
qed (simp_all add: h)

end
