(* ===== verification/Event_Inv.thy ===== *)
theory Event_Inv
  imports Event_Loop
begin

section \<open>The loop operations keep the invariant\<close>

text \<open>
  Every operation a program can call on the loop (timers and idles added, reset, deleted) returns on a state
  with the invariant, keeps the invariant, and leaves the table of pending events and its links alone.
\<close>

subsubsection \<open>Idles, active events, shapes\<close>

lemma idles_ok_same: "live m' HEVENT_TYPE_IDLE = live m HEVENT_TYPE_IDLE \<Longrightarrow> idles_ok m h lk n \<Longrightarrow> idles_ok m' h lk n"
  by (simp add: idles_ok_def)

lemma live_same:
  "m a = Some e \<Longrightarrow> event_type e' = event_type e \<Longrightarrow> destroy e' = destroy e \<Longrightarrow> live (m(a \<mapsto> e')) ty = live m ty"
  "m a = None \<Longrightarrow> event_type e' \<noteq> ty \<Longrightarrow> live (m(a \<mapsto> e')) ty = live m ty"
  "m a = Some e \<Longrightarrow> event_type e \<noteq> ty \<Longrightarrow> event_type e' = event_type e \<Longrightarrow> live (m(a \<mapsto> e')) ty = live m ty"
  "m a = Some e \<Longrightarrow> destroy e \<or> event_type e \<noteq> ty \<Longrightarrow> live (m(a := None)) ty = live m ty"
  by (auto simp: live_def)

lemma idles_ok_finite: "idles_ok m h lk n \<Longrightarrow> finite (live m HEVENT_TYPE_IDLE)"
  by (auto simp: idles_ok_def dest: sym)

lemma idles_ok_enter:
  assumes "idles_ok m h lk n" "a \<notin> live m HEVENT_TYPE_IDLE" "a \<noteq> h" "event_type e = HEVENT_TYPE_IDLE" "\<not> destroy e"
  shows "idles_ok (m(a \<mapsto> e)) h (list_add a h lk) (n + 1)"
proof -
  obtain xs where xs: "list_rep lk h xs" "set xs = live m HEVENT_TYPE_IDLE" using assms(1) by (auto simp: idles_ok_def)
  have "list_rep (list_add a h lk) h (a # xs)" using xs assms by (intro list_rep_add) auto
  then show ?thesis
    using assms xs(2) idles_ok_finite [OF assms(1)] by (auto simp: idles_ok_def live_upd intro!: exI [of _ "a # xs"])
qed

lemma idles_ok_leave:
  assumes "idles_ok m h lk n" "a \<in> live m HEVENT_TYPE_IDLE" "destroy e"
  shows "idles_ok (m(a \<mapsto> e)) h (list_del a lk) (n - 1)"
proof -
  obtain xs where xs: "list_rep lk h xs" "set xs = live m HEVENT_TYPE_IDLE" using assms(1) by (auto simp: idles_ok_def)
  have "list_rep (list_del a lk) h (remove1 a xs)" using xs assms by (intro list_rep_remove1) auto
  moreover have "set (remove1 a xs) = live m HEVENT_TYPE_IDLE - {a}"
    using xs by (auto simp: list_rep_def)
  moreover have "card (live m HEVENT_TYPE_IDLE) = Suc (card (live m HEVENT_TYPE_IDLE - {a}))"
    using card_Suc_Diff1 [OF idles_ok_finite [OF assms(1)] assms(2)] by simp
  ultimately show ?thesis using assms unfolding idles_ok_def live_upd by auto
qed

lemma actives_ok_enter: "actives_ok m n \<Longrightarrow> a \<notin> actives m \<Longrightarrow> active e \<Longrightarrow> actives_ok (m(a \<mapsto> e)) (n + 1)"
  by (simp add: actives_ok_def actives_upd)

lemma actives_ok_leave:
  assumes "actives_ok m n" "a \<in> actives m" "\<not> active e"
  shows "actives_ok (m(a \<mapsto> e)) (n - 1)"
proof -
  have "card (actives m) = Suc (card (actives m - {a}))"
    using card_Suc_Diff1 [of "actives m" a] assms by (simp add: actives_ok_def)
  then show ?thesis using assms by (simp add: actives_ok_def actives_upd)
qed

lemma actives_ok_same:
  "actives_ok m n \<Longrightarrow> m a = Some e \<Longrightarrow> active e' = active e \<Longrightarrow> actives_ok (m(a \<mapsto> e')) n"
  "actives_ok m n \<Longrightarrow> a \<notin> actives m \<Longrightarrow> actives_ok (m(a := None)) n"
  by (auto simp: actives_ok_def actives_upd actives_free in_actives insert_absorb)

lemma events_ok_upd:
  assumes "events_ok l" "events l' = (events l)(a \<mapsto> e)" "self l' = self l" "length (pendings l') = length (pendings l)"
    "a \<noteq> self l" "event_ok e" "ev_loop e = Some (self l)" "destroy e \<longrightarrow> pending e"
  shows "events_ok l'"
  using assms by (auto simp: events_ok_def)

lemma events_ok_free:
  assumes "events_ok l" "events l' = (events l)(a := None)" "self l' = self l" "length (pendings l') = length (pendings l)"
  shows "events_ok l'"
  using assms by (auto simp: events_ok_def)

lemma events_okD:
  assumes "events_ok l" "events l a = Some e"
  shows "a \<noteq> self l" "event_ok e" "ev_loop e = Some (self l)" "destroy e \<Longrightarrow> pending e"
  using assms by (auto simp: events_ok_def)

lemma loop_invD:
  assumes "loop_inv l"
  shows "timers_ok l" "idles_ok (events l) (self l) (links l) (nidles l)" "actives_ok (events l) (nactives l)" "events_ok l"
  using assms by (simp_all add: loop_inv_def)

subsubsection \<open>The macros, on an event that is allocated\<close>

lemma EVENT_ADD_eq:
  assumes "events l a = Some e" "\<not> active e"
  shows "EVENT_ADD a c l = Some (l\<lparr>events := (events l)(a \<mapsto> e\<lparr>ev_loop := Some (self l), event_id := next_event_id l + 1,
     cb := c, active := True\<rparr>), next_event_id := next_event_id l + 1, nactives := nactives l + 1\<rparr>)"
  using assms by (simp add: EVENT_ADD_def EVENT_ACTIVE_def ev_update_def)

lemma EVENT_DEL_eq:
  assumes "events l a = Some e" "active e"
  shows "EVENT_DEL a l = Some (if pending e
     then l\<lparr>events := (events l)(a \<mapsto> e\<lparr>active := False\<rparr>), nactives := nactives l - 1\<rparr>
     else l\<lparr>events := (events l)(a := None), nactives := nactives l - 1\<rparr>)"
  using assms by (simp add: EVENT_DEL_def EVENT_INACTIVE_def ev_update_def)

text \<open>What an operation leaves alone: the table of pending events and, of the events of \<open>R\<close>, the links and
  (but for \<open>c\<close>) the mark that they are pending.  No operation makes an event pending.\<close>

definition keeps :: "addr \<Rightarrow> addr set \<Rightarrow> hloop \<Rightarrow> hloop \<Rightarrow> bool" where
  "keeps c R l l' \<longleftrightarrow> self l' = self l \<and> pendings l' = pendings l \<and> npendings l' = npendings l \<and> calls l' = calls l \<and>
     (\<forall>b\<in>R. \<forall>e. events l b = Some e \<longrightarrow>
        (\<exists>e'. events l' b = Some e' \<and> pending_next e' = pending_next e \<and> (b \<noteq> c \<longrightarrow> pending e' = pending e))) \<and>
     (\<forall>b e'. events l' b = Some e' \<longrightarrow> pending e' \<longrightarrow> (\<exists>e. events l b = Some e \<and> pending e))"

lemma keeps_refl [simp]: "keeps c R l l"
  by (simp add: keeps_def)

lemma keeps_trans:
  assumes 1: "keeps c R l l1" and 2: "keeps c R l1 l2"
  shows "keeps c R l l2"
proof -
  have "\<exists>e'. events l2 b = Some e' \<and> pending_next e' = pending_next e \<and> (b \<noteq> c \<longrightarrow> pending e' = pending e)"
    if b: "b \<in> R" "events l b = Some e" for b e
  proof -
    obtain e1 where e1: "events l1 b = Some e1" "pending_next e1 = pending_next e" "b \<noteq> c \<longrightarrow> pending e1 = pending e"
      using 1 b unfolding keeps_def by blast
    then obtain e2 where "events l2 b = Some e2" "pending_next e2 = pending_next e1" "b \<noteq> c \<longrightarrow> pending e2 = pending e1"
      using 2 b unfolding keeps_def by blast
    then show ?thesis using e1 by simp
  qed
  moreover have "\<exists>e. events l b = Some e \<and> pending e" if "events l2 b = Some e'" "pending e'" for b e'
    using 1 2 that unfolding keeps_def by blast
  ultimately show ?thesis using 1 2 unfolding keeps_def by simp
qed

lemma keepsI:
  assumes "self l' = self l" "pendings l' = pendings l" "npendings l' = npendings l" "calls l' = calls l"
    "\<And>b. b \<noteq> a \<Longrightarrow> events l' b = events l b"
    "\<And>e. a \<in> R \<Longrightarrow> events l a = Some e \<Longrightarrow>
       \<exists>e'. events l' a = Some e' \<and> pending_next e' = pending_next e \<and> (a \<noteq> c \<longrightarrow> pending e' = pending e)"
    "\<And>e'. events l' a = Some e' \<Longrightarrow> pending e' \<Longrightarrow> \<exists>e. events l a = Some e \<and> pending e"
  shows "keeps c R l l'"
proof -
  have "\<exists>e'. events l' b = Some e' \<and> pending_next e' = pending_next e \<and> (b \<noteq> c \<longrightarrow> pending e' = pending e)"
    if "b \<in> R" "events l b = Some e" for b e using assms(5,6) that by (cases "b = a") auto
  moreover have "\<exists>e. events l b = Some e \<and> pending e" if "events l' b = Some e'" "pending e'" for b e'
    using assms(5,7) that by (cases "b = a") auto
  ultimately show ?thesis using assms(1-4) by (simp add: keeps_def)
qed

subsubsection \<open>Adding a timer\<close>

lemma timer_add_inv:
  assumes inv: "loop_inv l" and fresh: "events l a = None" "a \<noteq> self l"
    and l1: "events l1 = (events l)(a \<mapsto> e)" "nodes l1 = (nodes l)(a := null_node)" "\<And>r. heap_of r l1 = heap_of r l"
      "self l1 = self l" "pendings l1 = pendings l" "npendings l1 = npendings l" "calls l1 = calls l"
      "links l1 = links l" "nidles l1 = nidles l" "nactives l1 = nactives l" "ntimers l1 = ntimers l"
    and e: "event_type e = ttype r" "\<not> destroy e" "\<not> active e" "event_ok e" "\<not> pending e"
  obtains l2 l3 where "on_heap r (\<lambda>h ns. heap_insert (events l1) h ns a) l1 = Some l2" "EVENT_ADD a c l2 = Some l3"
    "loop_inv (l3\<lparr>ntimers := ntimers l3 + 1\<rparr>)" "keeps d R l (l3\<lparr>ntimers := ntimers l3 + 1\<rparr>)"
    "events l3 = (events l)(a \<mapsto> e\<lparr>ev_loop := Some (self l), event_id := next_event_id l1 + 1, cb := c, active := True\<rparr>)"
proof -
  let ?Z = "live_timers (events l)"
  have a: "a \<notin> ?Z q" for q using fresh by (simp add: in_live_timers)
  have "heaps l1 ?Z"
    using a l1 by (intro heaps_same [OF timers_okD(1) [OF loop_invD(1) [OF inv]]]) auto
  then obtain l2 where l2: "on_heap r (\<lambda>h ns. heap_insert (events l1) h ns a) l1 = Some l2" "off_heap l1 l2"
    "heaps l2 (?Z(r := insert a (?Z r)))" and fr: "\<And>b. b \<notin> insert a (?Z r) \<Longrightarrow> nodes l2 b = nodes l1 b"
    using heaps_insert [of l1 ?Z a r] a l1(2) by (metis fun_upd_same)
  note o = off_heapD [OF l2(2)]
  define e3 where "e3 = e\<lparr>ev_loop := Some (self l), event_id := next_event_id l1 + 1, cb := c, active := True\<rparr>"
  define l3 where "l3 = l2\<lparr>events := (events l)(a \<mapsto> e3), next_event_id := next_event_id l1 + 1, nactives := nactives l + 1\<rparr>"
  have ev2: "events l2 a = Some e" using o l1 by simp
  have add: "EVENT_ADD a c l2 = Some l3"
    using EVENT_ADD_eq [OF ev2 e(3), of c] o l1 by (simp add: l3_def e3_def)
  let ?l = "l3\<lparr>ntimers := ntimers l3 + 1\<rparr>"
  have e3: "event_type e3 = ttype r" "\<not> destroy e3" "active e3" "event_ok e3" "ev_loop e3 = Some (self l)"
    using e by (simp_all add: e3_def event_ok_def)
  have "heaps ?l (?Z(r := insert a (?Z r)))"
    using l2(3) o l1 e by (intro heaps_same [OF l2(3)]) (auto simp: l3_def heap_of_def e3_def)
  then have "timers_ok ?l"
    using loop_invD(1) [OF inv] a e3 fr o l1 by (intro timers_ok_enter [of l a ?l e3 r]) (auto simp: l3_def)
  moreover have "idles_ok (events ?l) (self ?l) (links ?l) (nidles ?l)"
    using loop_invD(2) [OF inv] fresh o l1 e3(1) by (auto simp: l3_def live_same intro: idles_ok_same)
  moreover have "actives_ok (events ?l) (nactives ?l)"
    using loop_invD(3) [OF inv] fresh e3(3) by (simp add: l3_def actives_ok_enter fresh_not_live)
  moreover have "events_ok ?l"
    using e3 fresh o l1 by (intro events_ok_upd [OF loop_invD(4) [OF inv], of _ a e3]) (simp_all add: l3_def)
  ultimately have "loop_inv ?l" by (simp add: loop_inv_def)
  moreover have "keeps d R l ?l" using fresh o l1 e by (intro keepsI [of _ _ a]) (auto simp: l3_def e3_def)
  ultimately show thesis using l2(1) add by (intro that [of l2 l3]) (simp_all add: l3_def e3_def)
qed

lemma htimer_add_inv:
  assumes inv: "loop_inv l" and fresh: "events l a = None" "a \<noteq> self l" and t: "t \<noteq> 0"
  obtains l' e where "htimer_add a clk c t rep l = Some (Some a, l')" "loop_inv l'" "keeps d R l l'"
    "events l' = (events l)(a \<mapsto> e)" "event_type e = HEVENT_TYPE_TIMEOUT" "next_timeout e = timeout_at (hrtime_us clk) t"
    "timeout e = t" "repeat e = rep" "cb e = c" "active e" "\<not> pending e" "\<not> destroy e"
proof -
  define e0 where "e0 = zero_event\<lparr>event_type := HEVENT_TYPE_TIMEOUT, priority := HEVENT_HIGHEST_PRIORITY,
    repeat := rep, timeout := t\<rparr>"
  define l0 where "l0 = hloop_update_time clk (alloc_event a e0 l)"
  define e1 where "e1 = e0\<lparr>next_timeout := timeout_at (cur_hrtime l0) t\<rparr>"
  define l1 where "l1 = ev_update a (next_timeout_update (\<lambda>_. timeout_at (cur_hrtime l0) t)) l0"
  have 0: "events l0 = (events l)(a \<mapsto> e0)" "nodes l0 = (nodes l)(a := null_node)" "heap_of r l0 = heap_of r l"
    "self l0 = self l" "pendings l0 = pendings l" "npendings l0 = npendings l" "calls l0 = calls l"
    "links l0 = links l" "nidles l0 = nidles l" "nactives l0 = nactives l" "ntimers l0 = ntimers l" "cur_hrtime l0 = hrtime_us clk" for r
    by (auto simp: l0_def alloc_event_def hloop_update_time_def heap_of_def Let_def)
  have 1: "events l1 = (events l)(a \<mapsto> e1)" using 0 by (simp add: l1_def e1_def)
  have p: "event_ok e1" "event_type e1 = ttype False" "\<not> destroy e1" "\<not> active e1" "\<not> pending e1"
    using t by (simp_all add: e1_def e0_def zero_event_def event_ok_def HEVENT_LOWEST_PRIORITY_def HEVENT_HIGHEST_PRIORITY_def)
  obtain l2 l3 where 2: "on_heap False (\<lambda>h ns. heap_insert (events l1) h ns a) l1 = Some l2" "EVENT_ADD a c l2 = Some l3"
    "loop_inv (l3\<lparr>ntimers := ntimers l3 + 1\<rparr>)" "keeps d R l (l3\<lparr>ntimers := ntimers l3 + 1\<rparr>)"
    "events l3 = (events l)(a \<mapsto> e1\<lparr>ev_loop := Some (self l), event_id := next_event_id l1 + 1, cb := c, active := True\<rparr>)"
    by (rule timer_add_inv [OF inv fresh 1, of False c d R]) (use 0 p in \<open>simp_all add: l1_def\<close>)
  have "htimer_add a clk c t rep l = Some (Some a, l3\<lparr>ntimers := ntimers l3 + 1\<rparr>)"
    using t 2(1,2) by (simp add: htimer_add_def Let_def e0_def [symmetric] l0_def [symmetric] l1_def [symmetric] del: ev_update_simps)
  then show thesis
    by (rule that [of _ "e1\<lparr>ev_loop := Some (self l), event_id := next_event_id l1 + 1, cb := c, active := True\<rparr>"])
      (use 2(3-5) 0 in \<open>simp_all add: e1_def e0_def zero_event_def\<close>)
qed


lemma htimer_add_period_inv:
  assumes inv: "loop_inv l" and fresh: "events l a = None" "a \<noteq> self l"
    and p: "minute p \<le> 59" "hour p \<le> 23" "day p \<le> 31" "week p \<le> 6" "month p \<le> 12"
  obtains l' e where "htimer_add_period a cron c p rep l = Some (Some a, l')" "loop_inv l'" "keeps d R l l'"
    "events l' = (events l)(a \<mapsto> e)" "event_type e = HEVENT_TYPE_PERIOD" "next_timeout e = cron p * 1000000"
    "repeat e = rep" "cb e = c" "active e" "\<not> pending e" "\<not> destroy e"
proof -
  define e1 where "e1 = zero_event\<lparr>event_type := HEVENT_TYPE_PERIOD, priority := HEVENT_HIGH_PRIORITY,
    repeat := rep, period := p, next_timeout := cron p * 1000000\<rparr>"
  define l1 where "l1 = alloc_event a e1 l"
  have 0: "events l1 = (events l)(a \<mapsto> e1)" "nodes l1 = (nodes l)(a := null_node)" "heap_of r l1 = heap_of r l"
    "self l1 = self l" "pendings l1 = pendings l" "npendings l1 = npendings l" "calls l1 = calls l"
    "links l1 = links l" "nidles l1 = nidles l" "nactives l1 = nactives l" "ntimers l1 = ntimers l" for r
    by (auto simp: l1_def alloc_event_def heap_of_def)
  have e1: "event_ok e1" "event_type e1 = ttype True" "\<not> destroy e1" "\<not> active e1" "\<not> pending e1"
    by (simp_all add: e1_def zero_event_def event_ok_def HEVENT_LOWEST_PRIORITY_def HEVENT_HIGHEST_PRIORITY_def
      HEVENT_HIGH_PRIORITY_def)
  obtain l2 l3 where 2: "on_heap True (\<lambda>h ns. heap_insert (events l1) h ns a) l1 = Some l2" "EVENT_ADD a c l2 = Some l3"
    "loop_inv (l3\<lparr>ntimers := ntimers l3 + 1\<rparr>)" "keeps d R l (l3\<lparr>ntimers := ntimers l3 + 1\<rparr>)"
    "events l3 = (events l)(a \<mapsto> e1\<lparr>ev_loop := Some (self l), event_id := next_event_id l1 + 1, cb := c, active := True\<rparr>)"
    by (rule timer_add_inv [OF inv fresh 0(1), of True c d R]) (use 0 e1 in simp_all)
  have "htimer_add_period a cron c p rep l = Some (Some a, l3\<lparr>ntimers := ntimers l3 + 1\<rparr>)"
    using p 2(1,2) by (simp add: htimer_add_period_def Let_def e1_def [symmetric] l1_def [symmetric])
  then show thesis
    by (rule that [of _ "e1\<lparr>ev_loop := Some (self l), event_id := next_event_id l1 + 1, cb := c, active := True\<rparr>"])
      (use 2(3-5) in \<open>simp_all add: e1_def zero_event_def\<close>)
qed

subsubsection \<open>Deleting a timer\<close>

lemma htimer_del_node_eq:
  assumes ok: "timers_ok l" and e: "events l a = Some e" "event_type e = ttype r" "\<not> destroy e"
  obtains l' where "htimer_del_node a l = Some l'" "timers_ok l'" "events l' = (events l)(a \<mapsto> e\<lparr>destroy := True\<rparr>)"
    "self l' = self l" "pendings l' = pendings l" "npendings l' = npendings l" "calls l' = calls l"
    "links l' = links l" "nidles l' = nidles l" "nactives l' = nactives l"
    "heaps l' ((live_timers (events l))(r := live_timers (events l) r - {a}))" "cur_hrtime l' = cur_hrtime l"
proof -
  let ?Z = "live_timers (events l)"
  have a: "a \<in> ?Z r" using e by (simp add: in_live_timers)
  obtain l1 where l1: "on_heap r (\<lambda>h ns. heap_remove (events l) h ns a) l = Some l1" "off_heap l l1"
    "heaps l1 (?Z(r := ?Z r - {a}))" "nodes l1 a = null_node" and fr: "\<And>b. b \<notin> ?Z r \<Longrightarrow> nodes l1 b = nodes l b"
    using heaps_remove [OF timers_okD(1) [OF ok] a] by blast
  note o = off_heapD [OF l1(2)]
  let ?l = "(ev_update a (destroy_update (\<lambda>_. True)) l1)\<lparr>ntimers := ntimers l1 - 1\<rparr>"
  have "htimer_del_node a l = Some ?l"
    using e l1(1) by (cases r) (simp_all add: htimer_del_node_def)
  moreover have ev: "events ?l = (events l)(a \<mapsto> e\<lparr>destroy := True\<rparr>)" using o e by simp
  moreover have h: "heaps ?l (?Z(r := ?Z r - {a}))"
    using ev o e by (intro heaps_same [OF l1(3)]) (auto simp: heap_of_def)
  moreover have "timers_ok ?l"
    using l1(4) fr o by (intro timers_ok_leave [OF ok a ev _ h]) auto
  ultimately show thesis using o by (intro that [of ?l]) simp_all
qed

text \<open>\<open>EVENT_DEL\<close> of an event that has just been marked as destroyed: freed at once, or, while it is
  pending, left for the run of the pending events.\<close>

lemma event_del_inv:
  assumes inv: "loop_inv l" and e: "events l a = Some e" "active e" and R: "a \<in> R \<Longrightarrow> pending e"
    and l1: "timers_ok l1" "idles_ok (events l1) (self l1) (links l1) (nidles l1)"
      "events l1 = (events l)(a \<mapsto> e\<lparr>destroy := True\<rparr>)" "nactives l1 = nactives l"
      "self l1 = self l" "pendings l1 = pendings l" "npendings l1 = npendings l" "calls l1 = calls l"
  obtains l' where "EVENT_DEL a l1 = Some l'" "loop_inv l'" "keeps d R l l'"
proof -
  note inv' = loop_invD [OF inv]
  have ne: "a \<noteq> self l" "event_ok e" "ev_loop e = Some (self l)" using events_okD [OF inv'(4) e(1)] by auto
  define e1 where "e1 = e\<lparr>destroy := True\<rparr>"
  have e1: "events l1 a = Some e1" "active e1" "destroy e1" "pending e1 = pending e" using l1(3) e(2) by (simp_all add: e1_def)
  have act: "actives_ok ((events l)(a \<mapsto> e\<lparr>destroy := True, active := False\<rparr>)) (nactives l - 1)"
    using inv'(3) e by (intro actives_ok_leave) (auto simp: in_actives)
  show thesis
  proof (cases "pending e")
    case p: True
    let ?e = "e1\<lparr>active := False\<rparr>"
    let ?l = "l1\<lparr>events := (events l1)(a \<mapsto> ?e), nactives := nactives l1 - 1\<rparr>"
    have "EVENT_DEL a l1 = Some ?l" using EVENT_DEL_eq [OF e1(1,2)] p e1(4) by simp
    moreover have "timers_ok ?l" using e1 by (intro timers_ok_upd [OF l1(1) e1(1), of ?l ?e]) (simp_all add: heap_of_def)
    moreover have "idles_ok (events ?l) (self ?l) (links ?l) (nidles ?l)"
      using l1(2) live_same(1) [of "events l1" a e1, OF e1(1), of ?e] by (simp add: idles_ok_same)
    moreover have "events_ok ?l" using ne p l1
      by (intro events_ok_upd [OF inv'(4), of ?l a ?e]) (auto simp: event_ok_def e1_def)
    moreover have "keeps d R l ?l" using l1 e by (intro keepsI [of _ _ a]) (auto simp: e1_def)
    ultimately show thesis using act l1 by (intro that [of ?l]) (simp_all add: loop_inv_def e1_def)
  next
    case p: False
    let ?l = "l1\<lparr>events := (events l1)(a := None), nactives := nactives l1 - 1\<rparr>"
    have "EVENT_DEL a l1 = Some ?l" using EVENT_DEL_eq [OF e1(1,2)] p e1(4) by simp
    moreover have "timers_ok ?l" using e1 by (intro timers_ok_free [OF l1(1) e1(1)]) (simp_all add: heap_of_def)
    moreover have "idles_ok (events ?l) (self ?l) (links ?l) (nidles ?l)"
      using l1(2) live_same(4) [of "events l1" a e1, OF e1(1)] e1(3) by (simp add: idles_ok_same)
    moreover have "events_ok ?l" using l1 by (intro events_ok_free [OF inv'(4), of _ a]) simp_all
    moreover have "actives_ok (events ?l) (nactives ?l)"
      using actives_ok_same(2) [OF act, of a] l1 by (simp add: actives_upd)
    moreover have "keeps d R l ?l" using l1 R p by (intro keepsI [of _ _ a]) auto
    ultimately show thesis by (intro that [of ?l]) (simp_all add: loop_inv_def)
  qed
qed

lemma htimer_del_inv:
  assumes inv: "loop_inv l" and e: "events l a = Some e" "event_type e = ttype r" and R: "a \<in> R \<Longrightarrow> pending e"
  obtains l' where "htimer_del a l = Some l'" "loop_inv l'" "keeps d R l l'"
proof (cases "active e")
  case False
  then show thesis using e inv by (intro that [of l]) (simp_all add: htimer_del_def)
next
  case True
  note inv' = loop_invD [OF inv]
  have "\<exists>l1. htimer_del_node a l = Some l1 \<and> timers_ok l1 \<and> events l1 = (events l)(a \<mapsto> e\<lparr>destroy := True\<rparr>) \<and>
    self l1 = self l \<and> pendings l1 = pendings l \<and> npendings l1 = npendings l \<and> calls l1 = calls l \<and>
    links l1 = links l \<and> nidles l1 = nidles l \<and> nactives l1 = nactives l"
  proof (cases "destroy e")
    case True
    then have "e = e\<lparr>destroy := True\<rparr>" by simp
    then show ?thesis using True e inv' by (auto simp: htimer_del_node_def fun_upd_idem)
  next
    case False
    then show ?thesis using htimer_del_node_eq [OF inv'(1) e] by metis
  qed
  then obtain l1 where 1: "htimer_del_node a l = Some l1" "timers_ok l1" "events l1 = (events l)(a \<mapsto> e\<lparr>destroy := True\<rparr>)"
    "self l1 = self l" "pendings l1 = pendings l" "npendings l1 = npendings l" "calls l1 = calls l"
    "links l1 = links l" "nidles l1 = nidles l" "nactives l1 = nactives l" by blast
  have "idles_ok (events l1) (self l1) (links l1) (nidles l1)"
    using inv'(2) 1 e by (simp add: idles_ok_same live_same)
  then obtain l' where "EVENT_DEL a l1 = Some l'" "loop_inv l'" "keeps d R l l'"
    using event_del_inv [OF inv e(1) True R 1(2) _ 1(3,10,4-7)] by blast
  then show thesis using e True 1(1) by (intro that [of l']) (simp_all add: htimer_del_def)
qed

subsubsection \<open>Idles\<close>

lemma hidle_add_inv:
  assumes inv: "loop_inv l" and fresh: "events l a = None" "a \<noteq> self l"
  obtains l' where "hidle_add a c rep l = Some (Some a, l')" "loop_inv l'" "keeps d R l l'"
proof -
  note inv' = loop_invD [OF inv]
  define e where "e = zero_event\<lparr>event_type := HEVENT_TYPE_IDLE, priority := HEVENT_LOWEST_PRIORITY, repeat := rep\<rparr>"
  define l1 where "l1 = (alloc_event a e l)\<lparr>links := list_add a (self l) (links l)\<rparr>"
  let ?e = "e\<lparr>ev_loop := Some (self l), event_id := next_event_id l + 1, cb := c, active := True\<rparr>"
  let ?l = "l1\<lparr>events := (events l)(a \<mapsto> ?e), next_event_id := next_event_id l + 1,
    nactives := nactives l + 1, nidles := nidles l + 1\<rparr>"
  have e: "event_type e = HEVENT_TYPE_IDLE" "\<not> destroy e" "\<not> active e" "event_ok e"
    by (simp_all add: e_def zero_event_def event_ok_def HEVENT_LOWEST_PRIORITY_def HEVENT_HIGHEST_PRIORITY_def)
  have "EVENT_ADD a c l1 = Some (?l\<lparr>nidles := nidles l\<rparr>)"
    using EVENT_ADD_eq [of l1 a e c] e(3) by (simp add: l1_def alloc_event_def)
  then have "hidle_add a c rep l = Some (Some a, ?l)"
    by (simp add: hidle_add_def e_def [symmetric] l1_def [symmetric])
      (simp add: l1_def alloc_event_def)
  moreover have "timers_ok ?l"
    using e by (intro timers_ok_new [OF inv'(1) fresh(1), of ?l ?e]) (auto simp: l1_def alloc_event_def heap_of_def ttype_def)
  moreover have "idles_ok (events ?l) (self ?l) (links ?l) (nidles ?l)"
    using idles_ok_enter [OF inv'(2), of a ?e] fresh e by (simp add: l1_def alloc_event_def fresh_not_live)
  moreover have "actives_ok (events ?l) (nactives ?l)"
    using actives_ok_enter [OF inv'(3), of a ?e] fresh by (simp add: fresh_not_live)
  moreover have "events_ok ?l"
    using e fresh by (intro events_ok_upd [OF inv'(4), of ?l a ?e]) (simp_all add: l1_def alloc_event_def event_ok_def)
  moreover have "keeps d R l ?l"
    using fresh by (intro keepsI [of _ _ a]) (auto simp: l1_def alloc_event_def e_def zero_event_def)
  ultimately show thesis by (intro that [of ?l]) (simp_all add: loop_inv_def)
qed

lemma hidle_del_inv:
  assumes inv: "loop_inv l" and e: "events l a = Some e" "event_type e = HEVENT_TYPE_IDLE" and R: "a \<in> R \<Longrightarrow> pending e"
  obtains l' where "hidle_del a l = Some l'" "loop_inv l'" "keeps d R l l'"
proof (cases "active e")
  case False
  then show thesis using e inv by (intro that [of l]) (simp_all add: hidle_del_def)
next
  case True
  note inv' = loop_invD [OF inv]
  let ?l = "if destroy e then l else (ev_update a (destroy_update (\<lambda>_. True)) l)
    \<lparr>links := list_del a (links l), nidles := nidles l - 1\<rparr>"
  have "e = e\<lparr>destroy := True\<rparr>" if "destroy e" using that by simp
  then have ev: "events ?l = (events l)(a \<mapsto> e\<lparr>destroy := True\<rparr>)" using e by (auto simp: fun_upd_idem)
  have t: "timers_ok ?l"
  proof (cases "destroy e")
    case False
    have Z: "live_timers (events ?l) = live_timers (events l)"
      unfolding ev using e by (intro ext) (auto simp: live_timers_upd in_live_timers)
    show ?thesis
    proof (rule timers_ok_same [OF inv'(1) Z])
      show "nodes ?l b = null_node" if "events ?l b = Some x" "destroy x" "event_type x = ttype q" for b x q
        using that timers_okD(4) [OF inv'(1), of b x q] e False by (auto split: if_splits)
    qed (use e False in \<open>auto simp: heap_of_def in_live_timers\<close>)
  qed (use inv'(1) in simp)
  have i: "idles_ok (events ?l) (self ?l) (links ?l) (nidles ?l)"
  proof (cases "destroy e")
    case False
    then show ?thesis
      using idles_ok_leave [OF inv'(2), of a "e\<lparr>destroy := True\<rparr>"] e by (simp add: in_live)
  qed (use inv'(2) in simp)
  obtain l' where "EVENT_DEL a ?l = Some l'" "loop_inv l'" "keeps d R l l'"
    by (rule event_del_inv [OF inv e(1) True R t i ev]) auto
  then show thesis using e True by (intro that [of l']) (simp_all add: hidle_del_def hidle_del_node_def)
qed

subsubsection \<open>Resetting a timer\<close>

lemma EVENT_RESET_eq:
  assumes "events l a = Some e"
  shows "EVENT_RESET a l = Some (l\<lparr>events := (events l)(a \<mapsto> e\<lparr>destroy := False, active := True, pending := False\<rparr>),
     nactives := nactives l + (if active e then 0 else 1)\<rparr>)"
  using assms by (cases e) (simp add: EVENT_RESET_def EVENT_ACTIVE_def ev_update_def)

lemma actives_ok_activate:
  assumes "actives_ok m n" "m a = Some e" "active e'"
  shows "actives_ok (m(a \<mapsto> e')) (n + (if active e then 0 else 1))"
  using assms actives_ok_same(1) [OF assms(1,2)] actives_ok_enter [OF assms(1), of a e'] by (auto simp: in_actives)

lemma timers_ok_reenter:
  assumes ok: "timers_ok l" and e: "events l a = Some e" "event_type e = ttype r"
    and ev: "events l' = (events l)(a \<mapsto> e')" "event_type e' = ttype r" "\<not> destroy e'"
    and h: "heaps l' ((live_timers (events l))(r := insert a (live_timers (events l) r)))"
    and n: "ntimers l' = ntimers l + (if destroy e then 1 else 0)"
    and fr: "\<And>b. b \<notin> insert a (live_timers (events l) r) \<Longrightarrow> nodes l' b = nodes l b"
  shows "timers_ok l'"
proof (cases "destroy e")
  case True
  then have "a \<notin> live_timers (events l) q" for q using e by (simp add: in_live_timers)
  then show ?thesis using True n by (intro timers_ok_enter [OF ok _ _ ev h _ fr]) auto
next
  case False
  let ?Z = "live_timers (events l)"
  have a: "a \<in> ?Z r" using e False by (simp add: in_live_timers)
  have a': "a \<notin> ?Z q" if "q \<noteq> r" for q using e that by (simp add: in_live_timers)
  have Z: "live_timers (events l') = ?Z"
    unfolding ev(1) using a a' ev(2,3) by (intro ext) (auto simp: live_timers_upd insert_absorb)
  have Z': "?Z(r := insert a (?Z r)) = ?Z" using a by (simp add: insert_absorb)
  have "nodes l' b = null_node" if b: "events l' b = Some x" "destroy x" "event_type x = ttype q" for b x q
  proof -
    have "b \<noteq> a" "b \<notin> ?Z r" using b ev by (auto simp: in_live_timers split: if_splits)
    then show ?thesis using fr [of b] timers_okD(4) [OF ok] b ev by simp
  qed
  then show ?thesis using h n False timers_okD(3) [OF ok] unfolding timers_ok_def Z Z' by simp
qed

lemma htimer_reset_inv:
  assumes inv: "loop_inv l" and e: "events l a = Some e" and R: "a \<in> R \<Longrightarrow> pending e \<Longrightarrow> a = d"
  obtains l' where "htimer_reset a t l = Some l'" "loop_inv l'" "keeps d R l l'"
    "\<And>b. b \<noteq> a \<Longrightarrow> events l' b = events l b" "event_type e = HEVENT_TYPE_TIMEOUT \<Longrightarrow>
       \<exists>e'. events l' a = Some e' \<and> \<not> destroy e' \<and> active e' \<and> \<not> pending e' \<and> event_type e' = HEVENT_TYPE_TIMEOUT \<and>
         next_timeout e' = timeout_at (cur_hrtime l) (if 0 < t then t else timeout e)"
proof (cases "event_type e = HEVENT_TYPE_TIMEOUT")
  case False
  then show thesis using e inv by (intro that [of l]) (simp_all add: htimer_reset_def)
next
  case ty: True
  note inv' = loop_invD [OF inv]
  let ?Z = "live_timers (events l)" let ?n = "if destroy e then 1 else 0"
  obtain l1 where l1: "(if destroy e then Some (l\<lparr>ntimers := ntimers l + 1\<rparr>)
      else on_heap False (\<lambda>h ns. heap_remove (events l) h ns a) l) = Some l1"
    and h1: "heaps l1 (?Z(False := ?Z False - {a}))" "nodes l1 a = null_node" "\<And>b. b \<notin> ?Z False \<Longrightarrow> nodes l1 b = nodes l b"
    and o1: "off_heap (l\<lparr>ntimers := ntimers l + ?n\<rparr>) l1"
  proof (cases "destroy e")
    case True
    have "?Z False - {a} = ?Z False" using True e by (auto simp: in_live_timers)
    then have "heaps (l\<lparr>ntimers := ntimers l + 1\<rparr>) (?Z(False := ?Z False - {a}))"
      using timers_okD(1) [OF inv'(1)] by (simp add: heaps_def heap_of_def all_bool_eq)
    moreover have "off_heap x x" for x
      unfolding off_heap_def by (intro exI [of _ "timers x"] exI [of _ "realtimers x"] exI [of _ "nodes x"]) simp
    ultimately show thesis using True timers_okD(4) [OF inv'(1) e, of False] ty by (intro that [of "l\<lparr>ntimers := ntimers l + 1\<rparr>"]) simp_all
  next
    case False
    have "a \<in> ?Z False" using False e ty by (simp add: in_live_timers)
    then obtain x where "on_heap False (\<lambda>h ns. heap_remove (events l) h ns a) l = Some x" "off_heap l x"
      "heaps x (?Z(False := ?Z False - {a}))" "nodes x a = null_node" "\<And>b. b \<notin> ?Z False \<Longrightarrow> nodes x b = nodes l b"
      using heaps_remove [OF timers_okD(1) [OF inv'(1)]] by blast
    then show thesis using False by (intro that [of x]) simp_all
  qed
  note o1' = off_heapD [OF o1]
  define e2 where "e2 = e\<lparr>repeat := if repeat e = 0 then 1 else repeat e, timeout := if 0 < t then t else timeout e,
    next_timeout := timeout_at (cur_hrtime l) (if 0 < t then t else timeout e)\<rparr>"
  define l2 where "l2 = l1\<lparr>events := (events l)(a \<mapsto> e2)\<rparr>"
  let ?Y = "?Z(False := ?Z False - {a})"
  have "heaps l2 ?Y"
    using o1' ty e by (intro heaps_same [OF h1(1)]) (auto simp: l2_def heap_of_def in_live_timers split: if_splits)
  moreover have "a \<notin> ?Y False" "a \<notin> ?Y (\<not> False)" "nodes l2 a = null_node"
    using e ty h1(2) by (auto simp: in_live_timers l2_def)
  moreover have "?Y(False := insert a (?Y False)) = ?Z(False := insert a (?Z False))" "insert a (?Y False) = insert a (?Z False)"
    by auto
  ultimately obtain l3 where l3: "on_heap False (\<lambda>h ns. heap_insert (events l2) h ns a) l2 = Some l3" "off_heap l2 l3"
    "heaps l3 (?Z(False := insert a (?Z False)))" "\<And>b. b \<notin> insert a (?Z False) \<Longrightarrow> nodes l3 b = nodes l2 b"
    using heaps_insert [of l2 ?Y a False] by metis
  note o3 = off_heapD [OF l3(2)]
  let ?e = "e2\<lparr>destroy := False, active := True, pending := False\<rparr>"
  let ?l = "l3\<lparr>events := (events l)(a \<mapsto> ?e), nactives := nactives l + (if active e then 0 else 1)\<rparr>"
  have "EVENT_RESET a l3 = Some ?l"
    using EVENT_RESET_eq [of l3 a e2] o3 o1' by (simp add: l2_def e2_def)
  moreover have "ev_update a (\<lambda>e. e\<lparr>next_timeout := timeout_at (cur_hrtime l) (timeout e)\<rparr>)
      (ev_update a (\<lambda>e. if 0 < t then e\<lparr>timeout := t\<rparr> else e) (ev_update a (\<lambda>e. if repeat e = 0 then e\<lparr>repeat := 1\<rparr> else e) l1)) = l2"
    using e o1' by (simp add: ev_update_def l2_def e2_def)
  ultimately have "htimer_reset a t l = Some ?l"
    using e ty l1 l3(1) o1' by (simp add: htimer_reset_def Let_def del: ev_update_simps(1))
  moreover have "timers_ok ?l"
  proof (rule timers_ok_reenter [OF inv'(1) e, of False ?l ?e])
    show "heaps ?l (?Z(False := insert a (?Z False)))"
      using o3 by (intro heaps_same [OF l3(3)]) (auto simp: heap_of_def l2_def)
    show "nodes ?l b = nodes l b" if "b \<notin> insert a (?Z False)" for b using that l3(4) h1(3) by (simp add: l2_def)
  qed (use ty o3 o1' in \<open>simp_all add: l2_def e2_def\<close>)
  moreover have "live ((events l)(a \<mapsto> ?e)) HEVENT_TYPE_IDLE = live (events l) HEVENT_TYPE_IDLE"
    using ty by (intro live_same(3) [of "events l" a e, OF e]) (simp_all add: e2_def)
  then have "idles_ok (events ?l) (self ?l) (links ?l) (nidles ?l)"
    using idles_ok_same [OF _ inv'(2)] o3 o1' by (simp add: l2_def)
  moreover have "actives_ok (events ?l) (nactives ?l)" using actives_ok_activate [OF inv'(3) e, of ?e] by simp
  moreover have "events_ok ?l"
    using o3 o1' events_okD [OF inv'(4) e]
    by (intro events_ok_upd [OF inv'(4), of ?l a ?e]) (auto simp: l2_def e2_def event_ok_def)
  moreover have "keeps d R l ?l" using o3 o1' e R by (intro keepsI [of _ _ a]) (auto simp: l2_def e2_def)
  ultimately show thesis
    using ty by (intro that [of ?l]) (simp_all add: loop_inv_def e2_def)
qed

end
