(* ===== verification/Event_Run.thy ===== *)
theory Event_Run
  imports Event_Inv "HOL-Library.Sublist"
begin


subsection \<open>What a callback may call\<close>

text \<open>
  The contract of the calls a callback of the event \<open>c\<close> makes, where \<open>R\<close> is the set of the events that were
  pending when the callback started: new events are allocated at fresh addresses, the events named are
  allocated and of the type the function expects, no other pending event is reset, and an event of \<open>R\<close> is not
  deleted once its mark has been cleared.
\<close>

fun api_ok :: "addr \<Rightarrow> addr set \<Rightarrow> hloop \<Rightarrow> api \<Rightarrow> bool" where
  "api_ok c R l (Timer_add a clk k t r) \<longleftrightarrow> events l a = None \<and> a \<noteq> self l"
| "api_ok c R l (Timer_add_period a k p r) \<longleftrightarrow> events l a = None \<and> a \<noteq> self l"
| "api_ok c R l (Timer_reset a t) \<longleftrightarrow> events l a \<noteq> None \<and> (a \<in> R \<longrightarrow> a = c)"
| "api_ok c R l (Timer_del a) \<longleftrightarrow>
     (case events l a of
        None \<Rightarrow> False
      | Some e \<Rightarrow> (event_type e = HEVENT_TYPE_TIMEOUT \<or> event_type e = HEVENT_TYPE_PERIOD) \<and> (a \<in> R \<longrightarrow> pending e))"
| "api_ok c R l (Idle_add a k r) \<longleftrightarrow> events l a = None \<and> a \<noteq> self l"
| "api_ok c R l (Idle_del a) \<longleftrightarrow>
     (case events l a of None \<Rightarrow> False | Some e \<Rightarrow> event_type e = HEVENT_TYPE_IDLE \<and> (a \<in> R \<longrightarrow> pending e))"
| "api_ok c R l (Set_status s) \<longleftrightarrow> True"

fun apis_ok :: "(hperiod \<Rightarrow> u64) \<Rightarrow> addr \<Rightarrow> addr set \<Rightarrow> hloop \<Rightarrow> api list \<Rightarrow> bool" where
  "apis_ok cron c R l [] \<longleftrightarrow> True"
| "apis_ok cron c R l (x # xs) \<longleftrightarrow>
     api_ok c R l x \<and> (case run_api cron x l of None \<Rightarrow> False | Some l' \<Rightarrow> apis_ok cron c R l' xs)"

definition pendset :: "hloop \<Rightarrow> addr set" where
  "pendset l = {b. \<exists>e. events l b = Some e \<and> pending e}"

definition callbacks_ok :: "(hperiod \<Rightarrow> u64) \<Rightarrow> callbacks \<Rightarrow> bool" where
  "callbacks_ok cron cbs \<longleftrightarrow>
     (\<forall>l a e c. loop_inv l \<longrightarrow> events l a = Some e \<longrightarrow> pending e \<longrightarrow> active e \<longrightarrow> cb e = Some c \<longrightarrow>
        apis_ok cron a (pendset l) (l\<lparr>calls := a # calls l\<rparr>) (cbs c a l))"

lemma heap_of_other [simp]:
  "heap_of r (l\<lparr>status := s\<rparr>) = heap_of r l" "heap_of r (l\<lparr>calls := c\<rparr>) = heap_of r l"
  "heap_of r (l\<lparr>npendings := n\<rparr>) = heap_of r l" "heap_of r (l\<lparr>cur_hrtime := t\<rparr>) = heap_of r l"
  "heap_of r (l\<lparr>start_ms := t\<rparr>) = heap_of r l" "heap_of r (l\<lparr>pendings := p\<rparr>) = heap_of r l"
  by (simp_all add: heap_of_def)

text \<open>The invariant does not depend on the fields that are changed here.\<close>

lemma loop_inv_other [simp]:
  "loop_inv (l\<lparr>status := s\<rparr>) = loop_inv l" "loop_inv (l\<lparr>calls := c\<rparr>) = loop_inv l"
  "loop_inv (l\<lparr>npendings := n\<rparr>) = loop_inv l" "loop_inv (l\<lparr>cur_hrtime := t\<rparr>) = loop_inv l"
  "loop_inv (l\<lparr>start_ms := t\<rparr>) = loop_inv l"
  by (simp_all add: loop_inv_def timers_ok_def heaps_def events_ok_def)

lemma run_api_inv:
  assumes inv: "loop_inv l" and ok: "api_ok c R l x"
  obtains l' where "run_api cron x l = Some l'" "loop_inv l'" "keeps c R l l'"
proof (cases x)
  case (Timer_add a clk k t r)
  show thesis
  proof (cases "t = 0")
    case True
    then show thesis using Timer_add inv by (intro that [of l]) (simp_all add: htimer_add_def)
  next
    case False
    then show thesis using Timer_add ok htimer_add_inv [OF inv, of a t clk k r c R] that by auto
  qed
next
  case (Timer_add_period a k p r)
  show thesis
  proof (cases "minute p > 59 \<or> hour p > 23 \<or> day p > 31 \<or> week p > 6 \<or> month p > 12")
    case True
    then show thesis using Timer_add_period inv by (intro that [of l]) (simp_all add: htimer_add_period_def)
  next
    case False
    then show thesis using Timer_add_period ok htimer_add_period_inv [OF inv, of a p cron k r c R] that by auto
  qed
next
  case (Timer_reset a t)
  then obtain e where "events l a = Some e" using ok by auto
  then show thesis using Timer_reset ok htimer_reset_inv [OF inv, of a e R c t] that by auto
next
  case (Timer_del a)
  then obtain e where e: "events l a = Some e" "event_type e = HEVENT_TYPE_TIMEOUT \<or> event_type e = HEVENT_TYPE_PERIOD"
    "a \<in> R \<longrightarrow> pending e" using ok by (auto split: option.splits)
  obtain r where "event_type e = ttype r" using e(2) by (metis ttype_simps(1,2))
  with e have "events l a = Some e" "event_type e = ttype r" "a \<in> R \<Longrightarrow> pending e" by auto
  then show thesis using Timer_del htimer_del_inv [OF inv, of a e r R c] that by auto
next
  case (Idle_add a k r)
  then show thesis using ok hidle_add_inv [OF inv, of a k r c R] that by auto
next
  case (Idle_del a)
  then obtain e where "events l a = Some e" "event_type e = HEVENT_TYPE_IDLE" "a \<in> R \<longrightarrow> pending e"
    using ok by (auto split: option.splits)
  then show thesis using Idle_del hidle_del_inv [OF inv, of a e R c] that by auto
next
  case (Set_status s)
  have "loop_inv (l\<lparr>status := s\<rparr>)" "keeps c R l (l\<lparr>status := s\<rparr>)"
    using inv by (simp_all add: keeps_def)
  then show thesis using Set_status that by simp
qed

lemma run_apis_inv:
  assumes "loop_inv l" "apis_ok cron c R l xs"
  shows "\<exists>l'. run_apis cron xs l = Some l' \<and> loop_inv l' \<and> keeps c R l l'"
  using assms
proof (induction xs arbitrary: l)
  case (Cons x xs)
  then obtain l1 where l1: "run_api cron x l = Some l1" "loop_inv l1" "keeps c R l l1"
    using run_api_inv [of l c R x cron] by auto
  moreover have "apis_ok cron c R l1 xs" using Cons.prems(2) l1(1) by simp
  ultimately obtain l2 where "run_apis cron xs l1 = Some l2" "loop_inv l2" "keeps c R l1 l2"
    using Cons.IH by blast
  then show ?case using l1 keeps_trans by auto
qed simp


subsection \<open>The run of the pending events\<close>

text \<open>The events linked from \<open>p\<close> on.\<close>

fun chain :: "event_store \<Rightarrow> ptr \<Rightarrow> addr list \<Rightarrow> bool" where
  "chain m p [] \<longleftrightarrow> p = None"
| "chain m p (a # as) \<longleftrightarrow> p = Some a \<and> (\<exists>e. m a = Some e \<and> chain m (pending_next e) as)"

lemma chain_cong:
  assumes "chain m p as" "\<And>b e. b \<in> set as \<Longrightarrow> m b = Some e \<Longrightarrow> \<exists>e'. m' b = Some e' \<and> pending_next e' = pending_next e"
  shows "chain m' p as"
  using assms
proof (induction as arbitrary: p)
  case (Cons a as)
  then obtain e where e: "p = Some a" "m a = Some e" "chain m (pending_next e) as" by auto
  moreover obtain e' where "m' a = Some e'" "pending_next e' = pending_next e" using Cons.prems(2) e(2) by force
  moreover have "chain m' (pending_next e) as" using Cons e(3) by auto
  ultimately show ?case by auto
qed simp

text \<open>The state between the steps of the run: the events still to be run are linked and pending, and nothing
  else is pending.\<close>

definition to_run :: "hloop \<Rightarrow> addr list \<Rightarrow> bool" where
  "to_run l as \<longleftrightarrow> loop_inv l \<and> distinct as \<and> set as = pendset l"

text \<open>One event: it is no longer pending, or it has been freed; the rest is as it was.\<close>

definition stepped :: "addr \<Rightarrow> hloop \<Rightarrow> hloop \<Rightarrow> bool" where
  "stepped a l l' \<longleftrightarrow> self l' = self l \<and> pendings l' = pendings l \<and> pendset l' = pendset l - {a} \<and>
     (\<forall>b\<in>pendset l - {a}. \<forall>e. events l b = Some e \<longrightarrow> (\<exists>e'. events l' b = Some e' \<and> pending_next e' = pending_next e))"

lemma keepsD:
  assumes "keeps c R l l'"
  shows "b \<in> R \<Longrightarrow> events l b = Some e \<Longrightarrow>
      \<exists>e'. events l' b = Some e' \<and> pending_next e' = pending_next e \<and> (b \<noteq> c \<longrightarrow> pending e' = pending e)"
    and "pendset l' \<subseteq> pendset l" "self l' = self l" "pendings l' = pendings l" "calls l' = calls l"
  using assms unfolding keeps_def pendset_def by auto

lemma finish_inv:
  assumes inv: "loop_inv l" and e: "events l a = Some e"
  obtains l' where "(if destroy e then EVENT_DEL a (ev_update a (pending_update (\<lambda>_. False)) l)
      else Some (ev_update a (pending_update (\<lambda>_. False)) l)) = Some l'" "loop_inv l'"
    "self l' = self l" "pendings l' = pendings l" "\<And>b. b \<noteq> a \<Longrightarrow> events l' b = events l b"
    "\<And>e'. events l' a = Some e' \<Longrightarrow> \<not> pending e'" "calls l' = calls l"
proof -
  note inv' = loop_invD [OF inv] and eok = events_okD [OF loop_invD(4) [OF inv] e]
  let ?e = "e\<lparr>pending := False\<rparr>" let ?l = "ev_update a (pending_update (\<lambda>_. False)) l"
  have ev: "events ?l = (events l)(a \<mapsto> ?e)" using e by simp
  show thesis
  proof (cases "destroy e")
    case False
    have "timers_ok ?l" using e by (intro timers_ok_upd [OF inv'(1) e, of ?l ?e]) simp_all
    moreover have "idles_ok (events ?l) (self ?l) (links ?l) (nidles ?l)"
      using inv'(2) e by (simp add: idles_ok_same live_same)
    moreover have "actives_ok (events ?l) (nactives ?l)" using actives_ok_same(1) [OF inv'(3) e, of ?e] e by simp
    moreover have "events_ok ?l"
      using eok False e by (intro events_ok_upd [OF inv'(4), of ?l a ?e]) (simp_all add: event_ok_def)
    ultimately show thesis using False e by (intro that [of ?l]) (auto simp: loop_inv_def)
  next
    case True
    let ?n = "nactives l - (if active e then 1 else 0)"
    let ?l' = "l\<lparr>events := (events l)(a := None), nactives := ?n\<rparr>"
    have "EVENT_DEL a ?l = Some ?l'"
      using e by (simp add: EVENT_DEL_def EVENT_INACTIVE_def ev_update_def)
    moreover have "timers_ok ?l'" using True by (intro timers_ok_free [OF inv'(1) e]) (simp_all add: heap_of_def)
    moreover have "idles_ok (events ?l') (self ?l') (links ?l') (nidles ?l')"
      using inv'(2) e True live_same(4) [of "events l" a e] by (simp add: idles_ok_same)
    moreover have "actives_ok ((events l)(a \<mapsto> e\<lparr>active := False\<rparr>)) ?n"
      using actives_ok_leave [OF inv'(3), of a "e\<lparr>active := False\<rparr>"] actives_ok_same(1) [OF inv'(3) e, of "e\<lparr>active := False\<rparr>"] e
      by (simp add: in_actives)
    then have "actives_ok (events ?l') (nactives ?l')"
      using actives_ok_same(2) [of "(events l)(a \<mapsto> e\<lparr>active := False\<rparr>)" ?n a] by (simp add: actives_upd)
    moreover have "events_ok ?l'" by (intro events_ok_free [OF inv'(4), of ?l' a]) simp_all
    ultimately show thesis using True by (intro that [of ?l']) (auto simp: loop_inv_def)
  qed
qed

lemma process_pending_inv:
  assumes inv: "loop_inv l" and e: "events l a = Some e" "pending e" and cbs: "callbacks_ok cron cbs"
  obtains k l' where "process_pending cron cbs a l = Some (k, l')" "loop_inv l'" "stepped a l l'"
    "k = (if active e \<and> cb e \<noteq> None then 1 else 0)" "calls l' = (if active e \<and> cb e \<noteq> None then a # calls l else calls l)"
proof -
  have self: "ev_loop e = Some (self l)" using events_okD [OF loop_invD(4) [OF inv] e(1)] by simp
  let ?c = "if active e \<and> cb e \<noteq> None then a # calls l else calls l" let ?k = "if active e \<and> cb e \<noteq> None then 1 else 0 :: nat"
  let ?run = "case cb e of Some c \<Rightarrow> if active e
      then map_option (Pair 1) (run_apis cron (cbs c a l) (l\<lparr>calls := a # calls l\<rparr>)) else Some (0, l) | None \<Rightarrow> Some (0, l)"
  have inv_calls: "loop_inv (l\<lparr>calls := x\<rparr>)" for x using inv by simp
  have "\<exists>l1. ?run = Some (?k, l1) \<and> loop_inv l1 \<and> keeps a (pendset l) (l\<lparr>calls := ?c\<rparr>) l1"
  proof (cases "active e \<and> cb e \<noteq> None")
    case True
    then obtain c where c: "cb e = Some c" by auto
    then have "apis_ok cron a (pendset l) (l\<lparr>calls := a # calls l\<rparr>) (cbs c a l)"
      using cbs inv e True unfolding callbacks_ok_def by blast
    then obtain l1 where "run_apis cron (cbs c a l) (l\<lparr>calls := a # calls l\<rparr>) = Some l1" "loop_inv l1"
      "keeps a (pendset l) (l\<lparr>calls := a # calls l\<rparr>) l1"
      using run_apis_inv [OF inv_calls] by blast
    then show ?thesis using True c by simp
  next
    case False
    then show ?thesis using inv by (auto split: option.splits)
  qed
  then obtain l1 where l1: "?run = Some (?k, l1)" "loop_inv l1" "keeps a (pendset l) (l\<lparr>calls := ?c\<rparr>) l1" by blast
  have "a \<in> pendset l" using e by (auto simp: pendset_def)
  then obtain e1 where e1: "events l1 a = Some e1" using keepsD(1) [OF l1(3), of a e] e by auto
  obtain l' where l': "(if destroy e1 then EVENT_DEL a (ev_update a (pending_update (\<lambda>_. False)) l1)
      else Some (ev_update a (pending_update (\<lambda>_. False)) l1)) = Some l'" "loop_inv l'"
    "self l' = self l1" "pendings l' = pendings l1" "\<And>b. b \<noteq> a \<Longrightarrow> events l' b = events l1 b"
    "\<And>e'. events l' a = Some e' \<Longrightarrow> \<not> pending e'" "calls l' = calls l1"
    by (rule finish_inv [OF l1(2) e1]) blast
  have pp: "process_pending cron cbs a l = Some (?k, l')"
    using e self l1(1) e1 l'(1) by (simp add: process_pending_def)
  have kept: "\<exists>e'. events l' b = Some e' \<and> pending_next e' = pending_next x \<and> pending e' = pending x"
    if "b \<in> pendset l" "b \<noteq> a" "events l b = Some x" for b x
    using keepsD(1) [OF l1(3) that(1), of x] that l'(5) [OF that(2)] by auto
  have "b \<in> pendset l \<and> b \<noteq> a" if "b \<in> pendset l'" for b
  proof -
    have "b \<noteq> a" using that l'(6) by (auto simp: pendset_def)
    then have "b \<in> pendset l1" using that l'(5) [of b] by (simp add: pendset_def)
    then show ?thesis using keepsD(2) [OF l1(3)] \<open>b \<noteq> a\<close> by (auto simp: pendset_def)
  qed
  moreover have "b \<in> pendset l'" if "b \<in> pendset l" "b \<noteq> a" for b
    using kept [OF that] that(1) unfolding pendset_def by fastforce
  ultimately have "pendset l' = pendset l - {a}" by blast
  moreover have "\<exists>e'. events l' b = Some e' \<and> pending_next e' = pending_next x"
    if "b \<in> pendset l - {a}" "events l b = Some x" for b x using kept [of b x] that by auto
  ultimately have "stepped a l l'"
    using l'(3,4) keepsD(3,4) [OF l1(3)] unfolding stepped_def by simp
  moreover have "calls l' = ?c" using keepsD(5) [OF l1(3)] l'(7) by simp
  ultimately show thesis using l'(2) pp by (intro that [of ?k l']) auto
qed


lemma process_chain_inv:
  assumes "to_run l (as @ bs)" "chain (events l) p as" "callbacks_ok cron cbs"
  shows "\<exists>xs l'. process_chain cron cbs p l n = Some (n + length xs, l') \<and> to_run l' bs \<and>
     pendings l' = pendings l \<and> self l' = self l \<and> calls l' = rev xs @ calls l \<and> subseq xs as \<and>
     (\<forall>b\<in>set bs. \<forall>e. events l b = Some e \<longrightarrow> (\<exists>e'. events l' b = Some e' \<and> pending_next e' = pending_next e))"
  using assms
proof (induction as arbitrary: l p n)
  case Nil
  then show ?case by (auto simp: process_chain.simps intro!: exI [of _ "[]"])
next
  case (Cons a as)
  then obtain e where e: "p = Some a" "events l a = Some e" "chain (events l) (pending_next e) as" by auto
  have inv: "loop_inv l" and set: "set (a # as @ bs) = pendset l" "distinct (a # as @ bs)"
    using Cons.prems(1) by (auto simp: to_run_def)
  have "a \<in> pendset l" unfolding set(1) [symmetric] by simp
  then have "pending e" using e(2) by (auto simp: pendset_def)
  from process_pending_inv [OF inv e(2) this Cons.prems(3)] obtain k l1
    where l1: "process_pending cron cbs a l = Some (k, l1)" "loop_inv l1" "stepped a l l1"
      "k = (if active e \<and> cb e \<noteq> None then 1 else 0)" "calls l1 = (if active e \<and> cb e \<noteq> None then a # calls l else calls l)"
    by metis
  have keep: "\<exists>e'. events l1 b = Some e' \<and> pending_next e' = pending_next x"
    if b: "b \<in> set (as @ bs)" "events l b = Some x" for b x
  proof -
    have "b \<in> pendset l - {a}" using b(1) set(2) unfolding set(1) [symmetric] by auto
    then show ?thesis using l1(3) b(2) unfolding stepped_def by blast
  qed
  have "set (as @ bs) = pendset l1" using l1(3) set(2) unfolding stepped_def set(1) [symmetric] by auto
  then have "to_run l1 (as @ bs)" using l1(2) set(2) by (simp add: to_run_def)
  moreover have "chain (events l1) (pending_next e) as" using chain_cong [OF e(3)] keep by simp
  ultimately obtain xs l' where l': "process_chain cron cbs (pending_next e) l1 (n + k) = Some (n + k + length xs, l')" "to_run l' bs"
    "pendings l' = pendings l1" "self l' = self l1" "calls l' = rev xs @ calls l1" "subseq xs as"
    "\<And>b x. b \<in> set bs \<Longrightarrow> events l1 b = Some x \<Longrightarrow> \<exists>e'. events l' b = Some e' \<and> pending_next e' = pending_next x"
    using Cons.IH [of l1 "pending_next e" "n + k"] Cons.prems(3) by metis
  define ys where "ys = (if active e \<and> cb e \<noteq> None then a # xs else xs)"
  have ys: "length ys = k + length xs" "rev ys @ calls l = rev xs @ calls l1" "subseq ys (a # as)"
    using l1(4,5) l'(6) by (auto simp: ys_def)
  have "process_chain cron cbs p l n = Some (n + length ys, l')"
    using e l1(1) l'(1) ys(1) by (subst process_chain.simps) (simp add: add.assoc)
  moreover have "\<exists>e'. events l' b = Some e' \<and> pending_next e' = pending_next x" if "b \<in> set bs" "events l b = Some x" for b x
    using keep [of b x] l'(7) [of b] that by force
  moreover have "pendings l' = pendings l" "self l' = self l" using l' l1(3) by (simp_all add: stepped_def)
  ultimately show ?case using l'(2,5) ys(2,3) by (intro exI [of _ ys] exI [of _ l']) simp
qed

text \<open>The table of pending events holds the lists \<open>pss\<close>, one per priority.\<close>

definition pend_table :: "hloop \<Rightarrow> addr list list \<Rightarrow> bool" where
  "pend_table l pss \<longleftrightarrow> length pss = HEVENT_PRIORITY_SIZE \<and>
     (\<forall>i<HEVENT_PRIORITY_SIZE. chain (events l) (pendings l ! i) (pss ! i)) \<and> to_run l (concat (rev pss)) \<and>
     npendings l = of_nat (card (pendset l))"

lemma of_nat_u32_eq_0: "n < 2 ^ 32 \<Longrightarrow> (of_nat n :: u32) = 0 \<longleftrightarrow> n = 0"
  by (auto simp: word_of_nat_eq_0_iff dest: dvd_imp_le)

lemma to_run_length: "to_run l as \<Longrightarrow> length (pendings l) = HEVENT_PRIORITY_SIZE"
  by (simp add: to_run_def loop_inv_def events_ok_def)

lemma to_run_clear [simp]: "i < length (pendings l) \<Longrightarrow> to_run (l\<lparr>pendings := (pendings l)[i := None]\<rparr>) as = to_run l as"
  by (simp add: to_run_def loop_inv_def timers_ok_def heaps_def events_ok_def pendset_def)

lemma process_priorities_inv:
  assumes "to_run l (concat (rev (take i pss)))" "length pss = HEVENT_PRIORITY_SIZE" "i \<le> HEVENT_PRIORITY_SIZE"
    "\<And>j. j < i \<Longrightarrow> chain (events l) (pendings l ! j) (pss ! j)" "callbacks_ok cron cbs"
  shows "\<exists>xs l'. process_priorities cron cbs i l n = Some (n + length xs, l') \<and> to_run l' [] \<and> self l' = self l \<and>
     calls l' = rev xs @ calls l \<and> subseq xs (concat (rev (take i pss))) \<and>
     (\<forall>j<HEVENT_PRIORITY_SIZE. pendings l' ! j = (if j < i then None else pendings l ! j))"
  using assms
proof (induction i arbitrary: l n)
  case 0
  then show ?case by (auto intro!: exI [of _ "[]"])
next
  case (Suc i)
  let ?bs = "concat (rev (take i pss))"
  have i: "i < length pss" and split: "concat (rev (take (Suc i) pss)) = pss ! i @ ?bs"
    using Suc.prems(2,3) by (simp_all add: take_Suc_conv_app_nth)
  have c: "chain (events l) (pendings l ! i) (pss ! i)" using Suc.prems(4) by simp
  obtain xs l1 where l1: "process_chain cron cbs (pendings l ! i) l n = Some (n + length xs, l1)" "to_run l1 ?bs"
    "pendings l1 = pendings l" "self l1 = self l" "calls l1 = rev xs @ calls l" "subseq xs (pss ! i)"
    "\<forall>b\<in>set ?bs. \<forall>e. events l b = Some e \<longrightarrow> (\<exists>e'. events l1 b = Some e' \<and> pending_next e' = pending_next e)"
    using process_chain_inv [OF Suc.prems(1) [unfolded split] c Suc.prems(5), of n] by blast
  let ?l = "l1\<lparr>pendings := (pendings l1)[i := None]\<rparr>"
  have len: "i < length (pendings l1)" using to_run_length [OF l1(2)] i Suc.prems(2) by simp
  have "chain (events ?l) (pendings ?l ! j) (pss ! j)" if j: "j < i" for j
  proof -
    have "set (pss ! j) \<subseteq> set ?bs" using j i by (auto simp: in_set_conv_nth intro!: exI [of _ j])
    have "chain (events l1) (pendings l ! j) (pss ! j)"
    proof (rule chain_cong [of "events l"])
      show "chain (events l) (pendings l ! j) (pss ! j)" using j Suc.prems(4) by simp
      show "\<exists>e'. events l1 b = Some e' \<and> pending_next e' = pending_next e" if "b \<in> set (pss ! j)" "events l b = Some e" for b e
        using l1(7) that \<open>set (pss ! j) \<subseteq> set ?bs\<close> by (meson subsetD)
    qed
    then show ?thesis using j l1(3) by simp
  qed
  moreover have "to_run ?l ?bs" using l1(2) len by simp
  ultimately obtain ys l' where l': "process_priorities cron cbs i ?l (n + length xs) = Some (n + length xs + length ys, l')"
    "to_run l' []" "self l' = self ?l" "calls l' = rev ys @ calls ?l" "subseq ys ?bs"
    "\<forall>j<HEVENT_PRIORITY_SIZE. pendings l' ! j = (if j < i then None else pendings ?l ! j)"
    using Suc.IH [of ?l "n + length xs"] Suc.prems(2,3,5) by auto
  have "process_priorities cron cbs (Suc i) l n = Some (n + length (xs @ ys), l')"
    using l1(1) l'(1) by (simp add: add.assoc)
  moreover have "\<forall>j<HEVENT_PRIORITY_SIZE. pendings l' ! j = (if j < Suc i then None else pendings l ! j)"
    using l'(6) l1(3) len to_run_length [OF l1(2)] by (auto simp: nth_list_update less_Suc_eq)
  moreover have "calls l' = rev (xs @ ys) @ calls l" "self l' = self l" using l' l1 by simp_all
  moreover have "subseq (xs @ ys) (pss ! i @ ?bs)" using l1(6) l'(5) by (rule list_emb_append_mono)
  ultimately show ?case using l'(2) unfolding split by blast
qed

lemma hloop_process_pendings_inv:
  assumes tab: "pend_table l pss" and cbs: "callbacks_ok cron cbs" and few: "card (pendset l) < 2 ^ 32"
  shows "\<exists>xs l'. hloop_process_pendings cron cbs l = Some (length xs, l') \<and> loop_inv l' \<and> pendset l' = {} \<and>
     npendings l' = 0 \<and> calls l' = rev xs @ calls l \<and> subseq xs (concat (rev pss)) \<and>
     pendings l' = replicate HEVENT_PRIORITY_SIZE None \<and> self l' = self l"
proof (cases "npendings l = 0")
  case True
  have "finite (pendset l)" "pendset l = set (concat pss)"
    using tab by (auto simp: pend_table_def to_run_def dest: sym)
  then have "concat pss = []"
    using True tab of_nat_u32_eq_0 [OF few] by (simp add: pend_table_def del: set_concat)
  then have all: "pss ! i = []" if "i < HEVENT_PRIORITY_SIZE" for i using that tab by (auto simp: pend_table_def)
  then have "pendings l ! i = None" if "i < HEVENT_PRIORITY_SIZE" for i using that tab by (auto simp: pend_table_def)
  then have "pendings l = replicate HEVENT_PRIORITY_SIZE None"
    using to_run_length tab by (auto simp: pend_table_def list_eq_iff_nth_eq)
  moreover have e: "concat (rev pss) = []" using \<open>concat pss = []\<close> by auto
  then have "loop_inv l" "pendset l = {}" using tab unfolding pend_table_def to_run_def e by auto
  ultimately show ?thesis using True by (auto simp: hloop_process_pendings_def)
next
  case False
  have t: "take HEVENT_PRIORITY_SIZE pss = pss" using tab by (simp add: pend_table_def)
  obtain xs l1 where l1: "process_priorities cron cbs HEVENT_PRIORITY_SIZE l 0 = Some (length xs, l1)" "to_run l1 []"
    "calls l1 = rev xs @ calls l" "subseq xs (concat (rev pss))" "\<forall>j<HEVENT_PRIORITY_SIZE. pendings l1 ! j = None" "self l1 = self l"
    using process_priorities_inv [of l HEVENT_PRIORITY_SIZE pss cron cbs 0] tab cbs unfolding pend_table_def t by auto
  have "pendings l1 = replicate HEVENT_PRIORITY_SIZE None"
    using to_run_length [OF l1(2)] l1(5) by (auto simp: list_eq_iff_nth_eq)
  then show ?thesis
    using False l1 by (intro exI [of _ xs] exI [of _ "l1\<lparr>npendings := 0\<rparr>"])
      (auto simp: hloop_process_pendings_def to_run_def pendset_def)
qed


subsection \<open>Making events pending\<close>

lemma mset_concat_push:
  assumes "i < length pss"
  shows "mset (concat (rev (pss[i := a # pss ! i]))) = add_mset a (mset (concat (rev pss)))"
proof -
  have "pss = take i pss @ pss ! i # drop (Suc i) pss" using id_take_nth_drop [OF assms] .
  then have "mset (concat (rev pss)) = mset (concat (rev (take i pss @ pss ! i # drop (Suc i) pss)))" by simp
  then show ?thesis by (simp add: upd_conv_take_nth_drop [OF assms])
qed

text \<open>
  An event whose record was changed (\<open>e\<close> to \<open>e1\<close>, its place in the heaps and lists already adjusted, which
  makes \<open>l1\<close> of \<open>l\<close>) is made pending: the last step of the loops over timers and idles.
\<close>

lemma EVENT_PENDING_inv:
  assumes tab: "pend_table l pss" and e: "events l a = Some e"
    and l1: "timers_ok l1" "idles_ok (events l1) (self l1) (links l1) (nidles l1)" "actives_ok (events l1) (nactives l1)"
      "events l1 = (events l)(a \<mapsto> e1)" "self l1 = self l" "pendings l1 = pendings l" "npendings l1 = npendings l"
    and e1: "pending e1 = pending e" "pending_next e1 = pending_next e" "priority e1 = priority e" "ev_loop e1 = ev_loop e"
      "event_type e1 = event_type e" "timeout e1 = timeout e"
  obtains l' pss' e' where "EVENT_PENDING a l1 = Some l'" "pend_table l' pss'" "pendset l' = insert a (pendset l)"
    "events l' = (events l)(a \<mapsto> e')" "e' = e1\<lparr>pending := True, pending_next := pending_next e'\<rparr>"
    "self l' = self l" "calls l' = calls l1" "cur_hrtime l' = cur_hrtime l1"
    "nodes l' = nodes l1" "\<And>r. heap_of r l' = heap_of r l1"
    "start_ms l' = start_ms l1" "start_hrtime l' = start_hrtime l1" "links l' = links l1"
proof -
  have inv: "loop_inv l" and ch: "\<And>i. i < HEVENT_PRIORITY_SIZE \<Longrightarrow> chain (events l) (pendings l ! i) (pss ! i)"
    and lens: "length pss = HEVENT_PRIORITY_SIZE" "length (pendings l) = HEVENT_PRIORITY_SIZE"
    and dis: "distinct (concat (rev pss))" "set (concat (rev pss)) = pendset l" and np: "npendings l = of_nat (card (pendset l))"
    using tab to_run_length [of l "concat (rev pss)"] by (auto simp: pend_table_def to_run_def)
  note eok = events_okD [OF loop_invD(4) [OF inv] e]
  have e1a: "events l1 a = Some e1" using l1(4) by simp
  show thesis
  proof (cases "pending e")
    case True
    have "events_ok l1" using eok l1 e1 True
      by (intro events_ok_upd [OF loop_invD(4) [OF inv], of l1 a e1]) (auto simp: event_ok_def)
    then have inv1: "loop_inv l1" using l1 by (simp add: loop_inv_def)
    have ps: "pendset l1 = pendset l" using l1(4) e e1 True by (auto simp: pendset_def)
    have "chain (events l1) (pendings l1 ! i) (pss ! i)" if "i < HEVENT_PRIORITY_SIZE" for i
      using l1 e e1 by (intro chain_cong [of "events l", OF ch [OF that, folded l1(6)]]) auto
    then have "pend_table l1 pss" using inv1 ps dis lens l1 np by (simp add: pend_table_def to_run_def del: set_concat)
    moreover have "EVENT_PENDING a l1 = Some l1" using e1a e1 True by (simp add: EVENT_PENDING_def)
    moreover have "a \<in> pendset l" using e True by (auto simp: pendset_def)
    moreover have "e1 = e1\<lparr>pending := True, pending_next := pending_next e1\<rparr>" using True e1(1) by simp
    ultimately show thesis using l1 ps by (intro that [of l1 pss e1]) (auto simp: insert_absorb)
  next
    case False
    define i where "i = nat (HEVENT_PRIORITY_INDEX (priority e))"
    have i: "0 \<le> HEVENT_PRIORITY_INDEX (priority e)" "i < HEVENT_PRIORITY_SIZE"
      using eok(2) e1(3) by (auto simp: i_def event_ok_def HEVENT_PRIORITY_INDEX_def HEVENT_PRIORITY_SIZE_def
        HEVENT_LOWEST_PRIORITY_def HEVENT_HIGHEST_PRIORITY_def)
    define e' where "e' = e1\<lparr>pending := True, pending_next := pendings l ! i\<rparr>"
    define l' where "l' = l1\<lparr>events := (events l1)(a \<mapsto> e'), npendings := npendings l1 + 1, pendings := (pendings l1)[i := Some a]\<rparr>"
    let ?pss = "pss[i := a # pss ! i]"
    have step: "EVENT_PENDING a l1 = Some l'"
      using e1a e1 False i lens l1 by (simp add: EVENT_PENDING_def i_def [symmetric] l'_def e'_def ev_update_def Let_def)
    have ev: "events l' = (events l)(a \<mapsto> e')" using l1 by (simp add: l'_def)
    have heap: "heap_of r l' = heap_of r l1" for r by (simp add: l'_def heap_of_def)
    have "timers_ok l'" by (intro timers_ok_upd [OF l1(1) e1a, of l' e']) (simp_all add: l'_def e'_def heap_of_def)
    moreover have "idles_ok (events l') (self l') (links l') (nidles l')"
      using l1(2) live_same(1) [of "events l1" a e1, OF e1a, of e'] by (simp add: idles_ok_same l'_def e'_def)
    moreover have "actives_ok (events l') (nactives l')"
      using actives_ok_same(1) [OF l1(3) e1a, of e'] by (simp add: l'_def e'_def)
    moreover have "events_ok l'" using eok l1 e1 lens
      by (intro events_ok_upd [OF loop_invD(4) [OF inv], of l' a e']) (simp_all add: l'_def e'_def event_ok_def)
    ultimately have inv': "loop_inv l'" by (simp add: loop_inv_def)
    have a: "a \<notin> pendset l" using e False by (auto simp: pendset_def)
    have ps: "pendset l' = insert a (pendset l)" using ev e1 by (auto simp: pendset_def e'_def)
    have old: "chain (events l') (pendings l ! j) (pss ! j)" if j: "j < HEVENT_PRIORITY_SIZE" for j
    proof (rule chain_cong [OF ch [OF j]])
      fix b x assume b: "b \<in> set (pss ! j)" "events l b = Some x"
      moreover have "pss ! j \<in> set pss" using j lens(1) by simp
      ultimately have "b \<in> pendset l" unfolding dis(2) [symmetric] by (simp only: set_concat set_rev) blast
      then show "\<exists>y. events l' b = Some y \<and> pending_next y = pending_next x" using b a ev by auto
    qed
    have "chain (events l') (pendings l' ! j) (?pss ! j)" if j: "j < HEVENT_PRIORITY_SIZE" for j
      using old [OF j] i lens l1(6) ev j by (cases "j = i") (simp_all add: l'_def e'_def)
    moreover have m: "mset (concat (rev ?pss)) = mset (a # concat (rev pss))"
      using mset_concat_push [of i pss a] i(2) lens(1) by (simp only: mset.simps)
    have "distinct (a # concat (rev pss))" using dis a by (simp del: set_concat)
    then have "distinct (concat (rev ?pss))" by (simp only: mset_eq_imp_distinct_iff [OF m])
    moreover have "set (concat (rev ?pss)) = insert a (pendset l)"
      using mset_eq_setD [OF m] dis(2) by (simp only: list.simps(15))
    moreover have "finite (pendset l)" unfolding dis(2) [symmetric] by (rule finite_set)
    then have "npendings l' = of_nat (card (pendset l'))" unfolding ps using np a l1(7) by (simp add: l'_def)
    ultimately have "pend_table l' ?pss" using inv' ps lens by (simp add: pend_table_def to_run_def del: set_concat)
    then show thesis using step ps ev heap l1 by (intro that [of l' ?pss e']) (simp_all add: l'_def e'_def)
  qed
qed

end
