(* ===== verification/Event_Turn.thy ===== *)
theory Event_Turn
  imports Event_Run
begin

section \<open>A turn of the loop\<close>

text \<open>
  The loops that make events pending (\<open>hloop_process_timers\<close>, \<open>hloop_process_idles\<close>) and, with the run of the pending events
  of theory \<open>Event_Run\<close>, \<open>hloop_process_events\<close>: each returns, keeps the invariant, and makes pending
  exactly the events that are due.
\<close>


lemma catch_up_returns:
  assumes step: "step \<noteq> 0" and wrap: "unat now + unat step < 2 ^ 64"
  shows "\<exists>t'. catch_up now step t = Some t' \<and> now < t' \<and> (t \<le> now \<longrightarrow> unat t' \<le> unat now + unat step)"
proof (induction "Suc (unat now) - unat t" arbitrary: t rule: less_induct)
  case less
  show ?case
  proof (cases "t \<le> now")
    case True
    have "unat (t + step) = unat t + unat step"
      using True wrap by (intro unat_add_lem [THEN iffD1]) (auto simp: word_le_nat_alt)
    moreover have "0 < unat step" using step by (simp add: unat_gt_0)
    ultimately have "Suc (unat now) - unat (t + step) < Suc (unat now) - unat t" and u: "unat (t + step) \<le> unat now + unat step"
      using True by (auto simp: word_le_nat_alt)
    from less [OF this(1)] obtain t' where t': "catch_up now step (t + step) = Some t'" "now < t'"
      "t + step \<le> now \<longrightarrow> unat t' \<le> unat now + unat step" by blast
    have "unat t' \<le> unat now + unat step"
    proof (cases "t + step \<le> now")
      case False
      then show ?thesis using t'(1) u by (subst (asm) catch_up.simps) auto
    qed (use t'(3) in simp)
    then show ?thesis using True t' by (subst catch_up.simps) simp
  next
    case False
    then show ?thesis using False by (subst catch_up.simps) auto
  qed
qed

lemma INFINITE_pred: "(if x \<noteq> INFINITE then x - 1 else x) = 0 \<longleftrightarrow> x = 1" for x :: u32
  by (auto simp: INFINITE_def)

text \<open>The time a repeated timer is set to when it expires.\<close>

definition next_time :: "bool \<Rightarrow> (hperiod \<Rightarrow> u64) \<Rightarrow> u64 \<Rightarrow> hevent \<Rightarrow> u64 option" where
  "next_time r cron now e =
     (if r then Some (cron (period e) * 1000000) else catch_up now (ucast (timeout e) * 1000) (next_timeout e))"

lemma requeue_timer:
  assumes ok: "timers_ok l" and root: "root (heap_of r l) = Some a" and e: "events l a = Some e"
    and ty: "event_type e = ttype r" "\<not> destroy e"
  obtains l1 l3 where "on_heap r (\<lambda>h ns. heap_dequeue (events l) h ns) l = Some l1"
    "on_heap r (\<lambda>h ns. heap_insert (events (ev_update a (next_timeout_update (\<lambda>_. t)) l1)) h ns a)
       (ev_update a (next_timeout_update (\<lambda>_. t)) l1) = Some l3"
    "timers_ok l3" "events l3 = (events l)(a \<mapsto> e\<lparr>next_timeout := t\<rparr>)"
    "self l3 = self l" "pendings l3 = pendings l" "npendings l3 = npendings l" "calls l3 = calls l"
    "links l3 = links l" "nidles l3 = nidles l" "nactives l3 = nactives l"
proof -
  let ?Z = "live_timers (events l)" and ?e = "e\<lparr>next_timeout := t\<rparr>"
  have aZ: "a \<in> ?Z r" "a \<notin> ?Z (\<not> r)" using e ty by (auto simp: in_live_timers)
  note h = timers_okD(1) [OF ok]
  obtain l1 where l1: "on_heap r (\<lambda>h ns. heap_remove (events l) h ns a) l = Some l1" "off_heap l l1"
    "heaps l1 (?Z(r := ?Z r - {a}))" "nodes l1 a = null_node" "\<And>b. b \<notin> ?Z r \<Longrightarrow> nodes l1 b = nodes l b"
    using heaps_remove [OF h aZ(1)] by blast
  note o1 = off_heapD [OF l1(2)]
  define l2 where "l2 = l1\<lparr>events := (events l)(a \<mapsto> ?e)\<rparr>"
  have l2: "ev_update a (next_timeout_update (\<lambda>_. t)) l1 = l2" using o1 e by (simp add: ev_update_def l2_def)
  have "heaps l2 (?Z(r := ?Z r - {a}))"
    using aZ o1 by (intro heaps_same [OF l1(3)]) (auto simp: l2_def heap_of_def split: if_splits)
  then obtain l3 where l3: "on_heap r (\<lambda>h ns. heap_insert (events l2) h ns a) l2 = Some l3" "off_heap l2 l3"
    "heaps l3 ((?Z(r := ?Z r - {a}))(r := insert a ((?Z(r := ?Z r - {a})) r)))"
    "\<And>b. b \<notin> insert a ((?Z(r := ?Z r - {a})) r) \<Longrightarrow> nodes l3 b = nodes l2 b"
    using aZ l1(4) heaps_insert [of l2 "?Z(r := ?Z r - {a})" a r] by (auto simp: l2_def)
  note o3 = off_heapD [OF l3(2)]
  have ev3: "events l3 = (events l)(a \<mapsto> ?e)" using o3 by (simp add: l2_def)
  have "timers_ok l3"
  proof (rule timers_ok_reenter [OF ok e ty(1) ev3])
    show "heaps l3 (?Z(r := insert a (?Z r)))" using l3(3) by simp
    show "nodes l3 b = nodes l b" if "b \<notin> insert a (?Z r)" for b
      using that l3(4) [of b] l1(5) [of b] by (simp add: l2_def)
  qed (use ty o3 o1 in \<open>simp_all add: l2_def\<close>)
  then show thesis
    using l1(1) l3(1) ev3 o1 o3 heaps_dequeue [OF h root] unfolding l2 [symmetric]
    by (intro that [of l1 l3]) (simp_all add: l2 l2_def del: ev_update_simps(1))
qed

text \<open>The end of the work on an expired timer, after its new record \<open>e1\<close> is in or out of its heap.\<close>

lemma pend_timer:
  assumes tab: "pend_table l pss" and e: "events l a = Some e" "event_type e = ttype r"
    and l1: "timers_ok l1" "events l1 = (events l)(a \<mapsto> e1)" "self l1 = self l" "pendings l1 = pendings l"
      "npendings l1 = npendings l" "calls l1 = calls l" "links l1 = links l" "nidles l1 = nidles l" "nactives l1 = nactives l"
    and e1: "pending e1 = pending e" "pending_next e1 = pending_next e" "priority e1 = priority e" "ev_loop e1 = ev_loop e"
      "event_type e1 = event_type e" "timeout e1 = timeout e" "active e1 = active e"
  obtains l' pss' e' where "EVENT_PENDING a l1 = Some l'" "pend_table l' pss'" "pendset l' = insert a (pendset l)"
    "events l' = (events l)(a \<mapsto> e')" "event_type e' = event_type e" "destroy e' = destroy e1" "next_timeout e' = next_timeout e1"
    "self l' = self l" "calls l' = calls l"
proof -
  have inv: "loop_inv l" using tab by (simp add: pend_table_def to_run_def)
  note inv' = loop_invD [OF inv]
  have "idles_ok (events l1) (self l1) (links l1) (nidles l1)"
    unfolding l1 using e e1(5) by (intro idles_ok_same [OF _ inv'(2)] live_same(3) [of "events l" a e, OF e(1)]) simp_all
  moreover have "actives_ok (events l1) (nactives l1)"
    unfolding l1 using actives_ok_same(1) [OF inv'(3) e(1) e1(7)] .
  ultimately obtain l' pss' e' where l': "EVENT_PENDING a l1 = Some l'" "pend_table l' pss'" "pendset l' = insert a (pendset l)"
    "events l' = (events l)(a \<mapsto> e')" "e' = e1\<lparr>pending := True, pending_next := pending_next e'\<rparr>"
    "self l' = self l" "calls l' = calls l1"
    by (rule EVENT_PENDING_inv [OF tab e(1) l1(1) _ _ l1(2-5) e1(1-6)])
  moreover have "event_type e' = event_type e" "destroy e' = destroy e1" "next_timeout e' = next_timeout e1"
    using e1(5) by (subst l'(5), simp)+
  ultimately show thesis using l1 by (intro that [of l' pss' e']) simp_all
qed

lemma process_timer_inv:
  assumes tab: "pend_table l pss" and root: "root (heap_of r l) = Some a" and e: "events l a = Some e"
    and t: "next_time r cron now e = Some t"
  obtains l' pss' e' where "process_timer r cron now a l = Some l'" "pend_table l' pss'" "pendset l' = insert a (pendset l)"
    "events l' = (events l)(a \<mapsto> e')" "event_type e' = event_type e" "destroy e' \<or> next_timeout e' = t"
    "self l' = self l" "calls l' = calls l"
proof -
  have ok: "timers_ok l" using tab by (simp add: pend_table_def to_run_def loop_inv_def)
  have "a \<in> live_timers (events l) r" using heap_ok_root(3) [OF heapsD(1) [OF timers_okD(1) [OF ok]] root] by simp
  then have ty: "event_type e = ttype r" "\<not> destroy e" using e by (auto simp: in_live_timers)
  define e0 where "e0 = (if repeat e \<noteq> INFINITE then e\<lparr>repeat := repeat e - 1\<rparr> else e)"
  define l0 where "l0 = l\<lparr>events := (events l)(a \<mapsto> e0)\<rparr>"
  have l0: "ev_update a (\<lambda>e. if repeat e \<noteq> INFINITE then e\<lparr>repeat := repeat e - 1\<rparr> else e) l = l0"
    using e by (simp add: ev_update_def l0_def e0_def)
  have e0: "event_type e0 = ttype r" "\<not> destroy e0" "pending e0 = pending e" "pending_next e0 = pending_next e"
    "priority e0 = priority e" "ev_loop e0 = ev_loop e" "timeout e0 = timeout e" "period e0 = period e"
    "next_timeout e0 = next_timeout e" "active e0 = active e"
    using ty by (simp_all add: e0_def)
  have ok0: "timers_ok l0"
    using e0 ty by (intro timers_ok_upd [OF ok e, of l0 e0]) (simp_all add: l0_def heap_of_def)
  have ev0: "events l0 a = Some e0" by (simp add: l0_def)
  have root0: "root (heap_of r l0) = Some a" using root by (cases r) (simp_all add: l0_def heap_of_def)
  show thesis
  proof (cases "repeat e0 = 0")
    case True
    obtain l1 where l1: "htimer_del_node a l0 = Some l1" "timers_ok l1" "events l1 = (events l0)(a \<mapsto> e0\<lparr>destroy := True\<rparr>)"
      "self l1 = self l0" "pendings l1 = pendings l0" "npendings l1 = npendings l0" "calls l1 = calls l0"
      "links l1 = links l0" "nidles l1 = nidles l0" "nactives l1 = nactives l0"
      using htimer_del_node_eq [OF ok0 ev0 e0(1,2)] by blast
    show thesis
    proof (rule pend_timer [OF tab e ty(1) l1(2), of "e0\<lparr>destroy := True\<rparr>"])
      fix l' pss' e' assume "EVENT_PENDING a l1 = Some l'" "pend_table l' pss'" "pendset l' = insert a (pendset l)"
        "events l' = (events l)(a \<mapsto> e')" "event_type e' = event_type e" "destroy e' = destroy (e0\<lparr>destroy := True\<rparr>)"
        "self l' = self l" "calls l' = calls l"
      then show thesis using l0 ev0 True l1(1) by (intro that [of l' pss' e']) (simp_all add: process_timer_def)
    qed (use l1 e0 ty in \<open>simp_all add: l0_def\<close>)
  next
    case False
    obtain l1 l3 where l3: "on_heap r (\<lambda>h ns. heap_dequeue (events l0) h ns) l0 = Some l1"
      "on_heap r (\<lambda>h ns. heap_insert (events (ev_update a (next_timeout_update (\<lambda>_. t)) l1)) h ns a)
         (ev_update a (next_timeout_update (\<lambda>_. t)) l1) = Some l3"
      "timers_ok l3" "events l3 = (events l0)(a \<mapsto> e0\<lparr>next_timeout := t\<rparr>)"
      "self l3 = self l0" "pendings l3 = pendings l0" "npendings l3 = npendings l0" "calls l3 = calls l0"
      "links l3 = links l0" "nidles l3 = nidles l0" "nactives l3 = nactives l0"
      using requeue_timer [OF ok0 root0 ev0 e0(1,2)] by blast
    have "(if event_type e0 = HEVENT_TYPE_TIMEOUT then catch_up now (ucast (timeout e0) * 1000) (next_timeout e0)
           else if event_type e0 = HEVENT_TYPE_PERIOD then Some (cron (period e0) * 1000000) else Some (next_timeout e0)) = Some t"
      using t e0 by (cases r) (simp_all add: next_time_def)
    then have eq: "process_timer r cron now a l = EVENT_PENDING a l3"
      using l0 ev0 False l3(1,2) unfolding process_timer_def by (simp add: Let_def del: ev_update_simps(1))
    show thesis
    proof (rule pend_timer [OF tab e ty(1) l3(3), of "e0\<lparr>next_timeout := t\<rparr>"])
      fix l' pss' e' assume "EVENT_PENDING a l3 = Some l'" "pend_table l' pss'" "pendset l' = insert a (pendset l)"
        "events l' = (events l)(a \<mapsto> e')" "event_type e' = event_type e" "next_timeout e' = next_timeout (e0\<lparr>next_timeout := t\<rparr>)"
        "self l' = self l" "calls l' = calls l"
      then show thesis using eq by (intro that [of l' pss' e']) simp_all
    qed (use l3 e0 ty in \<open>simp_all add: l0_def\<close>)
  qed
qed

subsection \<open>All expired timers\<close>

definition expired :: "bool \<Rightarrow> u64 \<Rightarrow> event_store \<Rightarrow> addr set" where
  "expired r now m = {a \<in> live_timers m r. next_timeout (the (m a)) \<le> now}"

definition ticks :: "bool \<Rightarrow> (hperiod \<Rightarrow> u64) \<Rightarrow> u64 \<Rightarrow> event_store \<Rightarrow> bool" where
  "ticks r cron now m \<longleftrightarrow> (\<forall>a\<in>expired r now m. \<exists>t>now. next_time r cron now (the (m a)) = Some t)"

lemma expired_done:
  assumes "m a = Some e" "event_type e = ttype r" "event_type e' = ttype r" "destroy e' \<or> now < next_timeout e'"
  shows "expired r now (m(a \<mapsto> e')) = expired r now m - {a}"
  using assms by (auto simp: expired_def in_live_timers)

lemma process_timers_heap_inv:
  assumes "pend_table l pss" "ticks r cron now (events l)"
  shows "\<exists>l' pss'. process_timers_heap r cron now l n = Some (n + card (expired r now (events l)), l') \<and>
     pend_table l' pss' \<and> pendset l' = pendset l \<union> expired r now (events l) \<and> expired r now (events l') = {} \<and>
     self l' = self l \<and> calls l' = calls l \<and> (\<forall>b. b \<notin> expired r now (events l) \<longrightarrow> events l' b = events l b) \<and>
     (\<forall>b. map_option event_type (events l' b) = map_option event_type (events l b))"
  using assms
proof (induction "card (expired r now (events l))" arbitrary: l pss n rule: less_induct)
  case less
  let ?E = "expired r now (events l)"
  have ok: "timers_ok l" using less.prems(1) by (simp add: pend_table_def to_run_def loop_inv_def)
  note h = heapsD(1) [OF timers_okD(1) [OF ok], of r]
  have fin: "finite ?E" using timers_okD(2) [OF ok, of r] by (simp add: expired_def)
  show ?case
  proof (cases "?E = {}")
    case True
    have "process_timers_heap r cron now l n = Some (n, l)"
    proof (cases "root (heap_of r l)")
      case (Some a)
      then have a: "a \<in> live_timers (events l) r" using heap_ok_root(3) [OF h] by blast
      then obtain e where "events l a = Some e" by (auto simp: in_live_timers)
      moreover have "now < next_timeout e" using True a calculation by (auto simp: expired_def not_le)
      ultimately show ?thesis using Some by (subst process_timers_heap.simps) simp
    qed (simp add: process_timers_heap.simps)
    then show ?thesis using True less.prems(1) by auto
  next
    case False
    then obtain b where b: "b \<in> live_timers (events l) r" "next_timeout (the (events l b)) \<le> now" by (auto simp: expired_def)
    then obtain a where root: "root (heap_of r l) = Some a" using heap_ok_root(2) [OF h] by blast
    then have a: "a \<in> live_timers (events l) r" "next_timeout (the (events l a)) \<le> now"
      using heap_ok_root(3) [OF h root] b by (auto intro: order.trans)
    then obtain e where e: "events l a = Some e" "event_type e = ttype r" by (auto simp: in_live_timers)
    have aE: "a \<in> ?E" using a by (simp add: expired_def)
    then obtain t where t: "now < t" "next_time r cron now e = Some t"
      using less.prems(2) e by (auto simp: ticks_def)
    obtain l1 pss1 e1 where l1: "process_timer r cron now a l = Some l1" "pend_table l1 pss1" "pendset l1 = insert a (pendset l)"
      "events l1 = (events l)(a \<mapsto> e1)" "event_type e1 = event_type e" "destroy e1 \<or> next_timeout e1 = t"
      "self l1 = self l" "calls l1 = calls l"
      using process_timer_inv [OF less.prems(1) root e(1) t(2)] .
    have E1: "expired r now (events l1) = ?E - {a}"
      unfolding l1(4) using e l1(5,6) t by (intro expired_done) auto
    have "ticks r cron now (events l1)" using less.prems(2) E1 l1(4) by (simp add: ticks_def)
    moreover have card: "card ?E = Suc (card (expired r now (events l1)))" unfolding E1 using fin aE by (rule card_Suc_Diff1 [symmetric])
    ultimately obtain l' pss' where l': "process_timers_heap r cron now l1 (n + 1) = Some (n + card ?E, l')"
      "pend_table l' pss'" "pendset l' = pendset l1 \<union> (?E - {a})" "expired r now (events l') = {}" "self l' = self l1"
      "calls l' = calls l1" "\<forall>b. b \<notin> ?E - {a} \<longrightarrow> events l' b = events l1 b"
      "\<forall>b. map_option event_type (events l' b) = map_option event_type (events l1 b)"
      using less.hyps [of l1 pss1 "n + 1"] l1(2) unfolding E1 by auto
    have "process_timers_heap r cron now l n = Some (n + card ?E, l')"
      using root e a(2) l1(1) l'(1) by (subst process_timers_heap.simps) (simp add: not_less)
    moreover have "pendset l' = pendset l \<union> ?E" using l'(3) l1(3) aE by auto
    moreover have "\<forall>b. b \<notin> ?E \<longrightarrow> events l' b = events l b" using l'(7) l1(4) aE by auto
    moreover have "\<forall>b. map_option event_type (events l' b) = map_option event_type (events l b)" using l'(8) l1(4,5) e by simp
    ultimately show ?thesis using l' l1 by auto
  qed
qed


lemma ticks_timeout:
  assumes "loop_inv l" "unat now < 2 ^ 63"
  shows "ticks False cron now (events l)"
  unfolding ticks_def
proof
  fix a assume "a \<in> expired False now (events l)"
  then obtain e where e: "events l a = Some e" "event_type e = HEVENT_TYPE_TIMEOUT" by (auto simp: expired_def in_live_timers)
  let ?step = "ucast (timeout e) * 1000 :: u64"
  have "timeout e \<noteq> 0" using events_okD(2) [OF loop_invD(4) [OF assms(1)] e(1)] e(2) by (simp add: event_ok_def)
  moreover have lt: "unat (timeout e) < 2 ^ 32" using unsigned_less [of "timeout e"] by simp
  then have uc: "unat (ucast (timeout e) :: u64) = unat (timeout e)" by (simp add: unsigned_ucast_eq take_bit_nat_eq_self_iff)
  have u: "unat ?step = unat (timeout e) * 1000" using lt by (subst unat_mult_lem [THEN iffD1]) (simp_all add: uc)
  ultimately have "?step \<noteq> 0" by (metis mult_is_0 unat_eq_0 zero_neq_numeral)
  moreover have "unat now + unat ?step < 2 ^ 64" using assms(2) lt unfolding u by simp
  ultimately have "\<exists>t. catch_up now ?step (next_timeout e) = Some t \<and> now < t" using catch_up_returns by blast
  then show "\<exists>t>now. next_time False cron now (the (events l a)) = Some t" using e by (simp add: next_time_def) blast
qed

lemma ticks_cron: "(\<And>p. now < cron p * 1000000) \<Longrightarrow> ticks True cron now m"
  by (auto simp: ticks_def next_time_def)

lemma in_expired:
  "b \<in> expired r now m \<longleftrightarrow> (\<exists>e. m b = Some e \<and> event_type e = ttype r \<and> \<not> destroy e \<and> next_timeout e \<le> now)"
  by (auto simp: expired_def in_live_timers)

lemma expired_other:
  assumes "\<forall>b. b \<notin> expired (\<not> r) now' m \<longrightarrow> m' b = m b" "\<forall>b. map_option event_type (m' b) = map_option event_type (m b)"
  shows "expired r now m' = expired r now m"
proof -
  have "m b = m' b" if "b \<in> live_timers m r \<or> b \<in> live_timers m' r" for b
  proof -
    have "map_option event_type (m b) = Some (ttype r)" using that assms(2) [rule_format, of b]
      by (cases "m b") (auto simp: in_live_timers)
    then have "b \<notin> expired (\<not> r) now' m" by (auto simp: expired_def in_live_timers)
    then show ?thesis using assms(1) by simp
  qed
  then have "b \<in> expired r now m' \<longleftrightarrow> b \<in> expired r now m" for b
    by (cases "b \<in> live_timers m r \<or> b \<in> live_timers m' r") (simp add: in_expired, simp add: expired_def)
  then show ?thesis by blast
qed

lemma hloop_process_timers_inv:
  assumes tab: "pend_table l pss" and now: "unat (cur_hrtime l) < 2 ^ 63" and cron: "\<forall>p. hloop_now_us l < cron p * 1000000"
  defines "F \<equiv> expired False (cur_hrtime l) (events l)" and "T \<equiv> expired True (hloop_now_us l) (events l)"
  shows "\<exists>l' pss'. hloop_process_timers cron l = Some (card F + card T, l') \<and> pend_table l' pss' \<and>
     pendset l' = pendset l \<union> F \<union> T \<and> expired False (cur_hrtime l) (events l') = {} \<and>
     expired True (hloop_now_us l) (events l') = {} \<and> self l' = self l \<and> calls l' = calls l \<and>
     (\<forall>b. b \<notin> F \<union> T \<longrightarrow> events l' b = events l b) \<and>
     (\<forall>b. map_option event_type (events l' b) = map_option event_type (events l b))"
proof -
  have inv: "loop_inv l" using tab by (simp add: pend_table_def to_run_def)
  obtain l1 pss1 where l1: "process_timers_heap False cron (cur_hrtime l) l 0 = Some (card F, l1)" "pend_table l1 pss1"
    "pendset l1 = pendset l \<union> F" "expired False (cur_hrtime l) (events l1) = {}" "self l1 = self l" "calls l1 = calls l"
    and fr1: "\<forall>b. b \<notin> F \<longrightarrow> events l1 b = events l b" "\<forall>b. map_option event_type (events l1 b) = map_option event_type (events l b)"
    using process_timers_heap_inv [OF tab ticks_timeout [OF inv now], of cron 0] unfolding F_def by auto
  have T: "expired True (hloop_now_us l) (events l1) = T"
    unfolding T_def using fr1 by (intro expired_other [of True "cur_hrtime l"]) (simp_all add: F_def)
  have tk: "ticks True cron (hloop_now_us l) (events l1)" using cron by (intro ticks_cron) simp
  obtain l2 pss2 where l2: "process_timers_heap True cron (hloop_now_us l) l1 0 = Some (card T, l2)"
    "pend_table l2 pss2" "pendset l2 = pendset l1 \<union> T" "expired True (hloop_now_us l) (events l2) = {}"
    "self l2 = self l1" "calls l2 = calls l1" and fr2: "\<forall>b. b \<notin> T \<longrightarrow> events l2 b = events l1 b"
    "\<forall>b. map_option event_type (events l2 b) = map_option event_type (events l1 b)"
    using process_timers_heap_inv [OF l1(2) tk, of 0] unfolding T by auto
  have "expired False (cur_hrtime l) (events l2) = expired False (cur_hrtime l) (events l1)"
    using fr2 by (intro expired_other [of False "hloop_now_us l"]) (simp_all add: T)
  then show ?thesis using l1 l2 fr1 fr2
    by (intro exI [of _ l2] exI [of _ pss2]) (simp add: hloop_process_timers_def Let_def Un_assoc)
qed

subsection \<open>The idles\<close>

lemma process_idle_inv:
  assumes tab: "pend_table l pss" and lst: "list_rep (links l) (self l) (ys @ a # zs)" and S: "set (ys @ a # zs) = live (events l) HEVENT_TYPE_IDLE"
  obtains l' pss' ys' where "process_idle a l = Some l'" "pend_table l' pss'" "pendset l' = insert a (pendset l)"
    "list_rep (links l') (self l') (ys' @ zs)" "set (ys' @ zs) = live (events l') HEVENT_TYPE_IDLE"
    "self l' = self l" "calls l' = calls l" "\<forall>b. map_option event_type (events l' b) = map_option event_type (events l b)"
proof -
  have inv: "loop_inv l" using tab by (simp add: pend_table_def to_run_def)
  note inv' = loop_invD [OF inv]
  have aL: "a \<in> live (events l) HEVENT_TYPE_IDLE" using S by auto
  then obtain e where e: "events l a = Some e" "event_type e = HEVENT_TYPE_IDLE" "\<not> destroy e" by (auto simp: in_live)
  define e0 where "e0 = (if repeat e \<noteq> INFINITE then e\<lparr>repeat := repeat e - 1\<rparr> else e)"
  define d where "d \<longleftrightarrow> repeat e0 = 0"
  define e1 where "e1 = e0\<lparr>destroy := d\<rparr>"
  define l1 where "l1 = l\<lparr>events := (events l)(a \<mapsto> e1), links := (if d then list_del a (links l) else links l),
    nidles := (if d then nidles l - 1 else nidles l)\<rparr>"
  have e1: "pending e1 = pending e" "pending_next e1 = pending_next e" "priority e1 = priority e" "ev_loop e1 = ev_loop e"
    "event_type e1 = event_type e" "timeout e1 = timeout e" "active e1 = active e" "destroy e1 = d"
    by (simp_all add: e1_def e0_def)
  have "e1 = (if d then e0\<lparr>destroy := True\<rparr> else e0)" "\<not> destroy e0" using e(3) by (simp_all add: e1_def e0_def)
  moreover have "process_idle a l =
      do { l \<leftarrow> (if d then hidle_del_node a (l\<lparr>events := (events l)(a \<mapsto> e0)\<rparr>) else Some (l\<lparr>events := (events l)(a \<mapsto> e0)\<rparr>));
           EVENT_PENDING a l }"
    using e by (simp add: process_idle_def ev_update_def d_def e0_def)
  ultimately have step: "process_idle a l = EVENT_PENDING a l1"
    by (cases d) (simp_all add: hidle_del_node_def ev_update_def l1_def)
  define ys' where "ys' = (if d then ys else ys @ [a])"
  have dis: "distinct (ys @ a # zs)" using lst by (simp add: list_rep_def)
  have lst': "list_rep (links l1) (self l) (ys' @ zs)" using list_rep_del [OF lst] lst by (simp add: l1_def ys'_def)
  have S': "set (ys' @ zs) = live (events l1) HEVENT_TYPE_IDLE"
    using S dis e e1 by (auto simp: l1_def ys'_def live_upd)
  have "timers_ok l1"
  proof (rule timers_ok_same [OF inv'(1)])
    show "live_timers (events l1) = live_timers (events l)"
      using e e1 by (intro ext) (auto simp: l1_def live_timers_upd in_live_timers)
    show "next_timeout (the (events l1 b)) = next_timeout (the (events l b))" if "b \<in> live_timers (events l) r" for r b
      using that e by (auto simp: l1_def in_live_timers)
    show "nodes l1 b = null_node" if "events l1 b = Some x" "destroy x" "event_type x = ttype q" for b x q
      using that e e1 timers_okD(4) [OF inv'(1), of b x q] by (auto simp: l1_def split: if_splits)
  qed (simp_all add: l1_def heap_of_def)
  moreover have "nidles l1 = of_nat (card (live (events l1) HEVENT_TYPE_IDLE))"
  proof -
    have "card (live (events l) HEVENT_TYPE_IDLE) = Suc (card (live (events l) HEVENT_TYPE_IDLE - {a}))"
      using card_Suc_Diff1 [OF idles_ok_finite [OF inv'(2)] aL] by simp
    then show ?thesis using inv'(2) aL e e1 by (simp add: l1_def idles_ok_def live_upd insert_absorb)
  qed
  then have "idles_ok (events l1) (self l1) (links l1) (nidles l1)"
    using lst' S' unfolding idles_ok_def by (auto simp: l1_def)
  moreover have "actives_ok (events l1) (nactives l1)" using actives_ok_same(1) [OF inv'(3) e(1) e1(7)] by (simp add: l1_def)
  ultimately show thesis
  proof (rule EVENT_PENDING_inv [OF tab e(1), of l1 e1])
    fix l' pss' e' assume l': "EVENT_PENDING a l1 = Some l'" "pend_table l' pss'" "pendset l' = insert a (pendset l)"
      "events l' = (events l)(a \<mapsto> e')" "e' = e1\<lparr>pending := True, pending_next := pending_next e'\<rparr>"
      "self l' = self l" "calls l' = calls l1" "links l' = links l1"
    have e': "event_type e' = event_type e" "destroy e' = d" using e1 by (subst l'(5), simp)+
    have "live (events l') HEVENT_TYPE_IDLE = live (events l1) HEVENT_TYPE_IDLE"
      using e' e e1 l'(4) by (simp add: l1_def live_upd)
    then show thesis using l' step lst' S' e e' by (intro that [of l' pss' ys']) (auto simp: l1_def)
  qed (use e1 in \<open>simp_all add: l1_def\<close>)
qed

lemma process_idles_from_inv:
  assumes "pend_table l pss" "list_rep (links l) (self l) (ys @ zs)" "set (ys @ zs) = live (events l) HEVENT_TYPE_IDLE"
  shows "\<exists>l' pss'. process_idles_from (hd (zs @ [self l])) l n = Some (n + length zs, l') \<and> pend_table l' pss' \<and>
     pendset l' = pendset l \<union> set zs \<and> self l' = self l \<and> calls l' = calls l \<and>
     (\<forall>b. map_option event_type (events l' b) = map_option event_type (events l b))"
  using assms
proof (induction zs arbitrary: l pss ys n)
  case Nil
  then show ?case by (auto simp: process_idles_from.simps)
next
  case (Cons a zs)
  have ne: "a \<noteq> self l" using Cons.prems(2) by (auto simp: list_rep_def)
  have nxt: "ln_next (links l a) = hd (zs @ [self l])" using list_rep_next(1) [OF Cons.prems(2)] by simp
  obtain l1 pss1 ys1 where l1: "process_idle a l = Some l1" "pend_table l1 pss1" "pendset l1 = insert a (pendset l)"
    "list_rep (links l1) (self l1) (ys1 @ zs)" "set (ys1 @ zs) = live (events l1) HEVENT_TYPE_IDLE"
    "self l1 = self l" "calls l1 = calls l" "\<forall>b. map_option event_type (events l1 b) = map_option event_type (events l b)"
    using process_idle_inv [OF Cons.prems] .
  obtain l' pss' where l': "process_idles_from (hd (zs @ [self l])) l1 (n + 1) = Some (n + 1 + length zs, l')" "pend_table l' pss'"
     "pendset l' = pendset l1 \<union> set zs" "self l' = self l1" "calls l' = calls l1"
     "\<forall>b. map_option event_type (events l' b) = map_option event_type (events l1 b)"
    using Cons.IH [OF l1(2,4,5), of "n + 1"] l1(6) by auto
  have "process_idles_from a l n = Some (n + length (a # zs), l')"
    using ne l1(1) l'(1) by (subst process_idles_from.simps) (simp add: nxt Let_def)
  then show ?case using l' l1 by auto
qed

lemma hloop_process_idles_inv:
  assumes tab: "pend_table l pss"
  defines "S \<equiv> live (events l) HEVENT_TYPE_IDLE"
  shows "\<exists>l' pss'. hloop_process_idles l = Some (card S, l') \<and> pend_table l' pss' \<and> pendset l' = pendset l \<union> S \<and>
     self l' = self l \<and> calls l' = calls l \<and> (\<forall>b. map_option event_type (events l' b) = map_option event_type (events l b))"
proof -
  have "loop_inv l" using tab by (simp add: pend_table_def to_run_def)
  then obtain xs where xs: "list_rep (links l) (self l) xs" "set xs = S"
    by (auto simp: loop_inv_def idles_ok_def S_def)
  have "ln_next (links l (self l)) = hd (xs @ [self l])" using xs(1) dseg_ends unfolding list_rep_def by blast
  moreover have "length xs = card S" using xs by (metis distinct.simps(2) distinct_card list_rep_def)
  ultimately show ?thesis
    using process_idles_from_inv [OF tab, of "[]" xs 0] xs by (simp add: hloop_process_idles_def S_def)
qed


subsection \<open>A turn of the loop\<close>

lemma pend_table_other [simp]:
  "pend_table (l\<lparr>status := s\<rparr>) pss = pend_table l pss" "pend_table (l\<lparr>cur_hrtime := t\<rparr>) pss = pend_table l pss"
  "pend_table (l\<lparr>start_ms := t\<rparr>) pss = pend_table l pss"
  by (simp_all add: pend_table_def to_run_def pendset_def)

lemma hloop_update_time_simps [simp]:
  "pend_table (hloop_update_time c l) pss = pend_table l pss" "events (hloop_update_time c l) = events l"
  "cur_hrtime (hloop_update_time c l) = hrtime_us c" "self (hloop_update_time c l) = self l"
  "calls (hloop_update_time c l) = calls l" "status (hloop_update_time c l) = status l"
  "ntimers (hloop_update_time c l) = ntimers l" "nios (hloop_update_time c l) = nios l"
  by (simp_all add: hloop_update_time_def Let_def)

lemma pend_all_inv:
  assumes "pend_table l pss" "\<forall>a\<in>set as. events l a \<noteq> None"
  shows "\<exists>l' pss'. pend_all as l = Some l' \<and> pend_table l' pss' \<and> pendset l' = pendset l \<union> set as \<and>
    self l' = self l \<and> calls l' = calls l \<and> dom (events l') = dom (events l) \<and> cur_hrtime l' = cur_hrtime l \<and>
    start_ms l' = start_ms l \<and> start_hrtime l' = start_hrtime l"
  using assms
proof (induction as arbitrary: l pss)
  case (Cons a as)
  then obtain e where e: "events l a = Some e" by auto
  have inv: "loop_inv l" using Cons.prems(1) by (simp add: pend_table_def to_run_def)
  have "events l = (events l)(a \<mapsto> e)" using e by (simp add: fun_upd_idem)
  then obtain l1 pss1 e1 where l1: "EVENT_PENDING a l = Some l1" "pend_table l1 pss1" "pendset l1 = insert a (pendset l)"
    "events l1 = (events l)(a \<mapsto> e1)" "self l1 = self l" "calls l1 = calls l" "cur_hrtime l1 = cur_hrtime l"
    "start_ms l1 = start_ms l" "start_hrtime l1 = start_hrtime l"
    by (rule EVENT_PENDING_inv [OF Cons.prems(1) e loop_invD(1-3) [OF inv] _ refl refl refl refl refl refl refl refl refl])
  have "\<forall>b\<in>set as. events l1 b \<noteq> None" using Cons.prems(2) l1(4) by simp
  moreover have "dom (events l1) = dom (events l)" using l1(4) e by (auto simp: dom_def)
  moreover obtain l' pss' where "pend_all as l1 = Some l'" "pend_table l' pss'" "pendset l' = pendset l1 \<union> set as"
    "self l' = self l1" "calls l' = calls l1" "dom (events l') = dom (events l1)" "cur_hrtime l' = cur_hrtime l1"
    "start_ms l' = start_ms l1" "start_hrtime l' = start_hrtime l1"
    using Cons.IH [OF l1(2)] calculation(1) by blast
  ultimately show ?case using l1 by (intro exI [of _ l'] exI [of _ pss']) simp
qed auto

lemma pend_table_few:
  assumes "pend_table l pss" "finite (dom m)" "card (dom m) < 2 ^ 32" "\<forall>b. map_option event_type (events l b) = map_option event_type (m b)"
  shows "card (pendset l) < 2 ^ 32"
proof -
  have "events l b \<noteq> None \<longleftrightarrow> m b \<noteq> None" for b using assms(4) by (metis map_option_is_None)
  then have "pendset l \<subseteq> dom m" by (auto simp: pendset_def)
  then show ?thesis using card_mono [OF assms(2)] assms(3) by (meson order.strict_trans1)
qed

definition turn_ok :: "turn \<Rightarrow> hloop \<Rightarrow> bool" where
  "turn_ok t l \<longleftrightarrow> unat (cur_hrtime l) < 2 ^ 63 \<and> (\<forall>p. hloop_now_us l < cron_next t p * 1000000)"

text \<open>The events that a turn has to run: those pending before, the expired timers and, when there are none, the idles.\<close>

definition due :: "hloop \<Rightarrow> addr set" where
  "due l = (let S = pendset l \<union> expired False (cur_hrtime l) (events l) \<union> expired True (hloop_now_us l) (events l)
            in if S = {} then live (events l) HEVENT_TYPE_IDLE else S)"

definition few :: "event_store \<Rightarrow> bool" where
  "few m \<longleftrightarrow> finite (dom m) \<and> card (dom m) < 2 ^ 32"

lemma few_zero:
  assumes "few m" "S \<subseteq> dom m" "(of_nat (card S) :: u32) = 0"
  shows "S = {}"
proof -
  have "finite S" "card S < 2 ^ 32" using assms(1,2) card_mono [of "dom m" S] finite_subset [of S "dom m"] by (auto simp: few_def)
  then show ?thesis using of_nat_u32_eq_0 assms(3) by simp
qed

lemma no_timers:
  assumes ok: "timers_ok l" and "few (events l)" "ntimers l = 0"
  shows "live_timers (events l) r = {}"
proof -
  let ?Z = "live_timers (events l)"
  have "card (?Z False \<union> ?Z True) = card (?Z False) + card (?Z True)"
    using timers_okD(2) [OF ok] heapsD(2) [OF timers_okD(1) [OF ok], of False] by (simp add: card_Un_disjoint)
  then have "?Z False \<union> ?Z True = {}"
    using assms timers_okD(3) [OF ok] by (intro few_zero [OF assms(2)]) (auto simp: in_live_timers)
  then show ?thesis by (cases r) auto
qed

lemma few_same:
  assumes "few m" "\<forall>b. map_option event_type (m' b) = map_option event_type (m b)"
  shows "few m'"
proof -
  have "m' b \<noteq> None \<longleftrightarrow> m b \<noteq> None" for b using assms(2) by (metis map_option_is_None)
  then have "dom m' = dom m" by (auto simp: dom_def)
  then show ?thesis using assms(1) by (simp add: few_def)
qed

lemma few_pendset:
  assumes "few (events l)"
  shows "pend_table l pss \<Longrightarrow> npendings l = 0 \<longleftrightarrow> pendset l = {}" "card (pendset l) < 2 ^ 32"
proof -
  have sub: "pendset l \<subseteq> dom (events l)" by (auto simp: pendset_def)
  then show "card (pendset l) < 2 ^ 32" using assms card_mono [of "dom (events l)" "pendset l"] by (simp add: few_def)
  show "npendings l = 0 \<longleftrightarrow> pendset l = {}" if "pend_table l pss"
    using that few_zero [OF assms sub] by (auto simp: pend_table_def)
qed

lemma process_due_timers:
  assumes tab: "pend_table l pss" and ok: "turn_ok t l" and f: "few (events l)"
  shows "\<exists>l1 pss1. (if ntimers l \<noteq> 0 then map_option snd (hloop_process_timers (cron_next t) l) else Some l) = Some l1 \<and>
    pend_table l1 pss1 \<and> few (events l1) \<and> self l1 = self l \<and> calls l1 = calls l \<and>
    pendset l1 = pendset l \<union> expired False (cur_hrtime l) (events l) \<union> expired True (hloop_now_us l) (events l) \<and>
    (pendset l1 = {} \<longrightarrow> events l1 = events l)"
proof (cases "ntimers l = 0")
  case True
  have "timers_ok l" using tab by (simp add: pend_table_def to_run_def loop_inv_def)
  then have "live_timers (events l) r = {}" for r using no_timers f True by blast
  then show ?thesis using True tab f by (auto simp: expired_def)
next
  case False
  have *: "unat (cur_hrtime l) < 2 ^ 63" "\<forall>p. hloop_now_us l < cron_next t p * 1000000" using ok by (simp_all add: turn_ok_def)
  obtain n l1 pss1 where l1: "hloop_process_timers (cron_next t) l = Some (n, l1)" "pend_table l1 pss1"
    "pendset l1 = pendset l \<union> expired False (cur_hrtime l) (events l) \<union> expired True (hloop_now_us l) (events l)"
    "self l1 = self l" "calls l1 = calls l"
    and fr: "\<forall>b. b \<notin> expired False (cur_hrtime l) (events l) \<union> expired True (hloop_now_us l) (events l) \<longrightarrow> events l1 b = events l b"
      "\<forall>b. map_option event_type (events l1 b) = map_option event_type (events l b)"
    using hloop_process_timers_inv [OF tab *] by blast
  have "events l1 = events l" if "pendset l1 = {}" using that fr(1) l1(3) by (intro ext) simp
  then show ?thesis using False l1 few_same [OF f fr(2)] by (intro exI [of _ l1] exI [of _ pss1]) auto
qed

lemma process_due_idles:
  assumes tab: "pend_table l pss" and f: "few (events l)"
  shows "\<exists>l1 pss1. (if npendings l = 0 \<and> nidles l \<noteq> 0 then map_option snd (hloop_process_idles l) else Some l) = Some l1 \<and>
    pend_table l1 pss1 \<and> few (events l1) \<and> self l1 = self l \<and> calls l1 = calls l \<and>
    pendset l1 = (if pendset l = {} then live (events l) HEVENT_TYPE_IDLE else pendset l)"
proof (cases "npendings l = 0 \<and> nidles l \<noteq> 0")
  case True
  obtain n l1 pss1 where "hloop_process_idles l = Some (n, l1)" "pend_table l1 pss1"
    "pendset l1 = pendset l \<union> live (events l) HEVENT_TYPE_IDLE" "self l1 = self l" "calls l1 = calls l"
    "\<forall>b. map_option event_type (events l1 b) = map_option event_type (events l b)"
    using hloop_process_idles_inv [OF tab] by blast
  then show ?thesis
    using True few_pendset(1) [OF f tab] few_same [OF f] by (intro exI [of _ l1] exI [of _ pss1]) auto
next
  case False
  have "nidles l = of_nat (card (live (events l) HEVENT_TYPE_IDLE))"
    using tab by (simp add: pend_table_def to_run_def loop_inv_def idles_ok_def)
  then have "live (events l) HEVENT_TYPE_IDLE = {}" if "nidles l = 0"
    using that by (intro few_zero [OF f]) (auto simp: in_live)
  then show ?thesis using False tab f few_pendset(1) [OF f tab] by (intro exI [of _ l] exI [of _ pss]) auto
qed

lemma pend_table_empty:
  assumes "loop_inv l" "pendset l = {}" "npendings l = 0" "pendings l = replicate HEVENT_PRIORITY_SIZE None"
  shows "pend_table l (replicate HEVENT_PRIORITY_SIZE [])"
  using assms by (simp add: pend_table_def to_run_def)

lemma subseq_distinct: "subseq xs ys \<Longrightarrow> distinct ys \<Longrightarrow> distinct xs \<and> set xs \<subseteq> set ys"
  by (induction rule: list_emb.induct) auto

lemma process_ready_inv:
  assumes tab: "pend_table l pss" and ok: "turn_ok t l" and cbs: "callbacks_ok (cron_next t) cbs" and f: "few (events l)"
  shows "\<exists>xs l'. process_ready t cbs l = Some (length xs, l') \<and> pend_table l' (replicate HEVENT_PRIORITY_SIZE []) \<and>
    calls l' = rev xs @ calls l \<and> distinct xs \<and> set xs \<subseteq> due l \<and> self l' = self l"
proof -
  let ?S = "pendset l \<union> expired False (cur_hrtime l) (events l) \<union> expired True (hloop_now_us l) (events l)"
  obtain l1 pss1 where l1: "(if ntimers l \<noteq> 0 then map_option snd (hloop_process_timers (cron_next t) l) else Some l) = Some l1"
    "pend_table l1 pss1" "few (events l1)" "self l1 = self l" "calls l1 = calls l" "pendset l1 = ?S"
    "pendset l1 = {} \<longrightarrow> events l1 = events l"
    using process_due_timers [OF tab ok f] by blast
  obtain l2 pss2 where l2: "(if npendings l1 = 0 \<and> nidles l1 \<noteq> 0 then map_option snd (hloop_process_idles l1) else Some l1) = Some l2"
    "pend_table l2 pss2" "few (events l2)" "self l2 = self l1" "calls l2 = calls l1"
    "pendset l2 = (if pendset l1 = {} then live (events l1) HEVENT_TYPE_IDLE else pendset l1)"
    using process_due_idles [OF l1(2,3)] by blast
  have due: "pendset l2 = due l" using l1(6,7) l2(6) by (auto simp: due_def Let_def)
  have C: "distinct (concat (rev pss2))" "set (concat (rev pss2)) = due l"
    using l2(2) due by (simp_all add: pend_table_def to_run_def del: set_concat)
  obtain xs l3 where l3: "hloop_process_pendings (cron_next t) cbs l2 = Some (length xs, l3)" "loop_inv l3" "pendset l3 = {}"
    "npendings l3 = 0" "calls l3 = rev xs @ calls l2" "subseq xs (concat (rev pss2))" "pendings l3 = replicate HEVENT_PRIORITY_SIZE None"
    "self l3 = self l2"
    using hloop_process_pendings_inv [OF l2(2) cbs few_pendset(2) [OF l2(3)]] by blast
  have "process_ready t cbs l = Some (length xs, l3)"
    unfolding process_ready_def l1(1) using l2(1) l3(1) by simp
  moreover have "distinct xs" "set xs \<subseteq> due l"
    using subseq_distinct [OF l3(6) C(1)] C(2) by blast+
  ultimately show ?thesis using l1 l2 l3 pend_table_empty by (intro exI [of _ xs] exI [of _ l3]) simp
qed

lemma block_us_returns:
  assumes "loop_inv l" shows "\<exists>us'. block_us l us = Some us'"
proof -
  have "\<exists>e. events l a = Some e" if "root (heap_of r l) = Some a" for r a
    using heap_ok_root(3) [OF heapsD(1) [OF timers_okD(1) [OF loop_invD(1) [OF assms]]] that] by (auto simp: in_live_timers)
  from this [of False] this [of True] show ?thesis by (fastforce simp: block_us_def heap_of_def split: option.splits)
qed


lemma woken_simps [simp]:
  "pend_table (woken t l) pss = pend_table l pss" "events (woken t l) = events l" "calls (woken t l) = calls l"
  "self (woken t l) = self l" "turn_ok t (woken t l) = turn_ok t l"
  by (simp_all add: woken_def turn_ok_def hloop_now_us_def split: option.splits)

lemma turn_ok_cong:
  "start_ms l' = start_ms l \<Longrightarrow> start_hrtime l' = start_hrtime l \<Longrightarrow> cur_hrtime l' = cur_hrtime l \<Longrightarrow>
   turn_ok t (hloop_update_time c l') = turn_ok t (hloop_update_time c l)"
  by (simp add: turn_ok_def hloop_update_time_def hloop_now_us_def hloop_now_def Let_def)

lemma hloop_process_events_inv:
  fixes timeout_ms :: int
  defines "upd \<equiv> \<lambda>t l. if ntimers l \<noteq> 0 then hloop_update_time (clock1 t) l else l"
  assumes tab: "pend_table l pss" and f: "few (events l)" and ready: "\<forall>a\<in>set (ready t). events l a \<noteq> None"
    and cbs: "callbacks_ok (cron_next t) cbs" and ms: "\<bar>timeout_ms\<bar> < 2147483"
    and ok: "turn_ok t (upd t l)" "turn_ok t (hloop_update_time (clock2 t) (upd t l))"
  shows "\<exists>xs l' pss'. hloop_process_events t cbs timeout_ms l = Some (length xs, l') \<and> pend_table l' pss' \<and>
    calls l' = rev xs @ calls l \<and> distinct xs \<and> self l' = self l"
proof -
  define l1 where "l1 = upd t l"
  have l1: "pend_table l1 pss" "few (events l1)" "\<forall>a\<in>set (ready t). events l1 a \<noteq> None" "calls l1 = calls l" "self l1 = self l"
    using tab f ready by (simp_all add: l1_def upd_def)
  have mul: "mul_i32 timeout_ms 1000 = Some (timeout_ms * 1000)" using ms by (auto simp: mul_i32_def)
  have "loop_inv l1" using l1(1) by (simp add: pend_table_def to_run_def)
  then obtain us where us: "(if ntimers l1 \<noteq> 0 then do { us \<leftarrow> mul_i32 timeout_ms 1000; block_us l1 us } else Some 0) = Some us"
    using block_us_returns [of l1 "timeout_ms * 1000"] mul by (cases "ntimers l1 = 0") auto
  obtain l2 pss2 where l2: "(if nios l1 \<noteq> 0 then pend_all (ready t) l1 else Some l1) = Some l2" "pend_table l2 pss2"
    "calls l2 = calls l" "self l2 = self l" "dom (events l2) = dom (events l1)" "cur_hrtime l2 = cur_hrtime l1"
    "start_ms l2 = start_ms l1" "start_hrtime l2 = start_hrtime l1"
    using pend_all_inv [OF l1(1,3)] l1 by (cases "nios l1 = 0") (simp_all, blast)
  define l3 where "l3 = woken t (hloop_update_time (clock2 t) l2)"
  have l3: "pend_table l3 pss2" "few (events l3)" "calls l3 = calls l" "self l3 = self l"
    using l2 l1(2) by (simp_all add: l3_def few_def)
  have ok3: "turn_ok t l3" using ok(2) turn_ok_cong [OF l2(7,8,6)] by (simp add: l3_def l1_def)
  note run1 = process_ready_inv [OF l1(1) ok(1) [folded l1_def] cbs l1(2)]
  note run3 = process_ready_inv [OF l3(1) ok3 cbs l3(2)]
  have upd: "(if ntimers l \<noteq> 0 then hloop_update_time (clock1 t) l else l) = l1" by (simp add: l1_def upd_def)
  have eq: "hloop_process_events t cbs timeout_ms l = (if us < 0 then process_ready t cbs l1
      else if status l3 = HLOOP_STATUS_STOP then Some (0, l3) else process_ready t cbs l3)"
    unfolding hloop_process_events_def Let_def upd us l2(1) by (simp add: woken_def l3_def)
  show ?thesis
  proof (cases "us < 0")
    case True
    then show ?thesis unfolding eq using run1 l1 by simp blast
  next
    case False
    show ?thesis
    proof (cases "status l3 = HLOOP_STATUS_STOP")
      case True
      then show ?thesis unfolding eq using False l3 by (intro exI [of _ "[]"] exI [of _ l3] exI [of _ pss2]) simp
    next
      case F: False
      then show ?thesis unfolding eq using False run3 l3 by simp blast
    qed
  qed
qed


subsection \<open>Properties of the loop\<close>


definition at_us :: "u64 \<Rightarrow> clock" where
  "at_us t = \<lparr>hrtime_us = t, timeofday_ms = t div 1000, time_s = t div 1000000\<rparr>"

definition demo_turn :: "u64 \<Rightarrow> turn" where
  "demo_turn t = \<lparr>clock1 = at_us t, clock2 = at_us t, ready = [], cron_next = (\<lambda>_. 3600), wakeup_status = None\<rparr>"

text \<open>Evaluation of the loop on concrete states, by rewriting.\<close>

lemma bind_weak_cong: "m = m' \<Longrightarrow> Option.bind m f = Option.bind m' f"
  by simp

lemma process_priorities_numeral:
  "process_priorities cron cbs (numeral k) l n = do {
     (n, l) \<leftarrow> process_chain cron cbs (pendings l ! pred_numeral k) l n;
     process_priorities cron cbs (pred_numeral k) (l\<lparr>pendings := (pendings l)[pred_numeral k := None]\<rparr>) n }"
  by (simp add: numeral_eq_Suc)

lemmas heap_eval =
  heap_init_def heap_insert_def heap_remove_def heap_dequeue_def null_node_def timers_compare_def heap_path.simps heap_walk.simps
  sift_up.simps sift_down.simps sift_est_def set_parent_def set_left_def set_right_def set_parent_of_def relink_def
  heap_replace_def heap_swap_def on_heap_def heap_of_def

lemmas loop_eval =
  hloop_new_def hloop_init_def at_us_def list_init_def set_next_def set_prev_def HEVENT_PRIORITY_SIZE_def
  HEVENT_HIGHEST_PRIORITY_def HEVENT_LOWEST_PRIORITY_def HEVENT_PRIORITY_INDEX_def INFINITE_def
  htimer_add_def alloc_event_def zero_event_def hloop_update_time_def hloop_now_def hloop_now_us_def timeout_at_def
  EVENT_ADD_def EVENT_ACTIVE_def ev_update_def Let_def hloop_process_timers_def process_timers_heap.simps process_timer_def
  htimer_del_node_def EVENT_PENDING_def EVENT_DEL_def EVENT_INACTIVE_def EVENT_RESET_def htimer_reset_def htimer_del_def
  hloop_process_pendings_def process_chain.simps process_pending_def process_priorities_numeral

lemma hloop_new_inv: "loop_inv (hloop_new c a fs)" "pendset (hloop_new c a fs) = {}"
proof -
  have e: "events (hloop_new c a fs) = (\<lambda>_. None)" by (simp add: hloop_new_def hloop_init_def)
  have Z: "live_timers (\<lambda>_. None) r = {}" for r by (simp add: live_timers_def live_def)
  have "heap_ok (\<lambda>_. None) (heap_init (Some timers_compare)) ns {}" for ns
    unfolding heap_ok_def using heap_rep_init by (simp add: heap_init_def)
  then have "timers_ok (hloop_new c a fs)"
    unfolding timers_ok_def heaps_def e by (simp add: Z hloop_new_def hloop_init_def heap_of_def)
  moreover have "idles_ok (\<lambda>_. None) a (list_init a s) 0" for s
    unfolding idles_ok_def by (intro conjI exI [of _ "[]"]) (simp_all add: live_def)
  ultimately show "loop_inv (hloop_new c a fs)"
    by (simp add: loop_inv_def hloop_new_def hloop_init_def actives_ok_def actives_def events_ok_def HEVENT_PRIORITY_SIZE_def)
  show "pendset (hloop_new c a fs) = {}" by (simp add: pendset_def e)
qed

lemma no_callbacks_ok: "callbacks_ok cron (\<lambda>_ _ _. [])"
  by (simp add: callbacks_ok_def)

text \<open>
  C1: One turn of the loop (\<open>hloop_process_events\<close>: clock, timers, idles, pending events and their callbacks) always
  returns, dereferences no freed or null event, keeps the invariant of the loop and of its table of pending events, and calls
  no event's callback twice; for every state with the invariant, every set of ready events, every clock and all callbacks
  that follow the contract \<open>callbacks_ok\<close>.
\<close>

theorem hloop_process_events_safe:
  assumes "pend_table l pss" "few (events l)" "\<forall>a\<in>set (ready t). events l a \<noteq> None"
    and "callbacks_ok (cron_next t) cbs" "\<bar>timeout_ms\<bar> < 2147483"
    and "turn_ok t (if ntimers l \<noteq> 0 then hloop_update_time (clock1 t) l else l)"
      "turn_ok t (hloop_update_time (clock2 t) (if ntimers l \<noteq> 0 then hloop_update_time (clock1 t) l else l))"
  shows "\<exists>xs l' pss'. hloop_process_events t cbs timeout_ms l = Some (length xs, l') \<and> pend_table l' pss' \<and>
    calls l' = rev xs @ calls l \<and> distinct xs \<and> self l' = self l"
  using hloop_process_events_inv [OF assms] .

theorem hloop_process_events_safe_witness:
  "\<exists>(xs :: addr list) l'. do { (_, l) \<leftarrow> htimer_add 10 (at_us 1000) (Some 0) 10 1 (hloop_new (at_us 1000) 100 0);
                hloop_process_events (demo_turn 20000) (\<lambda>_ _ _. []) 100 l } = Some (length xs, l') \<and> loop_inv l' \<and> distinct xs"
proof -
  let ?l0 = "hloop_new (at_us 1000) 100 0" and ?t = "demo_turn 20000"
  have f: "events ?l0 10 = None" "10 \<noteq> self ?l0" and t: "(10 :: u32) \<noteq> 0" by (simp_all add: hloop_new_def hloop_init_def)
  obtain l1 e where l1: "htimer_add 10 (at_us 1000) (Some 0) 10 1 ?l0 = Some (Some 10, l1)" "loop_inv l1" "keeps 0 {} ?l0 l1"
    "events l1 = (events ?l0)(10 \<mapsto> e)" "\<not> pending e"
    by (rule htimer_add_inv [OF hloop_new_inv(1) f t])
  have ev: "events l1 = [10 \<mapsto> e]" using l1(4) by (simp add: hloop_new_def hloop_init_def)
  have pt: "pend_table l1 (replicate HEVENT_PRIORITY_SIZE [])"
    using l1(2,3,5) ev by (intro pend_table_empty) (auto simp: keeps_def pendset_def hloop_new_def hloop_init_def)
  have fw: "few (events l1)" by (simp add: ev few_def)
  have rd: "\<forall>a\<in>set (ready ?t). events l1 a \<noteq> None" and ms: "\<bar>100 :: int\<bar> < 2147483" by (simp_all add: demo_turn_def)
  have "map_option (\<lambda>(_, l). (start_ms l, start_hrtime l, ntimers l))
      (htimer_add 10 (at_us 1000) (Some 0) 10 1 ?l0) = Some (1, 1000, 1)"
    by (simp add: loop_eval heap_eval cong: bind_weak_cong)
  then have st: "start_ms l1 = 1" "start_hrtime l1 = 1000" "ntimers l1 = 1" using l1(1) by auto
  have ok: "turn_ok ?t (if ntimers l1 \<noteq> 0 then hloop_update_time (clock1 ?t) l1 else l1)"
     "turn_ok ?t (hloop_update_time (clock2 ?t) (if ntimers l1 \<noteq> 0 then hloop_update_time (clock1 ?t) l1 else l1))"
    by (simp_all add: turn_ok_def st hloop_now_us_def hloop_update_time_def hloop_now_def demo_turn_def at_us_def Let_def)
  from hloop_process_events_safe [OF pt fw rd no_callbacks_ok ms ok]
  obtain xs :: "addr list" and l' pss' where "hloop_process_events ?t (\<lambda>_ _ _. []) 100 l1 = Some (length xs, l')" "pend_table l' pss'" "distinct xs"
    by blast
  then show ?thesis using l1(1) by (auto simp: pend_table_def to_run_def)
qed




text \<open>
  C30: The loop that catches up a repeated timer (\<open>while (next_timeout <= timeout) next_timeout += timeout_us\<close>) ends, with a
  time after the current one and at most one period later, unless the period is zero or the sum wraps around.
\<close>

theorem catch_up_terminates:
  assumes "step \<noteq> 0" "unat now + unat step < 2 ^ 64" "t \<le> now"
  shows "\<exists>t'. catch_up now step t = Some t' \<and> now < t' \<and> unat t' \<le> unat now + unat step"
  using catch_up_returns [OF assms(1,2), of t] assms(3) by blast

theorem catch_up_terminates_witness:
  "\<exists>t'. catch_up 100 30 10 = Some t' \<and> 100 < t' \<and> unat t' \<le> 130"
  using catch_up_terminates [of 30 100 10] by simp



definition two_timers :: "hloop option" where
  "two_timers = do {
     (_, l) \<leftarrow> htimer_add 10 (at_us 1000) (Some 0) 10 1 (hloop_new (at_us 1000) 100 0);
     (_, l) \<leftarrow> htimer_add 20 (at_us 1000) (Some 0) 10 1 l;
     (_, l) \<leftarrow> hloop_process_timers (\<lambda>_. 3600) (hloop_update_time (at_us 20000) l);
     Some l }"


end
