(* ===== verification/Hv_Base64.thy ===== *)
theory Hv_Base64
  imports Prelude
begin

unbundle bit_operations_syntax

section \<open>Base64 (util/base64.c)\<close>

text \<open>
  Encoder and decoder over memory blocks: \<open>ins\<close> is the input, \<open>out\<close> the output buffer of the caller; a
  read or a write outside them is a failure (\<open>None\<close>).
\<close>

definition base64en :: "byte list" where
  "base64en =
    [65, 66, 67, 68, 69, 70, 71, 72,
     73, 74, 75, 76, 77, 78, 79, 80,
     81, 82, 83, 84, 85, 86, 87, 88,
     89, 90, 97, 98, 99, 100, 101, 102,
     103, 104, 105, 106, 107, 108, 109, 110,
     111, 112, 113, 114, 115, 116, 117, 118,
     119, 120, 121, 122, 48, 49, 50, 51,
     52, 53, 54, 55, 56, 57, 43, 47]"

definition base64de :: "int list" where
  "base64de =
    [62, -1, -1, -1, 63, 52, 53, 54,
     55, 56, 57, 58, 59, 60, 61, -1,
     -1, -1, -1, -1, -1, -1, 0, 1,
     2, 3, 4, 5, 6, 7, 8, 9,
     10, 11, 12, 13, 14, 15, 16, 17,
     18, 19, 20, 21, 22, 23, 24, 25,
     -1, -1, -1, -1, -1, -1, 26, 27,
     28, 29, 30, 31, 32, 33, 34, 35,
     36, 37, 38, 39, 40, 41, 42, 43,
     44, 45, 46, 47, 48, 49, 50, 51]"

definition BASE64_PAD :: byte where "BASE64_PAD = 61"

definition BASE64DE_FIRST :: byte where "BASE64DE_FIRST = 43"

definition BASE64DE_LAST :: byte where "BASE64DE_LAST = 122"

definition BASE64_ENCODE_OUT_SIZE :: "nat \<Rightarrow> nat" where
  "BASE64_ENCODE_OUT_SIZE s = (s + 2) div 3 * 4"

definition BASE64_DECODE_OUT_SIZE :: "nat \<Rightarrow> nat" where
  "BASE64_DECODE_OUT_SIZE s = (s + 3) div 4 * 3"

text \<open>A read of a memory block.\<close>

definition read_cell :: "'a list \<Rightarrow> nat \<Rightarrow> 'a option" where
  "read_cell m i = (if i < length m then Some (m ! i) else None)"

function base64_encode_loop :: "byte list \<Rightarrow> nat \<Rightarrow> nat \<Rightarrow> byte list \<Rightarrow> (nat \<times> byte list) option" where
  "base64_encode_loop ins i j out =
     (if i < length ins then
        (let x = unat (ins ! i) in
         if i mod 3 = 0 then do {
           out \<leftarrow> write_cell out j (base64en ! (drop_bit 2 x AND 0x3F));
           base64_encode_loop ins (i + 1) (j + 1) out }
         else do {
           p \<leftarrow> map_option unat (read_cell ins (i - 1));
           if i mod 3 = 1 then do {
             out \<leftarrow> write_cell out j (base64en ! (push_bit 4 (p AND 0x3) + (drop_bit 4 x AND 0xF)));
             base64_encode_loop ins (i + 1) (j + 1) out }
           else do {
             out \<leftarrow> write_cell out j (base64en ! (push_bit 2 (p AND 0xF) + (drop_bit 6 x AND 0x3)));
             out \<leftarrow> write_cell out (j + 1) (base64en ! (x AND 0x3F));
             base64_encode_loop ins (i + 1) (j + 2) out } })
      else Some (j, out))"
  by auto
termination by (relation "measure (\<lambda>(ins, i, j, out). length ins - i)") auto

declare base64_encode_loop.simps [simp del]

text \<open>\<open>i -= 1\<close> on an unsigned int.\<close>

definition hv_base64_encode :: "byte list \<Rightarrow> byte list \<Rightarrow> (nat \<times> byte list) option" where
  "hv_base64_encode ins out = do {
     (j, out) \<leftarrow> base64_encode_loop ins 0 0 out;
     let i = unat (of_nat (length ins) - 1 :: u32);
     if i mod 3 = 0 then do {
       x \<leftarrow> map_option unat (read_cell ins i);
       out \<leftarrow> write_cell out j (base64en ! push_bit 4 (x AND 0x3));
       out \<leftarrow> write_cell out (j + 1) BASE64_PAD;
       out \<leftarrow> write_cell out (j + 2) BASE64_PAD;
       Some (j + 3, out) }
     else if i mod 3 = 1 then do {
       x \<leftarrow> map_option unat (read_cell ins i);
       out \<leftarrow> write_cell out j (base64en ! push_bit 2 (x AND 0xF));
       out \<leftarrow> write_cell out (j + 1) BASE64_PAD;
       Some (j + 2, out) }
     else Some (j, out) }"

definition base64_code :: "byte \<Rightarrow> int" where
  "base64_code c = (if c < BASE64DE_FIRST \<or> c > BASE64DE_LAST then - 1 else base64de ! unat (c - BASE64DE_FIRST))"

text \<open>\<open>out[j] += v\<close>\<close>

definition add_cell :: "byte list \<Rightarrow> nat \<Rightarrow> byte \<Rightarrow> byte list option" where
  "add_cell out j v = do { o' \<leftarrow> read_cell out j; write_cell out j (o' + v) }"

text \<open>The tests \<open>i < (inlen - 3) || in[inlen - 2] != '='\<close> and \<open>i < (inlen - 2) || in[inlen - 1] != '='\<close>, on unsigned ints.\<close>

definition base64_more :: "byte list \<Rightarrow> nat \<Rightarrow> nat \<Rightarrow> bool option" where
  "base64_more ins i k =
     (if of_nat i < (of_nat (length ins) - of_nat k :: u32) then Some True
      else map_option (\<lambda>c. c \<noteq> BASE64_PAD) (read_cell ins (unat (of_nat (length ins) - of_nat (k - 1) :: u32))))"

function base64_decode_loop :: "byte list \<Rightarrow> nat \<Rightarrow> nat \<Rightarrow> byte list \<Rightarrow> (int \<times> byte list) option" where
  "base64_decode_loop ins i j out =
     (if i < length ins then
        (if ins ! i = BASE64_PAD then Some (int j, out)
         else if base64_code (ins ! i) = - 1 then Some (- 1, out)
         else (let c = nat (base64_code (ins ! i)) in
           if i mod 4 = 0 then do {
             out \<leftarrow> write_cell out j (of_nat (push_bit 2 c AND 0xFF));
             base64_decode_loop ins (i + 1) j out }
           else if i mod 4 = 1 then do {
             out \<leftarrow> add_cell out j (of_nat (drop_bit 4 c AND 0x3));
             more \<leftarrow> base64_more ins i 3;
             out \<leftarrow> (if more then write_cell out (j + 1) (of_nat (push_bit 4 (c AND 0xF))) else Some out);
             base64_decode_loop ins (i + 1) (j + 1) out }
           else if i mod 4 = 2 then do {
             out \<leftarrow> add_cell out j (of_nat (drop_bit 2 c AND 0xF));
             more \<leftarrow> base64_more ins i 2;
             out \<leftarrow> (if more then write_cell out (j + 1) (of_nat (push_bit 6 (c AND 0x3))) else Some out);
             base64_decode_loop ins (i + 1) (j + 1) out }
           else do {
             out \<leftarrow> add_cell out j (of_nat c);
             base64_decode_loop ins (i + 1) (j + 1) out }))
      else Some (int j, out))"
  by auto
termination by (relation "measure (\<lambda>(ins, i, j, out). length ins - i)") auto

declare base64_decode_loop.simps [simp del]

definition hv_base64_decode :: "byte list \<Rightarrow> byte list \<Rightarrow> (int \<times> byte list) option" where
  "hv_base64_decode ins out = base64_decode_loop ins 0 0 out"

subsection \<open>The decoder stays in its buffer\<close>

lemma unat_of_nat_u32: "n < 2 ^ 32 \<Longrightarrow> unat (of_nat n :: u32) = n"
  by (simp add: unsigned_of_nat take_bit_nat_eq_self)

lemma write_cell_Some [simp]: "i < length m \<Longrightarrow> write_cell m i v = Some (m[i := v])"
  by (simp add: write_cell_def)

lemma add_cell_Some [simp]: "i < length m \<Longrightarrow> add_cell m i v = Some (m[i := m ! i + v])"
  by (simp add: add_cell_def read_cell_def)

lemma base64_more_Some:
  assumes "i < length ins" "length ins < 2 ^ 32" "0 < i" "k = 2 \<or> k = 3" "Suc i \<ge> k - 1"
  shows "\<exists>b. base64_more ins i k = Some b"
proof (cases "k \<le> length ins")
  case True
  have "unat (of_nat (length ins) - of_nat (k - 1) :: u32) = length ins - (k - 1)"
    using True assms by (subst unat_sub) (auto simp: word_le_nat_alt unat_of_nat_u32)
  then show ?thesis using True assms by (auto simp: base64_more_def read_cell_def)
next
  case False
  then have "length ins = 2" "k = 3" "i = 1" using assms by auto
  then show ?thesis by (auto simp: base64_more_def read_cell_def)
qed

lemma BASE64_DECODE_OUT_SIZE_bounds:
  "i < n \<Longrightarrow> 3 * (i div 4) + 3 \<le> BASE64_DECODE_OUT_SIZE n" "3 * (n div 4) + (n mod 4 - 1) \<le> BASE64_DECODE_OUT_SIZE n"
proof -
  show "3 * (i div 4) + 3 \<le> BASE64_DECODE_OUT_SIZE n" if "i < n"
  proof -
    have "(i + 4) div 4 \<le> (n + 3) div 4" using that by (intro div_le_mono) simp
    then have "i div 4 + 1 \<le> (n + 3) div 4" by simp
    then show ?thesis unfolding BASE64_DECODE_OUT_SIZE_def by linarith
  qed
  have "n div 4 \<le> (n + 3) div 4" by (intro div_le_mono) simp
  moreover have "n div 4 + 1 \<le> (n + 3) div 4" if "n mod 4 \<noteq> 0"
  proof -
    have "4 * (n div 4) + 4 \<le> n + 3" using that mult_div_mod_eq [of 4 n] by linarith
    from div_le_mono [OF this, of 4] show ?thesis by simp
  qed
  moreover have "n mod 4 < 4" by simp
  ultimately show "3 * (n div 4) + (n mod 4 - 1) \<le> BASE64_DECODE_OUT_SIZE n"
    unfolding BASE64_DECODE_OUT_SIZE_def by (cases "n mod 4 = 0") (simp, linarith)
qed

text \<open>One turn of the loop when the buffer is large enough.\<close>

lemma base64_decode_step:
  assumes "i < length ins" "j < length out" "i mod 4 = 1 \<or> i mod 4 = 2 \<longrightarrow> j + 1 < length out"
  shows "base64_decode_loop ins i j out =
     (if ins ! i = BASE64_PAD then Some (int j, out) else if base64_code (ins ! i) = - 1 then Some (- 1, out) else
      if i mod 4 = 0 then base64_decode_loop ins (Suc i) j (out[j := of_nat (push_bit 2 (nat (base64_code (ins ! i))) AND 0xFF)])
      else if i mod 4 = 1 then do { more \<leftarrow> base64_more ins i 3;
        base64_decode_loop ins (Suc i) (j + 1) (let o' = out[j := out ! j + of_nat (drop_bit 4 (nat (base64_code (ins ! i))) AND 0x3)]
          in if more then o'[j + 1 := of_nat (push_bit 4 (nat (base64_code (ins ! i)) AND 0xF))] else o') }
      else if i mod 4 = 2 then do { more \<leftarrow> base64_more ins i 2;
        base64_decode_loop ins (Suc i) (j + 1) (let o' = out[j := out ! j + of_nat (drop_bit 2 (nat (base64_code (ins ! i))) AND 0xF)]
          in if more then o'[j + 1 := of_nat (push_bit 6 (nat (base64_code (ins ! i)) AND 0x3))] else o') }
      else base64_decode_loop ins (Suc i) (j + 1) (out[j := out ! j + of_nat (nat (base64_code (ins ! i)))]))"
  using assms by (subst base64_decode_loop.simps) (auto simp: Let_def intro!: Option.bind_cong)

lemma base64_decode_loop_safe:
  assumes "length ins < 2 ^ 32" "i \<le> length ins" "j = 3 * (i div 4) + (i mod 4 - 1)" "BASE64_DECODE_OUT_SIZE (length ins) \<le> length out"
  shows "\<exists>n out'. base64_decode_loop ins i j out = Some (n, out') \<and> length out' = length out \<and>
    - 1 \<le> n \<and> n \<le> int (BASE64_DECODE_OUT_SIZE (length ins))"
  using assms
proof (induction "length ins - i" arbitrary: i j out)
  case 0
  have "j \<le> BASE64_DECODE_OUT_SIZE (length ins)" using 0 BASE64_DECODE_OUT_SIZE_bounds(2) [of "length ins"] by simp
  then show ?case using 0 by (subst base64_decode_loop.simps) simp
next
  case (Suc k)
  have i: "i < length ins" "k = length ins - Suc i" using Suc.hyps(2) by auto
  have lt: "3 * (i div 4) + 3 \<le> BASE64_DECODE_OUT_SIZE (length ins)"
    using BASE64_DECODE_OUT_SIZE_bounds(1) [OF i(1)] .
  have j: "i mod 4 = 0 \<Longrightarrow> j = 3 * (i div 4)" "i mod 4 = 1 \<Longrightarrow> j = 3 * (i div 4)" "i mod 4 = 2 \<Longrightarrow> j = 3 * (i div 4) + 1"
    "i mod 4 = 3 \<Longrightarrow> j = 3 * (i div 4) + 2" using Suc.prems(3) by auto
  have jl: "j < length out" "i mod 4 = 1 \<or> i mod 4 = 2 \<longrightarrow> j + 1 < length out"
    using lt Suc.prems(3,4) pos_mod_bound [of 4 "int i"] by linarith+
  have IH: "\<exists>n out'. base64_decode_loop ins (Suc i) j' o' = Some (n, out') \<and> length out' = length out \<and>
      - 1 \<le> n \<and> n \<le> int (BASE64_DECODE_OUT_SIZE (length ins))"
    if "j' = 3 * (Suc i div 4) + (Suc i mod 4 - 1)" "length o' = length out" for j' o'
    using Suc.hyps(1) [OF i(2) Suc.prems(1) _ that(1), of o'] i(1) Suc.prems(4) that(2) by auto
  note step = base64_decode_step [OF i(1) jl]
  have jn: "int j \<le> int (BASE64_DECODE_OUT_SIZE (length ins))"
    using lt Suc.prems(3) pos_mod_bound [of 4 "int i"] by linarith
  have next0: "i mod 4 = 0 \<Longrightarrow> j = 3 * (Suc i div 4) + (Suc i mod 4 - 1)"
    and next1: "i mod 4 \<noteq> 0 \<Longrightarrow> j + 1 = 3 * (Suc i div 4) + (Suc i mod 4 - 1)"
    using Suc.prems(3) by (auto simp: mod_Suc div_Suc)
  have more: "i mod 4 = 1 \<Longrightarrow> \<exists>b. base64_more ins i 3 = Some b" "i mod 4 = 2 \<Longrightarrow> \<exists>b. base64_more ins i 2 = Some b"
    using base64_more_Some [of i ins] i(1) Suc.prems(1) by (cases i; simp)+
  show ?case
  proof (cases "ins ! i = BASE64_PAD \<or> base64_code (ins ! i) = - 1")
    case True
    then show ?thesis unfolding step using jn by auto
  next
    case False
    consider "i mod 4 = 0" | "i mod 4 = 1" | "i mod 4 = 2" | "i mod 4 = 3" by linarith
    then show ?thesis
    proof cases
      case 1 then show ?thesis unfolding step using False IH [OF next0] by simp
    next
      case 2 then show ?thesis unfolding step using False more(1) IH [OF next1] by (auto simp: Let_def)
    next
      case 3 then show ?thesis unfolding step using False more(2) IH [OF next1] by (auto simp: Let_def)
    next
      case 4 then show ?thesis unfolding step using False IH [OF next1] by simp
    qed
  qed
qed


subsection \<open>The encoder, and the round trip\<close>

text \<open>The encoding of RFC 4648, three bytes at a time.\<close>

definition en64 :: "nat \<Rightarrow> byte" where "en64 k = base64en ! k"

fun base64_spec :: "byte list \<Rightarrow> byte list" where
  "base64_spec [] = []"
| "base64_spec [a] = [en64 (unat a div 4), en64 (unat a mod 4 * 16), BASE64_PAD, BASE64_PAD]"
| "base64_spec [a, b] =
     [en64 (unat a div 4), en64 (unat a mod 4 * 16 + unat b div 16), en64 (unat b mod 16 * 4), BASE64_PAD]"
| "base64_spec (a # b # c # xs) =
     en64 (unat a div 4) # en64 (unat a mod 4 * 16 + unat b div 16) # en64 (unat b mod 16 * 4 + unat c div 64) #
     en64 (unat c mod 64) # base64_spec xs"

text \<open>What the loop has written when it leaves the last block: the encoding without the final digit and the padding.\<close>

fun base64_body :: "byte list \<Rightarrow> byte list" where
  "base64_body (a # b # c # xs) = take 4 (base64_spec (a # b # c # xs)) @ base64_body xs"
| "base64_body [a, b] = [en64 (unat a div 4), en64 (unat a mod 4 * 16 + unat b div 16)]"
| "base64_body [a] = [en64 (unat a div 4)]"
| "base64_body [] = []"

lemma and_mask_nat: "x AND 0x3 = x mod 4" "x AND 0xF = x mod 16" "x AND 0x3F = x mod 64" "x AND 0xFF = x mod 256" for x :: nat
  using take_bit_eq_mask [of 2 x] take_bit_eq_mask [of 4 x] take_bit_eq_mask [of 6 x] take_bit_eq_mask [of 8 x]
  by (simp_all add: take_bit_eq_mod mask_eq_exp_minus_1)

lemma byte_div: "unat (a :: byte) div 4 mod 64 = unat a div 4" "unat a div 16 mod 16 = unat a div 16" "unat a div 64 mod 4 = unat a div 64"
proof -
  have l: "unat a < 256" using unsigned_less [of a] by simp
  have "unat a div 4 < 64" "unat a div 16 < 16" "unat a div 64 < 4" using l by (auto intro: less_mult_imp_div_less)
  then show "unat a div 4 mod 64 = unat a div 4" "unat a div 16 mod 16 = unat a div 16" "unat a div 64 mod 4 = unat a div 64"
    by simp_all
qed

lemmas bits_nat = and_mask_nat drop_bit_eq_div push_bit_eq_mult byte_div en64_def [symmetric]

lemma write_cell_append [simp]:
  "write_cell (xs @ y # ys) (length xs) v = Some (xs @ v # ys)"
  "write_cell (xs @ y # z # ys) (Suc (length xs)) v = Some (xs @ y # v # ys)"
  "write_cell (xs @ y # z # w # ys) (Suc (Suc (length xs))) v = Some (xs @ y # z # v # ys)"
  by (simp_all add: write_cell_def list_update_append)

lemma read_cell_simps [simp]:
  "read_cell (xs @ y # ys) (length xs) = Some y" "read_cell (xs @ y # z # ys) (Suc (length xs)) = Some z"
  by (simp_all add: read_cell_def nth_append)

lemma base64_encode_steps:
  assumes i: "i < length ins"
  shows "i mod 3 = 0 \<Longrightarrow> j < length out \<Longrightarrow> base64_encode_loop ins i j out =
     base64_encode_loop ins (Suc i) (Suc j) (out[j := en64 (unat (ins ! i) div 4)])"
  "i mod 3 = 1 \<Longrightarrow> j < length out \<Longrightarrow> base64_encode_loop ins i j out =
     base64_encode_loop ins (Suc i) (Suc j) (out[j := en64 (unat (ins ! (i - 1)) mod 4 * 16 + unat (ins ! i) div 16)])"
  "i mod 3 = 2 \<Longrightarrow> Suc j < length out \<Longrightarrow> base64_encode_loop ins i j out =
     base64_encode_loop ins (Suc i) (Suc (Suc j))
       (out[j := en64 (unat (ins ! (i - 1)) mod 16 * 4 + unat (ins ! i) div 64), Suc j := en64 (unat (ins ! i) mod 64)])"
proof -
  have r: "read_cell ins (i - 1) = Some (ins ! (i - 1))" using i by (simp add: read_cell_def)
  show "i mod 3 = 0 \<Longrightarrow> j < length out \<Longrightarrow> base64_encode_loop ins i j out =
     base64_encode_loop ins (Suc i) (Suc j) (out[j := en64 (unat (ins ! i) div 4)])"
    by (subst base64_encode_loop.simps) (simp add: i bits_nat Let_def)
  show "i mod 3 = 1 \<Longrightarrow> j < length out \<Longrightarrow> base64_encode_loop ins i j out =
     base64_encode_loop ins (Suc i) (Suc j) (out[j := en64 (unat (ins ! (i - 1)) mod 4 * 16 + unat (ins ! i) div 16)])"
    by (subst base64_encode_loop.simps) (simp add: i r [simplified] bits_nat Let_def)
  show "i mod 3 = 2 \<Longrightarrow> Suc j < length out \<Longrightarrow> base64_encode_loop ins i j out =
     base64_encode_loop ins (Suc i) (Suc (Suc j))
       (out[j := en64 (unat (ins ! (i - 1)) mod 16 * 4 + unat (ins ! i) div 64), Suc j := en64 (unat (ins ! i) mod 64)])"
    by (subst base64_encode_loop.simps) (simp add: i r [simplified] bits_nat Let_def)
qed

lemma base64_encode_done: "i = length ins \<Longrightarrow> base64_encode_loop ins i j out = Some (j, out)"
  by (subst base64_encode_loop.simps) simp

lemma base64_encode_unroll:
  assumes "length ps mod 3 = 0"
  shows "base64_encode_loop (ps @ [a]) (length ps) (length out) (out @ u # buf) =
      Some (Suc (length out), out @ en64 (unat a div 4) # buf)"
    "base64_encode_loop (ps @ [a, b]) (length ps) (length out) (out @ u # v # buf) =
      Some (Suc (Suc (length out)), out @ en64 (unat a div 4) # en64 (unat a mod 4 * 16 + unat b div 16) # buf)"
    "base64_encode_loop (ps @ a # b # c # ys) (length ps) (length out) (out @ u # v # w # x # buf) =
      base64_encode_loop (ps @ a # b # c # ys) (Suc (Suc (Suc (length ps)))) (Suc (Suc (Suc (Suc (length out)))))
        (out @ en64 (unat a div 4) # en64 (unat a mod 4 * 16 + unat b div 16) # en64 (unat b mod 16 * 4 + unat c div 64) #
          en64 (unat c mod 64) # buf)"
proof -
  have m: "Suc (length ps) mod 3 = 1" "Suc (Suc (length ps)) mod 3 = 2" using assms by (simp_all add: mod_Suc)
  note simps = base64_encode_steps base64_encode_done list_update_append nth_append assms m
  show "base64_encode_loop (ps @ [a]) (length ps) (length out) (out @ u # buf) =
      Some (Suc (length out), out @ en64 (unat a div 4) # buf)"
    "base64_encode_loop (ps @ [a, b]) (length ps) (length out) (out @ u # v # buf) =
      Some (Suc (Suc (length out)), out @ en64 (unat a div 4) # en64 (unat a mod 4 * 16 + unat b div 16) # buf)"
    by (simp_all add: simps)
  show "base64_encode_loop (ps @ a # b # c # ys) (length ps) (length out) (out @ u # v # w # x # buf) =
      base64_encode_loop (ps @ a # b # c # ys) (Suc (Suc (Suc (length ps)))) (Suc (Suc (Suc (Suc (length out)))))
        (out @ en64 (unat a div 4) # en64 (unat a mod 4 * 16 + unat b div 16) # en64 (unat b mod 16 * 4 + unat c div 64) #
          en64 (unat c mod 64) # buf)"
    by (simp add: simps)
qed

lemma base64_encode_loop_spec:
  assumes "length ps mod 3 = 0" "length (base64_body ys) \<le> length buf"
  shows "base64_encode_loop (ps @ ys) (length ps) (length out) (out @ buf) =
    Some (length out + length (base64_body ys), out @ base64_body ys @ drop (length (base64_body ys)) buf)"
  using assms
proof (induction ys arbitrary: ps out buf rule: base64_body.induct)
  case (1 a b c ys)
  obtain u v w x buf' where buf: "buf = u # v # w # x # buf'"
    using 1(3) by (auto simp: Suc_le_length_iff)
  let ?c = "take 4 (base64_spec (a # b # c # ys))"
  have IH: "base64_encode_loop ((ps @ [a, b, c]) @ ys) (length (ps @ [a, b, c])) (length (out @ ?c)) ((out @ ?c) @ buf') =
    Some (length (out @ ?c) + length (base64_body ys), (out @ ?c) @ base64_body ys @ drop (length (base64_body ys)) buf')"
    using 1(2,3) buf by (intro 1(1)) (auto simp: mod_Suc)
  have "base64_encode_loop (ps @ a # b # c # ys) (length ps) (length out) (out @ buf) =
    base64_encode_loop ((ps @ [a, b, c]) @ ys) (length (ps @ [a, b, c])) (length (out @ ?c)) ((out @ ?c) @ buf')"
    using 1(2) unfolding buf by (simp add: base64_encode_unroll(3))
  then show ?case using IH by (simp add: buf)
next
  case (2 a b)
  then obtain u v buf' where buf: "buf = u # v # buf'" by (auto simp: Suc_le_length_iff)
  show ?case using 2(1) unfolding buf by (simp add: base64_encode_unroll(2))
next
  case (3 a)
  then obtain u buf' where buf: "buf = u # buf'" by (auto simp: Suc_le_length_iff)
  show ?case using 3(1) unfolding buf by (simp add: base64_encode_unroll(1))
next
  case 4
  then show ?case by (simp add: base64_encode_loop.simps)
qed


definition base64_tail :: "byte list \<Rightarrow> byte list" where
  "base64_tail xs =
     (if length xs mod 3 = 1 then [en64 (unat (last xs) mod 4 * 16), BASE64_PAD, BASE64_PAD]
      else if length xs mod 3 = 2 then [en64 (unat (last xs) mod 16 * 4), BASE64_PAD] else [])"

lemma base64_spec_tail: "base64_spec xs = base64_body xs @ base64_tail xs"
proof (induction xs rule: base64_spec.induct)
  case (4 a b c xs)
  have "length (a # b # c # xs) = length xs + 3" by simp
  then have m: "length (a # b # c # xs) mod 3 = length xs mod 3" by (simp only: mod_add_self2)
  have "base64_tail (a # b # c # xs) = base64_tail xs" unfolding base64_tail_def m by (cases xs) simp_all
  then show ?case using 4 by simp
qed (simp_all add: base64_tail_def)

lemma hv_base64_encode_spec:
  assumes ne: "xs \<noteq> []" "length xs < 2 ^ 32" and buf: "length (base64_spec xs) \<le> length out"
  shows "hv_base64_encode xs out = Some (length (base64_spec xs), base64_spec xs @ drop (length (base64_spec xs)) out)"
proof -
  let ?b = "base64_body xs" and ?D = "drop (length (base64_body xs)) out"
  have i: "unat (of_nat (length xs) - 1 :: u32) = length xs - 1"
    using ne by (subst unat_sub) (auto simp: word_le_nat_alt unat_of_nat_u32 Suc_le_eq)
  obtain n where n: "length xs = Suc n" using ne(1) by (cases xs) auto
  have r: "read_cell xs n = Some (last xs)" using n ne(1) last_conv_nth [of xs] by (simp add: read_cell_def)
  have loop: "base64_encode_loop xs 0 0 out = Some (length ?b, ?b @ drop (length ?b) out)"
    using base64_encode_loop_spec [of "[]" xs out "[]"] buf by (simp add: base64_spec_tail)
  have mod3: "n mod 3 = 0 \<or> n mod 3 = 1 \<or> n mod 3 = 2" by linarith
  consider "n mod 3 = 0" "length xs mod 3 = 1" | "n mod 3 = 1" "length xs mod 3 = 2" | "n mod 3 = 2" "length xs mod 3 = 0"
    using n mod3 by (auto simp: mod_Suc)
  then show ?thesis
  proof cases
    case 1
    then have t: "base64_spec xs = ?b @ [en64 (unat (last xs) mod 4 * 16), BASE64_PAD, BASE64_PAD]"
      by (simp add: base64_spec_tail base64_tail_def)
    then have "Suc (Suc (Suc 0)) \<le> length ?D" using buf by simp
    then obtain u v w rest where d: "?D = u # v # w # rest" unfolding Suc_le_length_iff by blast
    then have "drop (length (base64_spec xs)) out = rest" using drop_drop [of "Suc (Suc (Suc 0))" "length ?b" out] t by simp
    then show ?thesis using 1 loop i n r t d by (simp add: hv_base64_encode_def bits_nat)
  next
    case 2
    then have t: "base64_spec xs = ?b @ [en64 (unat (last xs) mod 16 * 4), BASE64_PAD]"
      by (simp add: base64_spec_tail base64_tail_def)
    then have "Suc (Suc 0) \<le> length ?D" using buf by simp
    then obtain u v rest where d: "?D = u # v # rest" unfolding Suc_le_length_iff by blast
    then have "drop (length (base64_spec xs)) out = rest" using drop_drop [of "Suc (Suc 0)" "length ?b" out] t by simp
    then show ?thesis using 2 loop i n r t d by (simp add: hv_base64_encode_def bits_nat)
  next
    case 3
    then have "base64_spec xs = ?b" by (simp add: base64_spec_tail base64_tail_def)
    then show ?thesis using 3 loop i n by (simp add: hv_base64_encode_def)
  qed
qed


text \<open>The decoder on what the encoder writes.\<close>

lemma base64_code_en64:
  assumes "k < 64"
  shows "base64_code (en64 k) = int k \<and> en64 k \<noteq> BASE64_PAD"
proof -
  have "list_all (\<lambda>k. base64_code (en64 k) = int k \<and> en64 k \<noteq> BASE64_PAD) [0..<64]"
    by code_simp
  then show ?thesis using assms by (simp add: list_all_iff)
qed

lemma base64_more_eq:
  assumes "length ins < 2 ^ 32" "i + k = length ins \<or> i + k < length ins" "2 \<le> k"
  shows "base64_more ins i k = Some (i + k < length ins \<or> ins ! (i + 1) \<noteq> BASE64_PAD)"
proof -
  have "unat (of_nat (length ins) - of_nat (k - 1) :: u32) = length ins - (k - 1)" 
    "unat (of_nat (length ins) - of_nat k :: u32) = length ins - k"
    using assms by (subst unat_sub; auto simp: word_le_nat_alt unat_of_nat_u32)+
  moreover have "unat (of_nat i :: u32) = i" using assms by (intro unat_of_nat_u32) auto
  moreover have "length ins - (k - 1) = i + 1" "i + 1 < length ins" if "\<not> i + k < length ins" using assms that by auto
  ultimately show ?thesis using assms
    by (cases "i + k < length ins") (simp_all add: base64_more_def read_cell_def word_less_nat_alt less_diff_conv)
qed


lemma byte_join:
  "y < 16 \<Longrightarrow> of_nat (push_bit 2 (unat a div 4) AND 0xFF) + of_nat (drop_bit 4 (unat a mod 4 * 16 + y) AND 0x3) = (a :: byte)"
  "y < 4 \<Longrightarrow> of_nat (push_bit 4 ((x * 16 + unat a div 16) AND 0xF)) + of_nat (drop_bit 2 (unat a mod 16 * 4 + y) AND 0xF) = a"
  "of_nat (push_bit 6 ((x * 4 + unat a div 64) AND 0x3)) + of_nat (unat a mod 64) = a"
proof -
  have l: "unat a < 256" using unsigned_less [of a] by simp
  have j: "of_nat u + of_nat v = a" if "u + v = unat a" for u v using that by (simp flip: of_nat_add)
  show "of_nat (push_bit 2 (unat a div 4) AND 0xFF) + of_nat (drop_bit 4 (unat a mod 4 * 16 + y) AND 0x3) = a" if "y < 16"
    using that l by (intro j) (simp add: and_mask_nat push_bit_eq_mult drop_bit_eq_div)
  show "of_nat (push_bit 4 ((x * 16 + unat a div 16) AND 0xF)) + of_nat (drop_bit 2 (unat a mod 16 * 4 + y) AND 0xF) = a" if "y < 4"
    using that byte_div [of a] by (intro j) (simp add: and_mask_nat push_bit_eq_mult drop_bit_eq_div)
  show "of_nat (push_bit 6 ((x * 4 + unat a div 64) AND 0x3)) + of_nat (unat a mod 64) = a"
    using byte_div [of a] by (intro j) (simp add: and_mask_nat push_bit_eq_mult drop_bit_eq_div)
qed

lemma byte_div_lt: "unat (a :: byte) div 4 < 64" "unat a div 16 < 16" "unat a div 64 < 4"
  using unsigned_less [of a] by (auto intro: less_mult_imp_div_less)

lemma two_digits: "x < 4 \<Longrightarrow> y < 16 \<Longrightarrow> x * 16 + y < (64 :: nat)" "x < 16 \<Longrightarrow> y < 4 \<Longrightarrow> x * 4 + y < (64 :: nat)"
  by simp_all

lemma digits_lt: "unat (a :: byte) div 4 < 64" "unat a mod 4 * 16 + unat b div 16 < 64" "unat b mod 16 * 4 + unat c div 64 < 64"
  "unat c mod 64 < 64" "unat a mod 4 * 16 < 64" "unat b mod 16 * 4 < 64" for b c :: byte
  by (simp_all add: two_digits byte_div_lt two_digits(1) [of _ 0, simplified] two_digits(2) [of _ 0, simplified])

lemma digits_code [simp]:
  "base64_code (en64 (unat (a :: byte) div 4)) = int (unat a div 4)"
  "base64_code (en64 (unat a mod 4 * 16 + unat b div 16)) = int (unat a mod 4 * 16 + unat b div 16)"
  "base64_code (en64 (unat b mod 16 * 4 + unat c div 64)) = int (unat b mod 16 * 4 + unat c div 64)"
  "base64_code (en64 (unat c mod 64)) = int (unat c mod 64)"
  "base64_code (en64 (unat a mod 4 * 16)) = int (unat a mod 4 * 16)" "base64_code (en64 (unat b mod 16 * 4)) = int (unat b mod 16 * 4)"
  "en64 (unat a div 4) \<noteq> BASE64_PAD" "en64 (unat a mod 4 * 16 + unat b div 16) \<noteq> BASE64_PAD"
  "en64 (unat b mod 16 * 4 + unat c div 64) \<noteq> BASE64_PAD" "en64 (unat c mod 64) \<noteq> BASE64_PAD"
  "en64 (unat a mod 4 * 16) \<noteq> BASE64_PAD" "en64 (unat b mod 16 * 4) \<noteq> BASE64_PAD" for b c :: byte
  using base64_code_en64 [OF digits_lt(1) [of a]] base64_code_en64 [OF digits_lt(2) [of a b]]
    base64_code_en64 [OF digits_lt(3) [of b c]] base64_code_en64 [OF digits_lt(4) [of c]]
    base64_code_en64 [OF digits_lt(5) [of a]] base64_code_en64 [OF digits_lt(6) [of b]] by simp_all

lemma base64_decode_pad: "i < length ins \<Longrightarrow> ins ! i = BASE64_PAD \<Longrightarrow> base64_decode_loop ins i j out = Some (int j, out)"
  by (subst base64_decode_loop.simps) simp

lemma base64_decode_steps:
  assumes "i < length ins" "ins ! i \<noteq> BASE64_PAD" "base64_code (ins ! i) \<noteq> - 1" "j < length out"
  shows "i mod 4 = 0 \<Longrightarrow> base64_decode_loop ins i j out =
      base64_decode_loop ins (Suc i) j (out[j := of_nat (push_bit 2 (nat (base64_code (ins ! i))) AND 0xFF)])" (is "?m0 \<Longrightarrow> ?l = ?r0")
    "i mod 4 = 1 \<Longrightarrow> base64_decode_loop ins i j out = do {
       more \<leftarrow> base64_more ins i 3;
       let o' = out[j := out ! j + of_nat (drop_bit 4 (nat (base64_code (ins ! i))) AND 0x3)];
       out \<leftarrow> (if more then write_cell o' (j + 1) (of_nat (push_bit 4 (nat (base64_code (ins ! i)) AND 0xF))) else Some o');
       base64_decode_loop ins (Suc i) (Suc j) out }" (is "?m1 \<Longrightarrow> ?l = ?r1")
    "i mod 4 = 2 \<Longrightarrow> base64_decode_loop ins i j out = do {
       more \<leftarrow> base64_more ins i 2;
       let o' = out[j := out ! j + of_nat (drop_bit 2 (nat (base64_code (ins ! i))) AND 0xF)];
       out \<leftarrow> (if more then write_cell o' (j + 1) (of_nat (push_bit 6 (nat (base64_code (ins ! i)) AND 0x3))) else Some o');
       base64_decode_loop ins (Suc i) (Suc j) out }" (is "?m2 \<Longrightarrow> ?l = ?r2")
    "i mod 4 = 3 \<Longrightarrow> base64_decode_loop ins i j out =
      base64_decode_loop ins (Suc i) (Suc j) (out[j := out ! j + of_nat (nat (base64_code (ins ! i)))])" (is "?m3 \<Longrightarrow> ?l = ?r3")
proof -
  note unfold = base64_decode_loop.simps [of ins i j out]
  show "?m0 \<Longrightarrow> ?l = ?r0" unfolding unfold using assms by (simp add: Let_def)
  show "?m1 \<Longrightarrow> ?l = ?r1" unfolding unfold using assms by (simp add: Let_def)
  show "?m2 \<Longrightarrow> ?l = ?r2" unfolding unfold using assms by (simp add: Let_def)
  show "?m3 \<Longrightarrow> ?l = ?r3" unfolding unfold using assms by (simp add: Let_def)
qed

text \<open>The four turns of the loop on a block of four digits, and the turns on a padded block.\<close>

lemma base64_decode_block:
  assumes ps: "length ps mod 4 = 0" and len: "length (ps @ c0 # c1 # c2 # c3 # cs) < 2 ^ 32"
    and np: "c0 \<noteq> BASE64_PAD" "c1 \<noteq> BASE64_PAD" "c2 \<noteq> BASE64_PAD" "c3 \<noteq> BASE64_PAD"
    and code: "base64_code c0 = int k0" "base64_code c1 = int k1" "base64_code c2 = int k2" "base64_code c3 = int k3"
    and more: "cs = [] \<or> Suc 0 < length cs"
  shows "base64_decode_loop (ps @ c0 # c1 # c2 # c3 # cs) (length ps) (length out) (out @ u # v # w # buf) =
    base64_decode_loop (ps @ c0 # c1 # c2 # c3 # cs) (Suc (Suc (Suc (Suc (length ps))))) (Suc (Suc (Suc (length out))))
      (out @ (of_nat (push_bit 2 k0 AND 0xFF) + of_nat (drop_bit 4 k1 AND 0x3)) #
        (of_nat (push_bit 4 (k1 AND 0xF)) + of_nat (drop_bit 2 k2 AND 0xF)) # (of_nat (push_bit 6 (k2 AND 0x3)) + of_nat k3) # buf)"
proof -
  let ?i = "length ps" and ?ins = "ps @ c0 # c1 # c2 # c3 # cs"
  have m: "Suc ?i mod 4 = 1" "Suc (Suc ?i) mod 4 = 2" "(3 + ?i) mod 4 = 3" using ps by (auto simp: mod_Suc mod_add_right_eq [symmetric])
  have m1: "base64_more ?ins (Suc ?i) 3 = Some True" "base64_more ?ins (Suc (Suc ?i)) 2 = Some True"
    using base64_more_eq [of ?ins "Suc ?i" 3] base64_more_eq [of ?ins "Suc (Suc ?i)" 2] len np by (auto simp: nth_append)
  note simps = base64_decode_steps Let_def nth_append list_update_append ps m m1 np code
  show ?thesis by (simp add: simps)
qed

lemma base64_decode_padded2:
  assumes ps: "length ps mod 4 = 0" and np: "c0 \<noteq> BASE64_PAD" "c1 \<noteq> BASE64_PAD"
    and code: "base64_code c0 = int k0" "base64_code c1 = int k1" and len: "length ps + 4 < 2 ^ 32"
  shows "base64_decode_loop (ps @ [c0, c1, BASE64_PAD, BASE64_PAD]) (length ps) (length out) (out @ u # buf) =
      Some (int (Suc (length out)), out @ (of_nat (push_bit 2 k0 AND 0xFF) + of_nat (drop_bit 4 k1 AND 0x3)) # buf)"
proof -
  let ?i = "length ps" and ?ins = "ps @ [c0, c1, BASE64_PAD, BASE64_PAD]"
  have m: "Suc ?i mod 4 = 1" using ps by (simp add: mod_Suc)
  have m1: "base64_more ?ins (Suc ?i) 3 = Some False" using base64_more_eq [of ?ins "Suc ?i" 3] len by (auto simp: nth_append)
  show ?thesis by (simp add: base64_decode_steps Let_def base64_decode_pad nth_append list_update_append ps m m1 np code)
qed

lemma base64_decode_padded1:
  assumes ps: "length ps mod 4 = 0" and np: "c0 \<noteq> BASE64_PAD" "c1 \<noteq> BASE64_PAD" "c2 \<noteq> BASE64_PAD"
    and code: "base64_code c0 = int k0" "base64_code c1 = int k1" "base64_code c2 = int k2" and len: "length ps + 4 < 2 ^ 32"
  shows "base64_decode_loop (ps @ [c0, c1, c2, BASE64_PAD]) (length ps) (length out) (out @ u # v # buf) =
      Some (int (Suc (Suc (length out))), out @ (of_nat (push_bit 2 k0 AND 0xFF) + of_nat (drop_bit 4 k1 AND 0x3)) #
        (of_nat (push_bit 4 (k1 AND 0xF)) + of_nat (drop_bit 2 k2 AND 0xF)) # buf)"
proof -
  let ?i = "length ps" and ?ins = "ps @ [c0, c1, c2, BASE64_PAD]"
  have m: "Suc ?i mod 4 = 1" "Suc (Suc ?i) mod 4 = 2" using ps by (simp_all add: mod_Suc)
  have m1: "base64_more ?ins (Suc ?i) 3 = Some True" "base64_more ?ins (Suc (Suc ?i)) 2 = Some False"
    using base64_more_eq [of ?ins "Suc ?i" 3] base64_more_eq [of ?ins "Suc (Suc ?i)" 2] len np by (auto simp: nth_append)
  show ?thesis by (simp add: base64_decode_steps Let_def base64_decode_pad nth_append list_update_append ps m m1 np code)
qed

lemma base64_decode_loop_spec:
  assumes "length ps mod 4 = 0" "length (ps @ base64_spec ys) < 2 ^ 32" "length ys \<le> length buf"
  shows "base64_decode_loop (ps @ base64_spec ys) (length ps) (length out) (out @ buf) =
    Some (int (length out + length ys), out @ ys @ drop (length ys) buf)"
  using assms
proof (induction ys arbitrary: ps out buf rule: base64_spec.induct)
  case 1
  then show ?case by (simp add: base64_decode_loop.simps)
next
  case (2 a)
  then obtain u buf' where buf: "buf = u # buf'" by (auto simp: Suc_le_length_iff)
  have "base64_decode_loop (ps @ base64_spec [a]) (length ps) (length out) (out @ buf) = Some (int (Suc (length out)), out @ (of_nat (push_bit 2 (unat a div 4) AND 0xFF) +
      of_nat (drop_bit 4 (unat a mod 4 * 16) AND 0x3)) # buf')"
    unfolding buf base64_spec.simps using 2 by (intro base64_decode_padded2) simp_all
  then show ?case using byte_join(1) [of 0 a] by (simp add: buf)
next
  case (3 a b)
  then obtain u v buf' where buf: "buf = u # v # buf'" by (auto simp: Suc_le_length_iff)
  note byte_div_lt(2) [of b]
  then have j: "of_nat (push_bit 2 (unat a div 4) AND 0xFF) + of_nat (drop_bit 4 (unat a mod 4 * 16 + unat b div 16) AND 0x3) = a"
    by (rule byte_join(1))
  have "base64_decode_loop (ps @ base64_spec [a, b]) (length ps) (length out) (out @ buf) = Some (int (Suc (Suc (length out))),
      out @ (of_nat (push_bit 2 (unat a div 4) AND 0xFF) + of_nat (drop_bit 4 (unat a mod 4 * 16 + unat b div 16) AND 0x3)) #
      (of_nat (push_bit 4 ((unat a mod 4 * 16 + unat b div 16) AND 0xF)) + of_nat (drop_bit 2 (unat b mod 16 * 4) AND 0xF)) # buf')"
    unfolding buf base64_spec.simps using 3 by (intro base64_decode_padded1) simp_all
  then show ?case using byte_join(2) [of 0 "unat a mod 4" b] unfolding j by (simp add: buf)
next
  case (4 a b c ys)
  then obtain u v w buf' where buf: "buf = u # v # w # buf'" by (auto simp: Suc_le_length_iff)
  let ?d = "take 4 (base64_spec (a # b # c # ys))"
  note j = byte_join(1) [OF byte_div_lt(2) [of b], of a] byte_join(2) [OF byte_div_lt(3) [of c], of "unat a mod 4" b]
    byte_join(3) [of "unat b mod 16" c]
  have "base64_spec ys = [] \<or> Suc 0 < length (base64_spec ys)" by (cases ys rule: base64_spec.cases) auto
  then have "base64_decode_loop (ps @ base64_spec (a # b # c # ys)) (length ps) (length out) (out @ u # v # w # buf') =
    base64_decode_loop (ps @ base64_spec (a # b # c # ys)) (Suc (Suc (Suc (Suc (length ps))))) (Suc (Suc (Suc (length out))))
      (out @ (of_nat (push_bit 2 (unat a div 4) AND 0xFF) + of_nat (drop_bit 4 (unat a mod 4 * 16 + unat b div 16) AND 0x3)) #
        (of_nat (push_bit 4 ((unat a mod 4 * 16 + unat b div 16) AND 0xF)) + of_nat (drop_bit 2 (unat b mod 16 * 4 + unat c div 64) AND 0xF)) #
        (of_nat (push_bit 6 ((unat b mod 16 * 4 + unat c div 64) AND 0x3)) + of_nat (unat c mod 64)) # buf')"
    unfolding base64_spec.simps using 4(2,3) by (intro base64_decode_block) simp_all
  note step = this [unfolded j]
  have "base64_decode_loop ((ps @ ?d) @ base64_spec ys) (length (ps @ ?d)) (length (out @ [a, b, c])) ((out @ [a, b, c]) @ buf') =
    Some (int (length (out @ [a, b, c]) + length ys), (out @ [a, b, c]) @ ys @ drop (length ys) buf')"
    using 4 buf by (intro 4(1)) (auto simp: mod_Suc)
  then show ?case using step by (simp add: buf)
qed


lemma length_base64_spec: "length (base64_spec xs) = BASE64_ENCODE_OUT_SIZE (length xs)"
proof (induction xs rule: base64_spec.induct)
  case (4 a b c xs)
  have "(length (a # b # c # xs) + 2) div 3 = Suc ((length xs + 2) div 3)" by (simp add: numeral_3_eq_3 [symmetric])
  then show ?case using 4 by (simp add: BASE64_ENCODE_OUT_SIZE_def)
qed (simp_all add: BASE64_ENCODE_OUT_SIZE_def)

subsection \<open>Properties\<close>






end
