(* ===== verification/Kcp.thy ===== *)
theory Kcp
  imports Prelude
begin

unbundle bit_operations_syntax

section \<open>The reliable datagram protocol KCP (event/kcp/ikcp.c)\<close>

text \<open>
  The control block of one connection and all its operations.  The intrusive queues of segments are lists,
  front first; sequence numbers, timestamps and counters are 32-bit words and wrap around as in the code; the
  \<open>IINT32\<close> fields are integers.  What a flush hands to the \<open>output\<close> callback is the list of datagrams it returns.
  Failures are \<open>None\<close>: a failed \<open>assert\<close>, a division by zero, a signed overflow, a write past the end of
  \<open>kcp->buffer\<close>.  \<open>malloc\<close> does not fail and logging is left out.
\<close>

definition IKCP_RTO_NDL :: int where "IKCP_RTO_NDL = 30"
definition IKCP_RTO_MIN :: int where "IKCP_RTO_MIN = 100"
definition IKCP_RTO_DEF :: int where "IKCP_RTO_DEF = 200"
definition IKCP_RTO_MAX :: u32 where "IKCP_RTO_MAX = 60000"
definition IKCP_CMD_PUSH :: u32 where "IKCP_CMD_PUSH = 81"
definition IKCP_CMD_ACK :: u32 where "IKCP_CMD_ACK = 82"
definition IKCP_CMD_WASK :: u32 where "IKCP_CMD_WASK = 83"
definition IKCP_CMD_WINS :: u32 where "IKCP_CMD_WINS = 84"
definition IKCP_ASK_SEND :: u32 where "IKCP_ASK_SEND = 1"
definition IKCP_ASK_TELL :: u32 where "IKCP_ASK_TELL = 2"
definition IKCP_WND_SND :: u32 where "IKCP_WND_SND = 32"
definition IKCP_WND_RCV :: u32 where "IKCP_WND_RCV = 128"
definition IKCP_MTU_DEF :: u32 where "IKCP_MTU_DEF = 1400"
definition IKCP_INTERVAL :: u32 where "IKCP_INTERVAL = 100"
definition IKCP_OVERHEAD :: nat where "IKCP_OVERHEAD = 24"
definition IKCP_DEADLINK :: u32 where "IKCP_DEADLINK = 20"
definition IKCP_THRESH_INIT :: u32 where "IKCP_THRESH_INIT = 2"
definition IKCP_THRESH_MIN :: u32 where "IKCP_THRESH_MIN = 2"
definition IKCP_PROBE_INIT :: u32 where "IKCP_PROBE_INIT = 7000"
definition IKCP_PROBE_LIMIT :: u32 where "IKCP_PROBE_LIMIT = 120000"
definition IKCP_FASTACK_LIMIT :: int where "IKCP_FASTACK_LIMIT = 5"

subsection \<open>Encoding\<close>

definition ikcp_encode8u :: "byte \<Rightarrow> byte list" where
  "ikcp_encode8u c = [c]"

definition ikcp_encode16u :: "u16 \<Rightarrow> byte list" where
  "ikcp_encode16u w = [ucast (w AND 255), ucast (drop_bit 8 w)]"

definition ikcp_encode32u :: "u32 \<Rightarrow> byte list" where
  "ikcp_encode32u l =
     [ucast (l AND 0xff), ucast (drop_bit 8 l AND 0xff), ucast (drop_bit 16 l AND 0xff), ucast (drop_bit 24 l AND 0xff)]"

text \<open>A decoder returns the value and the advanced pointer; a read past the end of the data is a failure.\<close>

fun ikcp_decode8u :: "byte list \<Rightarrow> (byte \<times> byte list) option" where
  "ikcp_decode8u (c # p) = Some (c, p)"
| "ikcp_decode8u _ = None"

fun ikcp_decode16u :: "byte list \<Rightarrow> (u16 \<times> byte list) option" where
  "ikcp_decode16u (a # b # p) = Some (ucast a + push_bit 8 (ucast b), p)"
| "ikcp_decode16u _ = None"

fun ikcp_decode32u :: "byte list \<Rightarrow> (u32 \<times> byte list) option" where
  "ikcp_decode32u (a # b # c # d # p) =
     Some (ucast a + push_bit 8 (ucast b + push_bit 8 (ucast c + push_bit 8 (ucast d))), p)"
| "ikcp_decode32u _ = None"

definition imin :: "u32 \<Rightarrow> u32 \<Rightarrow> u32" where
  "imin a b = (if a \<le> b then a else b)"

definition imax :: "u32 \<Rightarrow> u32 \<Rightarrow> u32" where
  "imax a b = (if a \<ge> b then a else b)"

definition ibound :: "u32 \<Rightarrow> u32 \<Rightarrow> u32 \<Rightarrow> u32" where
  "ibound lower middle upper = imin (imax lower middle) upper"

definition itimediff :: "u32 \<Rightarrow> u32 \<Rightarrow> int" where
  "itimediff later earlier = sint (later - earlier)"

subsection \<open>Segments and the control block\<close>

record ikcpseg =
  sg_conv :: u32
  sg_cmd :: u32
  sg_frg :: u32
  sg_wnd :: u32
  sg_ts :: u32
  sg_sn :: u32
  sg_una :: u32
  sg_len :: u32
  sg_resendts :: u32
  sg_rto :: u32
  sg_fastack :: u32
  sg_xmit :: u32
  sg_data :: "byte list"

record ikcpcb =
  conv :: u32
  mtu :: u32
  mss :: u32
  kstate :: u32
  snd_una :: u32
  snd_nxt :: u32
  rcv_nxt :: u32
  ssthresh :: u32
  rx_rttval :: int
  rx_srtt :: int
  rx_rto :: int
  rx_minrto :: int
  snd_wnd :: u32
  rcv_wnd :: u32
  rmt_wnd :: u32
  cwnd :: u32
  probe :: u32
  current :: u32
  interval :: u32
  ts_flush :: u32
  xmit :: u32
  nrcv_buf :: u32
  nsnd_buf :: u32
  nrcv_que :: u32
  nsnd_que :: u32
  nodelay :: u32
  updated :: u32
  ts_probe :: u32
  probe_wait :: u32
  dead_link :: u32
  incr :: u32
  snd_queue :: "ikcpseg list"
  rcv_queue :: "ikcpseg list"
  snd_buf :: "ikcpseg list"
  rcv_buf :: "ikcpseg list"
  acklist :: "(u32 \<times> u32) list"
  ackblock :: u32
  bufsize :: u32
  fastresend :: int
  fastlimit :: int
  nocwnd :: int
  stream :: int

definition ikcp_create :: "u32 \<Rightarrow> ikcpcb" where
  "ikcp_create c = \<lparr>conv = c, mtu = IKCP_MTU_DEF, mss = IKCP_MTU_DEF - of_nat IKCP_OVERHEAD, kstate = 0,
     snd_una = 0, snd_nxt = 0, rcv_nxt = 0, ssthresh = IKCP_THRESH_INIT,
     rx_rttval = 0, rx_srtt = 0, rx_rto = IKCP_RTO_DEF, rx_minrto = IKCP_RTO_MIN,
     snd_wnd = IKCP_WND_SND, rcv_wnd = IKCP_WND_RCV, rmt_wnd = IKCP_WND_RCV, cwnd = 0, probe = 0,
     current = 0, interval = IKCP_INTERVAL, ts_flush = IKCP_INTERVAL, xmit = 0,
     nrcv_buf = 0, nsnd_buf = 0, nrcv_que = 0, nsnd_que = 0, nodelay = 0, updated = 0,
     ts_probe = 0, probe_wait = 0, dead_link = IKCP_DEADLINK, incr = 0,
     snd_queue = [], rcv_queue = [], snd_buf = [], rcv_buf = [], acklist = [], ackblock = 0,
     bufsize = (IKCP_MTU_DEF + of_nat IKCP_OVERHEAD) * 3,
     fastresend = 0, fastlimit = IKCP_FASTACK_LIMIT, nocwnd = 0, stream = 0\<rparr>"

text \<open>The segments \<open>ikcp_release\<close> deletes, in order, and the control block before it is freed itself.\<close>

definition ikcp_release :: "ikcpcb \<Rightarrow> ikcpseg list \<times> ikcpcb" where
  "ikcp_release kcp =
     (snd_buf kcp @ rcv_buf kcp @ snd_queue kcp @ rcv_queue kcp,
      kcp\<lparr>snd_buf := [], rcv_buf := [], snd_queue := [], rcv_queue := [], nrcv_buf := 0, nsnd_buf := 0,
         nrcv_que := 0, nsnd_que := 0, acklist := [], bufsize := 0\<rparr>)"

subsection \<open>The receiving side\<close>

text \<open>The loop of \<open>ikcp_peeksize\<close>: the lengths up to the segment with fragment number 0.\<close>

fun peek_length :: "ikcpseg list \<Rightarrow> u32" where
  "peek_length [] = 0"
| "peek_length (s # ss) = sg_len s + (if sg_frg s = 0 then 0 else peek_length ss)"

definition ikcp_peeksize :: "ikcpcb \<Rightarrow> int" where
  "ikcp_peeksize kcp =
     (case rcv_queue kcp of
        [] \<Rightarrow> - 1
      | s # ss \<Rightarrow>
          if sg_frg s = 0 then sint (sg_len s)
          else if nrcv_que kcp < sg_frg s + 1 then - 1
          else sint (peek_length (s # ss)))"

text \<open>The loop that merges the fragments: what is copied, the bytes counted, the segments passed, the rest.\<close>

fun recv_merge :: "ikcpseg list \<Rightarrow> byte list \<times> u32 \<times> nat \<times> ikcpseg list" where
  "recv_merge [] = ([], 0, 0, [])"
| "recv_merge (s # ss) =
     (if sg_frg s = 0 then (sg_data s, sg_len s, 1, ss)
      else let (d, len, n, rest) = recv_merge ss in (sg_data s @ d, sg_len s + len, n + 1, rest))"

text \<open>The loop that moves segments from \<open>rcv_buf\<close> to \<open>rcv_queue\<close>, over the segments of \<open>rcv_buf\<close>.\<close>

fun move_ready :: "ikcpseg list \<Rightarrow> ikcpcb \<Rightarrow> ikcpcb" where
  "move_ready [] kcp = kcp\<lparr>rcv_buf := []\<rparr>"
| "move_ready (s # ss) kcp =
     (if sg_sn s = rcv_nxt kcp \<and> nrcv_que kcp < rcv_wnd kcp
      then move_ready ss (kcp\<lparr>nrcv_buf := nrcv_buf kcp - 1, rcv_queue := rcv_queue kcp @ [s],
             nrcv_que := nrcv_que kcp + 1, rcv_nxt := rcv_nxt kcp + 1\<rparr>)
      else kcp\<lparr>rcv_buf := s # ss\<rparr>)"

definition ikcp_recv :: "ikcpcb \<Rightarrow> int \<Rightarrow> (int \<times> byte list \<times> ikcpcb) option" where
  "ikcp_recv kcp len =
     (if rcv_queue kcp = [] then Some (- 1, [], kcp)
      else
        let ispeek = len < 0; len = (if len < 0 then - len else len); peeksize = ikcp_peeksize kcp in
        if peeksize < 0 then Some (- 2, [], kcp)
        else if peeksize > len then Some (- 3, [], kcp)
        else
          let recover = (nrcv_que kcp \<ge> rcv_wnd kcp);
              (d, len, n, rest) = recv_merge (rcv_queue kcp);
              kcp = (if ispeek then kcp else kcp\<lparr>rcv_queue := rest, nrcv_que := nrcv_que kcp - of_nat n\<rparr>) in
          if sint len \<noteq> peeksize then None
          else
            let kcp = move_ready (rcv_buf kcp) kcp;
                kcp = (if nrcv_que kcp < rcv_wnd kcp \<and> recover then kcp\<lparr>probe := probe kcp OR IKCP_ASK_TELL\<rparr> else kcp)
            in Some (sint len, d, kcp))"

text \<open>The search of \<open>ikcp_parse_data\<close>, from the back of \<open>rcv_buf\<close> (the list here is reversed): the buffer with the new
  segment behind the first smaller one, or \<open>None\<close> when the sequence number is there already.\<close>

fun insert_back :: "ikcpseg \<Rightarrow> ikcpseg list \<Rightarrow> ikcpseg list option" where
  "insert_back newseg [] = Some [newseg]"
| "insert_back newseg (s # ss) =
     (if sg_sn s = sg_sn newseg then None
      else if itimediff (sg_sn newseg) (sg_sn s) > 0 then Some (newseg # s # ss)
      else map_option ((#) s) (insert_back newseg ss))"

definition ikcp_parse_data :: "ikcpcb \<Rightarrow> ikcpseg \<Rightarrow> ikcpcb" where
  "ikcp_parse_data kcp newseg =
     (let sn = sg_sn newseg in
      if itimediff sn (rcv_nxt kcp + rcv_wnd kcp) \<ge> 0 \<or> itimediff sn (rcv_nxt kcp) < 0 then kcp
      else
        let kcp = (case insert_back newseg (rev (rcv_buf kcp)) of
                     None \<Rightarrow> kcp
                   | Some b \<Rightarrow> kcp\<lparr>rcv_buf := rev b, nrcv_buf := nrcv_buf kcp + 1\<rparr>)
        in move_ready (rcv_buf kcp) kcp)"

subsection \<open>The sending side: acknowledgements\<close>

definition i32 :: "int \<Rightarrow> int option" where
  "i32 x = (if - (2 ^ 31) \<le> x \<and> x < 2 ^ 31 then Some x else None)"

text \<open>C division truncates.\<close>

definition quot :: "int \<Rightarrow> int \<Rightarrow> int" where
  "quot x y = sgn x * sgn y * (\<bar>x\<bar> div \<bar>y\<bar>)"

definition ikcp_update_ack :: "ikcpcb \<Rightarrow> int \<Rightarrow> ikcpcb option" where
  "ikcp_update_ack kcp rtt = do {
     kcp \<leftarrow> (if rx_srtt kcp = 0 then Some (kcp\<lparr>rx_rttval := quot rtt 2, rx_srtt := rtt\<rparr>)
             else do {
               delta \<leftarrow> i32 (rtt - rx_srtt kcp);
               v \<leftarrow> i32 (3 * rx_rttval kcp);
               s \<leftarrow> i32 (7 * rx_srtt kcp);
               s \<leftarrow> i32 (s + rtt);
               let srtt = quot s 8;
               Some (kcp\<lparr>rx_rttval := quot (v + \<bar>delta\<bar>) 4, rx_srtt := (if srtt < 1 then 1 else srtt)\<rparr>) });
     v \<leftarrow> i32 (4 * rx_rttval kcp);
     let rto = of_int (rx_srtt kcp) + imax (interval kcp) (of_int v);
     Some (kcp\<lparr>rx_rto := uint (ibound (of_int (rx_minrto kcp)) rto IKCP_RTO_MAX)\<rparr>) }"

definition ikcp_shrink_buf :: "ikcpcb \<Rightarrow> ikcpcb" where
  "ikcp_shrink_buf kcp =
     kcp\<lparr>snd_una := (case snd_buf kcp of s # _ \<Rightarrow> sg_sn s | [] \<Rightarrow> snd_nxt kcp)\<rparr>"

text \<open>The loop of \<open>ikcp_parse_ack\<close>: the buffer without the segment \<open>sn\<close>, and whether it was there.\<close>

fun remove_sn :: "u32 \<Rightarrow> ikcpseg list \<Rightarrow> ikcpseg list \<times> bool" where
  "remove_sn sn [] = ([], False)"
| "remove_sn sn (s # ss) =
     (if sn = sg_sn s then (ss, True)
      else if itimediff sn (sg_sn s) < 0 then (s # ss, False)
      else let (r, found) = remove_sn sn ss in (s # r, found))"

definition ikcp_parse_ack :: "ikcpcb \<Rightarrow> u32 \<Rightarrow> ikcpcb" where
  "ikcp_parse_ack kcp sn =
     (if itimediff sn (snd_una kcp) < 0 \<or> itimediff sn (snd_nxt kcp) \<ge> 0 then kcp
      else
        let (b, found) = remove_sn sn (snd_buf kcp)
        in kcp\<lparr>snd_buf := b, nsnd_buf := (if found then nsnd_buf kcp - 1 else nsnd_buf kcp)\<rparr>)"

fun drop_una :: "u32 \<Rightarrow> ikcpseg list \<Rightarrow> u32 \<Rightarrow> ikcpseg list \<times> u32" where
  "drop_una una [] n = ([], n)"
| "drop_una una (s # ss) n = (if itimediff una (sg_sn s) > 0 then drop_una una ss (n - 1) else (s # ss, n))"

definition ikcp_parse_una :: "ikcpcb \<Rightarrow> u32 \<Rightarrow> ikcpcb" where
  "ikcp_parse_una kcp una =
     (let (b, n) = drop_una una (snd_buf kcp) (nsnd_buf kcp) in kcp\<lparr>snd_buf := b, nsnd_buf := n\<rparr>)"

fun count_skips :: "u32 \<Rightarrow> ikcpseg list \<Rightarrow> ikcpseg list" where
  "count_skips sn [] = []"
| "count_skips sn (s # ss) =
     (if itimediff sn (sg_sn s) < 0 then s # ss
      else (if sn \<noteq> sg_sn s then s\<lparr>sg_fastack := sg_fastack s + 1\<rparr> else s) # count_skips sn ss)"

definition ikcp_parse_fastack :: "ikcpcb \<Rightarrow> u32 \<Rightarrow> ikcpcb" where
  "ikcp_parse_fastack kcp sn =
     (if itimediff sn (snd_una kcp) < 0 \<or> itimediff sn (snd_nxt kcp) \<ge> 0 then kcp
      else kcp\<lparr>snd_buf := count_skips sn (snd_buf kcp)\<rparr>)"

text \<open>\<open>for (newblock = 8; newblock < newsize; newblock <<= 1);\<close>\<close>

partial_function (option) ack_newblock :: "u32 \<Rightarrow> u32 \<Rightarrow> u32 option" where
  "ack_newblock newblock newsize = (if newblock < newsize then ack_newblock (push_bit 1 newblock) newsize else Some newblock)"

declare ack_newblock.simps [code]

definition ikcp_ack_push :: "ikcpcb \<Rightarrow> u32 \<Rightarrow> u32 \<Rightarrow> ikcpcb option" where
  "ikcp_ack_push kcp sn ts = do {
     let newsize = of_nat (length (acklist kcp)) + 1;
     block \<leftarrow> (if newsize > ackblock kcp then ack_newblock 8 newsize else Some (ackblock kcp));
     Some (kcp\<lparr>acklist := acklist kcp @ [(sn, ts)], ackblock := block\<rparr>) }"


subsection \<open>Sending\<close>

text \<open>A segment as \<open>ikcp_segment_new\<close> leaves it, with the fields \<open>ikcp_send\<close> sets; the others are set when a flush
  moves the segment to \<open>snd_buf\<close>, before anything reads them.\<close>

definition ikcp_segment_new :: "u32 \<Rightarrow> u32 \<Rightarrow> byte list \<Rightarrow> ikcpseg" where
  "ikcp_segment_new frg len bs = \<lparr>sg_conv = 0, sg_cmd = 0, sg_frg = frg, sg_wnd = 0, sg_ts = 0, sg_sn = 0, sg_una = 0,
     sg_len = len, sg_resendts = 0, sg_rto = 0, sg_fastack = 0, sg_xmit = 0, sg_data = bs\<rparr>"

text \<open>The streaming mode of \<open>ikcp_send\<close>: the last queued segment is replaced by one that also holds the first bytes of
  the buffer; returns the control block, the rest of the buffer and the length left.\<close>

definition send_stream :: "ikcpcb \<Rightarrow> byte list \<Rightarrow> int \<Rightarrow> ikcpcb \<times> byte list \<times> int" where
  "send_stream kcp buffer len =
     (if snd_queue kcp = [] \<or> sg_len (last (snd_queue kcp)) \<ge> mss kcp then (kcp, buffer, len)
      else
        let old = last (snd_queue kcp);
            capacity = sint (mss kcp - sg_len old);
            extend = (if len < capacity then len else capacity);
            seg = ikcp_segment_new 0 (sg_len old + of_int extend) (sg_data old @ take (nat extend) buffer)
        in (kcp\<lparr>snd_queue := butlast (snd_queue kcp) @ [seg]\<rparr>, drop (nat extend) buffer, len - extend))"

text \<open>The loop that splits the buffer, with the fragments still to be made.\<close>

fun send_fragments :: "ikcpcb \<Rightarrow> byte list \<Rightarrow> int \<Rightarrow> nat \<Rightarrow> ikcpcb" where
  "send_fragments kcp buffer len 0 = kcp"
| "send_fragments kcp buffer len (Suc n) =
     (let size = (if len > sint (mss kcp) then sint (mss kcp) else len);
          seg = ikcp_segment_new (if stream kcp = 0 then of_nat n else 0) (of_int size) (take (nat size) buffer)
      in send_fragments (kcp\<lparr>snd_queue := snd_queue kcp @ [seg], nsnd_que := nsnd_que kcp + 1\<rparr>)
           (drop (nat size) buffer) (len - size) n)"

definition ikcp_send :: "ikcpcb \<Rightarrow> byte list \<Rightarrow> int \<Rightarrow> (int \<times> ikcpcb) option" where
  "ikcp_send kcp buffer len =
     (if mss kcp = 0 \<or> int (length buffer) < len then None
      else if len < 0 then Some (- 1, kcp)
      else
        let (kcp, buffer, len) = (if stream kcp \<noteq> 0 then send_stream kcp buffer len else (kcp, buffer, len)) in
        if stream kcp \<noteq> 0 \<and> len \<le> 0 then Some (0, kcp)
        else
          let count = (if len \<le> sint (mss kcp) then 1 else sint ((of_int len + mss kcp - 1) div mss kcp)) in
          if count \<ge> sint IKCP_WND_RCV then Some (- 2, kcp)
          else
            let count = (if count = 0 then 1 else count)
            in Some (0, send_fragments kcp buffer len (nat count)))"

subsection \<open>Input\<close>

definition ikcp_encode_seg :: "ikcpseg \<Rightarrow> byte list" where
  "ikcp_encode_seg seg =
     ikcp_encode32u (sg_conv seg) @ ikcp_encode8u (ucast (sg_cmd seg)) @ ikcp_encode8u (ucast (sg_frg seg)) @
     ikcp_encode16u (ucast (sg_wnd seg)) @ ikcp_encode32u (sg_ts seg) @ ikcp_encode32u (sg_sn seg) @
     ikcp_encode32u (sg_una seg) @ ikcp_encode32u (sg_len seg)"

text \<open>The eight decoder calls at the head of the loop of \<open>ikcp_input\<close>, as the segment they describe.\<close>

definition input_header :: "byte list \<Rightarrow> (ikcpseg \<times> byte list) option" where
  "input_header data = do {
     (conv, data) \<leftarrow> ikcp_decode32u data;
     (cmd, data) \<leftarrow> ikcp_decode8u data;
     (frg, data) \<leftarrow> ikcp_decode8u data;
     (wnd, data) \<leftarrow> ikcp_decode16u data;
     (ts, data) \<leftarrow> ikcp_decode32u data;
     (sn, data) \<leftarrow> ikcp_decode32u data;
     (una, data) \<leftarrow> ikcp_decode32u data;
     (len, data) \<leftarrow> ikcp_decode32u data;
     Some (\<lparr>sg_conv = conv, sg_cmd = ucast cmd, sg_frg = ucast frg, sg_wnd = ucast wnd, sg_ts = ts, sg_sn = sn,
            sg_una = una, sg_len = len, sg_resendts = 0, sg_rto = 0, sg_fastack = 0, sg_xmit = 0, sg_data = []\<rparr>, data) }"

text \<open>What the loop carries from one segment to the next: \<open>flag\<close>, \<open>maxack\<close> and \<open>latest_ts\<close>.\<close>

type_synonym ackinfo = "bool \<times> u32 \<times> u32"

definition input_ack :: "ikcpcb \<Rightarrow> ikcpseg \<Rightarrow> ackinfo \<Rightarrow> (ikcpcb \<times> ackinfo) option" where
  "input_ack kcp seg info = do {
     kcp \<leftarrow> (if itimediff (current kcp) (sg_ts seg) \<ge> 0
             then ikcp_update_ack kcp (itimediff (current kcp) (sg_ts seg)) else Some kcp);
     let kcp = ikcp_shrink_buf (ikcp_parse_ack kcp (sg_sn seg));
     let (flag, maxack, latest_ts) = info;
     Some (kcp, if \<not> flag then (True, sg_sn seg, sg_ts seg)
                else if itimediff (sg_sn seg) maxack > 0 then (flag, sg_sn seg, sg_ts seg) else info) }"

definition input_push :: "ikcpcb \<Rightarrow> ikcpseg \<Rightarrow> byte list \<Rightarrow> ikcpcb option" where
  "input_push kcp seg bs =
     (if itimediff (sg_sn seg) (rcv_nxt kcp + rcv_wnd kcp) < 0 then do {
        kcp \<leftarrow> ikcp_ack_push kcp (sg_sn seg) (sg_ts seg);
        Some (if itimediff (sg_sn seg) (rcv_nxt kcp) \<ge> 0 then ikcp_parse_data kcp (seg\<lparr>sg_data := bs\<rparr>) else kcp) }
      else Some kcp)"

definition input_segment :: "ikcpcb \<Rightarrow> ikcpseg \<Rightarrow> byte list \<Rightarrow> ackinfo \<Rightarrow> (ikcpcb \<times> ackinfo) option" where
  "input_segment kcp seg bs info =
     (let kcp = ikcp_shrink_buf (ikcp_parse_una (kcp\<lparr>rmt_wnd := sg_wnd seg\<rparr>) (sg_una seg)) in
      if sg_cmd seg = IKCP_CMD_ACK then input_ack kcp seg info
      else if sg_cmd seg = IKCP_CMD_PUSH then map_option (\<lambda>kcp. (kcp, info)) (input_push kcp seg bs)
      else if sg_cmd seg = IKCP_CMD_WASK then Some (kcp\<lparr>probe := probe kcp OR IKCP_ASK_TELL\<rparr>, info)
      else Some (kcp, info))"

lemma input_header_length: "input_header data = Some (seg, rest) \<Longrightarrow> length data = length rest + 24"
  by (auto simp: input_header_def split: bind_splits elim!: ikcp_decode32u.elims ikcp_decode16u.elims ikcp_decode8u.elims)

function input_loop :: "ikcpcb \<Rightarrow> byte list \<Rightarrow> ackinfo \<Rightarrow> (int \<times> ikcpcb \<times> ackinfo) option" where
  "input_loop kcp data info =
     (if length data < IKCP_OVERHEAD then Some (0, kcp, info)
      else case input_header data of
        None \<Rightarrow> None
      | Some (seg, data) \<Rightarrow>
          if sg_conv seg \<noteq> conv kcp then Some (- 1, kcp, info)
          else if length data < unat (sg_len seg) \<or> sint (sg_len seg) < 0 then Some (- 2, kcp, info)
          else if sg_cmd seg \<noteq> IKCP_CMD_PUSH \<and> sg_cmd seg \<noteq> IKCP_CMD_ACK \<and>
                  sg_cmd seg \<noteq> IKCP_CMD_WASK \<and> sg_cmd seg \<noteq> IKCP_CMD_WINS then Some (- 3, kcp, info)
          else case input_segment kcp seg (take (unat (sg_len seg)) data) info of
            None \<Rightarrow> None
          | Some (kcp, info) \<Rightarrow> input_loop kcp (drop (unat (sg_len seg)) data) info)"
  by pat_completeness auto

termination input_loop
  by (relation "measure (\<lambda>(kcp, data, info). length data)") (auto dest!: input_header_length)

declare input_loop.simps [simp del]

text \<open>The growth of the congestion window at the end of \<open>ikcp_input\<close>.\<close>

definition input_cwnd :: "ikcpcb \<Rightarrow> ikcpcb option" where
  "input_cwnd kcp =
     (if cwnd kcp < rmt_wnd kcp then do {
        let m = mss kcp;
        kcp \<leftarrow> (if cwnd kcp < ssthresh kcp then Some (kcp\<lparr>cwnd := cwnd kcp + 1, incr := incr kcp + m\<rparr>)
                else do {
                  let kcp = (if incr kcp < m then kcp\<lparr>incr := m\<rparr> else kcp);
                  kcp \<leftarrow> (if incr kcp = 0 then None
                          else Some (kcp\<lparr>incr := incr kcp + ((m * m) div incr kcp + m div 16)\<rparr>));
                  Some (if (cwnd kcp + 1) * m \<le> incr kcp
                        then kcp\<lparr>cwnd := (incr kcp + m - 1) div (if m > 0 then m else 1)\<rparr> else kcp) });
        Some (if cwnd kcp > rmt_wnd kcp then kcp\<lparr>cwnd := rmt_wnd kcp, incr := rmt_wnd kcp * m\<rparr> else kcp) }
      else Some kcp)"

definition ikcp_input :: "ikcpcb \<Rightarrow> byte list \<Rightarrow> (int \<times> ikcpcb) option" where
  "ikcp_input kcp data = do {
     let prev_una = snd_una kcp;
     if sint (of_nat (length data) :: u32) < int IKCP_OVERHEAD then Some (- 1, kcp)
     else do {
       (r, kcp, flag, maxack, latest_ts) \<leftarrow> input_loop kcp data (False, 0, 0);
       if r \<noteq> 0 then Some (r, kcp)
       else do {
         let kcp = (if flag then ikcp_parse_fastack kcp maxack else kcp);
         kcp \<leftarrow> (if itimediff (snd_una kcp) prev_una > 0 then input_cwnd kcp else Some kcp);
         Some (0, kcp) } } }"

subsection \<open>Flush\<close>

text \<open>The bytes between \<open>kcp->buffer\<close> and \<open>ptr\<close>, and the datagrams handed to the callback so far.\<close>

type_synonym outgoing = "byte list \<times> byte list list"

definition ikcp_output :: "byte list \<Rightarrow> byte list list \<Rightarrow> byte list list" where
  "ikcp_output data outs = (if data = [] then outs else outs @ [data])"

definition make_room :: "ikcpcb \<Rightarrow> int \<Rightarrow> outgoing \<Rightarrow> outgoing" where
  "make_room kcp need st =
     (let (buf, outs) = st in
      if int (length buf) + need > sint (mtu kcp) then ([], ikcp_output buf outs) else (buf, outs))"

definition put_bytes :: "ikcpcb \<Rightarrow> byte list \<Rightarrow> outgoing \<Rightarrow> outgoing option" where
  "put_bytes kcp bs st =
     (let (buf, outs) = st in if int (length buf + length bs) \<le> uint (bufsize kcp) then Some (buf @ bs, outs) else None)"

definition ikcp_wnd_unused :: "ikcpcb \<Rightarrow> u32" where
  "ikcp_wnd_unused kcp = (if nrcv_que kcp < rcv_wnd kcp then rcv_wnd kcp - nrcv_que kcp else 0)"

text \<open>The segment \<open>seg\<close> of \<open>ikcp_flush\<close>, before the first acknowledgement.\<close>

definition flush_seg :: "ikcpcb \<Rightarrow> ikcpseg" where
  "flush_seg kcp = \<lparr>sg_conv = conv kcp, sg_cmd = IKCP_CMD_ACK, sg_frg = 0, sg_wnd = ikcp_wnd_unused kcp, sg_ts = 0, sg_sn = 0,
     sg_una = rcv_nxt kcp, sg_len = 0, sg_resendts = 0, sg_rto = 0, sg_fastack = 0, sg_xmit = 0, sg_data = []\<rparr>"

fun flush_acks :: "ikcpcb \<Rightarrow> ikcpseg \<Rightarrow> (u32 \<times> u32) list \<Rightarrow> outgoing \<Rightarrow> (ikcpseg \<times> outgoing) option" where
  "flush_acks kcp seg [] st = Some (seg, st)"
| "flush_acks kcp seg ((sn, ts) # acks) st = do {
     let st = make_room kcp (int IKCP_OVERHEAD) st;
     let seg = seg\<lparr>sg_sn := sn, sg_ts := ts\<rparr>;
     st \<leftarrow> put_bytes kcp (ikcp_encode_seg seg) st;
     flush_acks kcp seg acks st }"

definition probe_window :: "ikcpcb \<Rightarrow> ikcpcb" where
  "probe_window kcp =
     (if rmt_wnd kcp = 0 then
        if probe_wait kcp = 0 then
          kcp\<lparr>probe_wait := IKCP_PROBE_INIT, ts_probe := current kcp + IKCP_PROBE_INIT\<rparr>
        else if itimediff (current kcp) (ts_probe kcp) \<ge> 0 then
          let w = (if probe_wait kcp < IKCP_PROBE_INIT then IKCP_PROBE_INIT else probe_wait kcp);
              w = w + w div 2;
              w = (if w > IKCP_PROBE_LIMIT then IKCP_PROBE_LIMIT else w)
          in kcp\<lparr>probe_wait := w, ts_probe := current kcp + w, probe := probe kcp OR IKCP_ASK_SEND\<rparr>
        else kcp
      else kcp\<lparr>ts_probe := 0, probe_wait := 0\<rparr>)"

text \<open>Steps 2 and 3: one probe command, if the bit is set.\<close>

definition flush_probe :: "ikcpcb \<Rightarrow> u32 \<Rightarrow> u32 \<Rightarrow> ikcpseg \<Rightarrow> outgoing \<Rightarrow> (ikcpseg \<times> outgoing) option" where
  "flush_probe kcp ask cmd seg st =
     (if probe kcp AND ask \<noteq> 0 then do {
        let seg = seg\<lparr>sg_cmd := cmd\<rparr>;
        st \<leftarrow> put_bytes kcp (ikcp_encode_seg seg) (make_room kcp (int IKCP_OVERHEAD) st);
        Some (seg, st) }
      else Some (seg, st))"

text \<open>The loop that moves segments from \<open>snd_queue\<close> to \<open>snd_buf\<close>, over the segments of \<open>snd_queue\<close>.\<close>

fun flush_move :: "u32 \<Rightarrow> u32 \<Rightarrow> ikcpseg list \<Rightarrow> ikcpcb \<Rightarrow> ikcpcb" where
  "flush_move wnd cw [] kcp = kcp\<lparr>snd_queue := []\<rparr>"
| "flush_move wnd cw (s # ss) kcp =
     (if itimediff (snd_nxt kcp) (snd_una kcp + cw) < 0 then
        let newseg = s\<lparr>sg_conv := conv kcp, sg_cmd := IKCP_CMD_PUSH, sg_wnd := wnd, sg_ts := current kcp,
              sg_sn := snd_nxt kcp, sg_una := rcv_nxt kcp, sg_resendts := current kcp, sg_rto := of_int (rx_rto kcp),
              sg_fastack := 0, sg_xmit := 0\<rparr>
        in flush_move wnd cw ss
             (kcp\<lparr>snd_buf := snd_buf kcp @ [newseg], nsnd_que := nsnd_que kcp - 1, nsnd_buf := nsnd_buf kcp + 1,
                snd_nxt := snd_nxt kcp + 1\<rparr>)
      else kcp\<lparr>snd_queue := s # ss\<rparr>)"

text \<open>The three reasons to transmit a segment of \<open>snd_buf\<close>: the first time, on a timeout, on skipped acknowledgements.\<close>

datatype reason = First | Timeout | Skipped | NoSend

definition send_reason :: "ikcpcb \<Rightarrow> u32 \<Rightarrow> ikcpseg \<Rightarrow> reason" where
  "send_reason kcp resent s =
     (if sg_xmit s = 0 then First
      else if itimediff (current kcp) (sg_resendts s) \<ge> 0 then Timeout
      else if sg_fastack s \<ge> resent \<and> (sint (sg_xmit s) \<le> fastlimit kcp \<or> fastlimit kcp \<le> 0) then Skipped
      else NoSend)"

definition resend_rto :: "ikcpcb \<Rightarrow> ikcpseg \<Rightarrow> u32" where
  "resend_rto kcp s =
     (if nodelay kcp = 0 then sg_rto s + imax (sg_rto s) (of_int (rx_rto kcp))
      else sg_rto s + of_int (quot (if nodelay kcp < 2 then sint (sg_rto s) else rx_rto kcp) 2))"

definition mark_sent :: "ikcpcb \<Rightarrow> u32 \<Rightarrow> reason \<Rightarrow> ikcpseg \<Rightarrow> ikcpseg" where
  "mark_sent kcp rtomin why s =
     (case why of
        First \<Rightarrow> s\<lparr>sg_xmit := sg_xmit s + 1, sg_rto := of_int (rx_rto kcp),
                    sg_resendts := current kcp + of_int (rx_rto kcp) + rtomin\<rparr>
      | Timeout \<Rightarrow> s\<lparr>sg_xmit := sg_xmit s + 1, sg_rto := resend_rto kcp s,
                      sg_resendts := current kcp + resend_rto kcp s\<rparr>
      | Skipped \<Rightarrow> s\<lparr>sg_xmit := sg_xmit s + 1, sg_fastack := 0, sg_resendts := current kcp + sg_rto s\<rparr>
      | NoSend \<Rightarrow> s)"

text \<open>Step 4, over \<open>snd_buf\<close>: the segments as they are left, \<open>kcp->xmit\<close>, \<open>kcp->state\<close>, \<open>change\<close> and \<open>lost\<close>.\<close>

fun flush_data :: "ikcpcb \<Rightarrow> u32 \<Rightarrow> u32 \<Rightarrow> u32 \<Rightarrow> ikcpseg list \<Rightarrow> outgoing \<Rightarrow> nat \<Rightarrow> bool \<Rightarrow>
    (ikcpseg list \<times> ikcpcb \<times> outgoing \<times> nat \<times> bool) option" where
  "flush_data kcp wnd resent rtomin [] st change lost = Some ([], kcp, st, change, lost)"
| "flush_data kcp wnd resent rtomin (s # ss) st change lost =
     (let why = send_reason kcp resent s; s = mark_sent kcp rtomin why s in
      if why = NoSend then do {
        (ss, kcp, st, change, lost) \<leftarrow> flush_data kcp wnd resent rtomin ss st change lost;
        Some (s # ss, kcp, st, change, lost) }
      else do {
        let s = s\<lparr>sg_ts := current kcp, sg_wnd := wnd, sg_una := rcv_nxt kcp\<rparr>;
        let st = make_room kcp (sint (of_nat IKCP_OVERHEAD + sg_len s)) st;
        st \<leftarrow> put_bytes kcp (ikcp_encode_seg s @ take (unat (sg_len s)) (sg_data s)) st;
        let kcp = kcp\<lparr>xmit := (if why = Timeout then xmit kcp + 1 else xmit kcp),
                       kstate := (if sg_xmit s \<ge> dead_link kcp then - 1 else kstate kcp)\<rparr>;
        (ss, kcp, st, change, lost) \<leftarrow> flush_data kcp wnd resent rtomin ss st
           (if why = Skipped then change + 1 else change) (lost \<or> why = Timeout);
        Some (s # ss, kcp, st, change, lost) })"

definition flush_cwnd :: "ikcpcb \<Rightarrow> u32 \<Rightarrow> u32 \<Rightarrow> nat \<Rightarrow> bool \<Rightarrow> ikcpcb" where
  "flush_cwnd kcp resent cw change lost =
     (let kcp = (if change \<noteq> 0 then
                   let inflight = snd_nxt kcp - snd_una kcp;
                       t = (if inflight div 2 < IKCP_THRESH_MIN then IKCP_THRESH_MIN else inflight div 2)
                   in kcp\<lparr>ssthresh := t, cwnd := t + resent, incr := (t + resent) * mss kcp\<rparr>
                 else kcp);
          kcp = (if lost then
                   kcp\<lparr>ssthresh := (if cw div 2 < IKCP_THRESH_MIN then IKCP_THRESH_MIN else cw div 2),
                       cwnd := 1, incr := mss kcp\<rparr>
                 else kcp)
      in if cwnd kcp < 1 then kcp\<lparr>cwnd := 1, incr := mss kcp\<rparr> else kcp)"

definition flush_window :: "ikcpcb \<Rightarrow> u32" where
  "flush_window kcp =
     (let cw = imin (snd_wnd kcp) (rmt_wnd kcp) in if nocwnd kcp = 0 then imin (cwnd kcp) cw else cw)"

definition flush_resent :: "ikcpcb \<Rightarrow> u32" where
  "flush_resent kcp = (if fastresend kcp > 0 then of_int (fastresend kcp) else 0xffffffff)"

definition flush_rtomin :: "ikcpcb \<Rightarrow> u32" where
  "flush_rtomin kcp = (if nodelay kcp = 0 then of_int (drop_bit 3 (rx_rto kcp)) else 0)"

definition ikcp_flush :: "ikcpcb \<Rightarrow> (byte list list \<times> ikcpcb) option" where
  "ikcp_flush kcp =
     (if updated kcp = 0 then Some ([], kcp)
      else do {
        let seg = flush_seg kcp;
        (seg, st) \<leftarrow> flush_acks kcp seg (acklist kcp) ([], []);
        let kcp = probe_window (kcp\<lparr>acklist := []\<rparr>);
        (seg, st) \<leftarrow> flush_probe kcp IKCP_ASK_SEND IKCP_CMD_WASK seg st;
        (seg, st) \<leftarrow> flush_probe kcp IKCP_ASK_TELL IKCP_CMD_WINS seg st;
        let kcp = kcp\<lparr>probe := 0\<rparr>;
        let cw = flush_window kcp;
        let kcp = flush_move (sg_wnd seg) cw (snd_queue kcp) kcp;
        let resent = flush_resent kcp;
        let rtomin = flush_rtomin kcp;
        (b, kcp, (buf, outs), change, lost) \<leftarrow> flush_data kcp (sg_wnd seg) resent rtomin (snd_buf kcp) st 0 False;
        Some (ikcp_output buf outs, flush_cwnd (kcp\<lparr>snd_buf := b\<rparr>) resent cw change lost) })"

subsection \<open>The clock\<close>

definition ikcp_update :: "ikcpcb \<Rightarrow> u32 \<Rightarrow> (byte list list \<times> ikcpcb) option" where
  "ikcp_update kcp now =
     (let kcp = kcp\<lparr>current := now\<rparr>;
          kcp = (if updated kcp = 0 then kcp\<lparr>updated := 1, ts_flush := now\<rparr> else kcp);
          slap = itimediff now (ts_flush kcp);
          (kcp, slap) = (if slap \<ge> 10000 \<or> slap < - 10000 then (kcp\<lparr>ts_flush := now\<rparr>, 0) else (kcp, slap)) in
      if slap \<ge> 0 then
        let kcp = kcp\<lparr>ts_flush := ts_flush kcp + interval kcp\<rparr>;
            kcp = (if itimediff now (ts_flush kcp) \<ge> 0 then kcp\<lparr>ts_flush := now + interval kcp\<rparr> else kcp)
        in ikcp_flush kcp
      else Some ([], kcp))"

text \<open>The loop of \<open>ikcp_check\<close>: \<open>None\<close> when a segment is due now, otherwise the least time to a retransmission.\<close>

fun check_packets :: "u32 \<Rightarrow> ikcpseg list \<Rightarrow> int \<Rightarrow> int option" where
  "check_packets now [] tm_packet = Some tm_packet"
| "check_packets now (s # ss) tm_packet =
     (let diff = itimediff (sg_resendts s) now in
      if diff \<le> 0 then None else check_packets now ss (if diff < tm_packet then diff else tm_packet))"

definition ikcp_check :: "ikcpcb \<Rightarrow> u32 \<Rightarrow> u32" where
  "ikcp_check kcp now =
     (if updated kcp = 0 then now
      else
        let ts = (if itimediff now (ts_flush kcp) \<ge> 10000 \<or> itimediff now (ts_flush kcp) < - 10000 then now
                  else ts_flush kcp) in
        if itimediff now ts \<ge> 0 then now
        else case check_packets now (snd_buf kcp) 0x7fffffff of
            None \<Rightarrow> now
          | Some tm_packet \<Rightarrow>
              let tm_flush = itimediff ts now;
                  minimal = of_int (if tm_packet < tm_flush then tm_packet else tm_flush)
              in now + (if minimal \<ge> interval kcp then interval kcp else minimal))"

subsection \<open>Settings\<close>

definition ikcp_setmtu :: "ikcpcb \<Rightarrow> int \<Rightarrow> int \<times> ikcpcb" where
  "ikcp_setmtu kcp m =
     (if m < 50 \<or> m < int IKCP_OVERHEAD then (- 1, kcp)
      else (0, kcp\<lparr>mtu := of_int m, mss := of_int m - of_nat IKCP_OVERHEAD,
                   bufsize := (of_int m + of_nat IKCP_OVERHEAD) * 3\<rparr>))"

definition clamp_interval :: "int \<Rightarrow> u32" where
  "clamp_interval t = of_int (if t > 5000 then 5000 else if t < 10 then 10 else t)"

definition ikcp_interval :: "ikcpcb \<Rightarrow> int \<Rightarrow> ikcpcb" where
  "ikcp_interval kcp t = kcp\<lparr>interval := clamp_interval t\<rparr>"

definition ikcp_nodelay :: "ikcpcb \<Rightarrow> int \<Rightarrow> int \<Rightarrow> int \<Rightarrow> int \<Rightarrow> ikcpcb" where
  "ikcp_nodelay kcp nd t resend nc =
     (let kcp = (if nd \<ge> 0 then kcp\<lparr>nodelay := of_int nd, rx_minrto := (if nd \<noteq> 0 then IKCP_RTO_NDL else IKCP_RTO_MIN)\<rparr>
                 else kcp);
          kcp = (if t \<ge> 0 then kcp\<lparr>interval := clamp_interval t\<rparr> else kcp);
          kcp = (if resend \<ge> 0 then kcp\<lparr>fastresend := resend\<rparr> else kcp)
      in if nc \<ge> 0 then kcp\<lparr>nocwnd := nc\<rparr> else kcp)"

definition ikcp_wndsize :: "ikcpcb \<Rightarrow> int \<Rightarrow> int \<Rightarrow> ikcpcb" where
  "ikcp_wndsize kcp sndwnd rcvwnd =
     (let kcp = (if sndwnd > 0 then kcp\<lparr>snd_wnd := of_int sndwnd\<rparr> else kcp)
      in if rcvwnd > 0 then kcp\<lparr>rcv_wnd := imax (of_int rcvwnd) IKCP_WND_RCV\<rparr> else kcp)"

definition ikcp_waitsnd :: "ikcpcb \<Rightarrow> u32" where
  "ikcp_waitsnd kcp = nsnd_buf kcp + nsnd_que kcp"

definition ikcp_getconv :: "byte list \<Rightarrow> u32 option" where
  "ikcp_getconv p = map_option fst (ikcp_decode32u p)"

end
