(* ===== verification/Kcp_Receive.thy ===== *)
theory Kcp_Receive
  imports Kcp
begin

section \<open>What the receiving side of KCP keeps\<close>

text \<open>
  Differences of 32-bit words read as signed numbers, the invariant of \<open>rcv_queue\<close> and \<open>rcv_buf\<close>, and that
  \<open>ikcp_parse_data\<close> and \<open>ikcp_recv\<close> keep it.
\<close>

subsection \<open>Signed differences\<close>

lemma sint32: "sint (w :: u32) = (if unat w < 2 ^ 31 then int (unat w) else int (unat w) - 2 ^ 32)"
proof -
  have b: "uint w < 2 ^ 32" "0 \<le> uint w" using uint_lt2p [of w] by simp_all
  have "sint w = (uint w + 2 ^ 31) mod 2 ^ 32 - 2 ^ 31"
    by (simp add: sint_uint signed_take_bit_eq_take_bit_shift take_bit_eq_mod add.commute)
  also have "\<dots> = (if uint w < 2 ^ 31 then uint w else uint w - 2 ^ 32)"
  proof (cases "uint w < 2 ^ 31")
    case True
    then show ?thesis using b by (simp add: mod_pos_pos_trivial)
  next
    case False
    have "(uint w + 2 ^ 31) mod 2 ^ 32 = ((uint w - 2 ^ 31) + 2 ^ 32) mod 2 ^ 32" by (simp add: add.commute)
    also have "\<dots> = uint w - 2 ^ 31" using False b by (simp only: mod_add_self2) (simp add: mod_pos_pos_trivial)
    finally show ?thesis using False by simp
  qed
  finally have "sint w = (if uint w < 2 ^ 31 then uint w else uint w - 2 ^ 32)" .
  moreover obtain m where "unat w = m" "uint w = int m" by simp
  ultimately show ?thesis by simp
qed

lemma unat_minus32: "unat ((a :: u32) - b) = (if unat b \<le> unat a then unat a - unat b else unat a + 2 ^ 32 - unat b)"
  by (simp add: unat_sub_if')

lemma unat_lt32: "unat (w :: u32) < 2 ^ 32"
  using unsigned_less [of w] by simp

lemma itimediff_cases: "itimediff a b = (if unat (a - b) < 2 ^ 31 then int (unat (a - b)) else int (unat (a - b)) - 2 ^ 32)"
  by (simp add: itimediff_def sint32)

lemma itimediff_neg: "itimediff a b < 0 \<longleftrightarrow> 2 ^ 31 \<le> unat (a - b)"
  using uint_lt2p [of "a - b"] by (simp add: itimediff_cases not_less [symmetric])

lemma itimediff_pos: "itimediff a b > 0 \<longleftrightarrow> a \<noteq> b \<and> unat (a - b) < 2 ^ 31"
proof -
  have "0 < uint (a - b) \<longleftrightarrow> a \<noteq> b" using unat_gt_0 [of "a - b"] by (simp add: nat_uint_eq [symmetric] del: nat_uint_eq)
  thus ?thesis using uint_lt2p [of "a - b"] by (auto simp: itimediff_cases)
qed

subsection \<open>The invariant\<close>

text \<open>The distance of a segment from \<open>rcv_nxt\<close>; a run of consecutive sequence numbers from \<open>a\<close> up to, without, \<open>b\<close>.\<close>

definition rcv_off :: "u32 \<Rightarrow> ikcpseg \<Rightarrow> nat" where
  "rcv_off n s = unat (sg_sn s - n)"

fun consecutive :: "u32 \<Rightarrow> ikcpseg list \<Rightarrow> u32 \<Rightarrow> bool" where
  "consecutive a [] b = (a = b)"
| "consecutive a (s # ss) b = (sg_sn s = a \<and> consecutive (a + 1) ss b)"

text \<open>\<open>rcv_queue\<close> holds the run of segments that ends before \<open>rcv_nxt\<close>, \<open>rcv_buf\<close> later ones in order, none twice.\<close>

definition rcv_inv :: "ikcpcb \<Rightarrow> bool" where
  "rcv_inv kcp \<longleftrightarrow>
     nrcv_que kcp = of_nat (length (rcv_queue kcp)) \<and> nrcv_buf kcp = of_nat (length (rcv_buf kcp)) \<and>
     consecutive (rcv_nxt kcp - nrcv_que kcp) (rcv_queue kcp) (rcv_nxt kcp) \<and>
     sorted_wrt (<) (map (rcv_off (rcv_nxt kcp)) (rcv_buf kcp)) \<and>
     list_all (\<lambda>s. rcv_off (rcv_nxt kcp) s < 2 ^ 31) (rcv_buf kcp)"

lemma consecutive_append: "consecutive a (xs @ ys) b \<longleftrightarrow> consecutive a xs (a + of_nat (length xs)) \<and> consecutive (a + of_nat (length xs)) ys b"
  by (induction xs arbitrary: a) (simp_all add: ac_simps)

lemma rcv_off_suc: "0 < rcv_off n s \<Longrightarrow> rcv_off (n + 1) s = rcv_off n s - 1"
proof -
  assume a: "0 < rcv_off n s"
  have "sg_sn s - (n + 1) = (sg_sn s - n) - 1" by simp
  with a show ?thesis by (simp only: rcv_off_def) (simp add: unat_sub_if' Suc_le_eq)
qed

lemma rcv_off_0: "rcv_off n s = 0 \<longleftrightarrow> sg_sn s = n"
  by (simp add: rcv_off_def unat_eq_0)

lemma rcv_buf_shift:
  assumes "sorted_wrt (<) (map (rcv_off n) (s # ss))" "list_all (\<lambda>s. rcv_off n s < 2 ^ 31) (s # ss)"
  shows "sorted_wrt (<) (map (rcv_off (n + 1)) ss) \<and> list_all (\<lambda>s. rcv_off (n + 1) s < 2 ^ 31) ss"
proof -
  have p: "0 < rcv_off n t" if "t \<in> set ss" for t using assms(1) that by auto
  have q: "map (rcv_off (n + 1)) ss = map (\<lambda>t. rcv_off n t - 1) ss"
    using p by (simp add: rcv_off_suc)
  have "sorted_wrt (\<lambda>x y. rcv_off n x - 1 < rcv_off n y - 1) ss"
    using assms(1) by (auto simp: sorted_wrt_map intro!: sorted_wrt_mono_rel [of ss "\<lambda>x y. rcv_off n x < rcv_off n y"] dest: p)
  thus ?thesis unfolding q using assms(2) p by (auto simp: sorted_wrt_map list_all_iff rcv_off_suc)
qed

lemma move_ready_inv: "rcv_inv (kcp\<lparr>rcv_buf := b\<rparr>) \<Longrightarrow> rcv_inv (move_ready b kcp)"
proof (induction b arbitrary: kcp)
  case (Cons s ss)
  let ?n = "rcv_nxt kcp"
  show ?case
  proof (cases "sg_sn s = ?n \<and> nrcv_que kcp < rcv_wnd kcp")
    case True
    have "rcv_inv (kcp\<lparr>nrcv_buf := nrcv_buf kcp - 1, rcv_queue := rcv_queue kcp @ [s],
             nrcv_que := nrcv_que kcp + 1, rcv_nxt := ?n + 1, rcv_buf := ss\<rparr>)"
      using Cons.prems rcv_buf_shift [of ?n s ss] True
      by (auto simp: rcv_inv_def consecutive_append simp del: sorted_wrt.simps list.map)
    from Cons.IH [of "kcp\<lparr>nrcv_buf := nrcv_buf kcp - 1, rcv_queue := rcv_queue kcp @ [s],
             nrcv_que := nrcv_que kcp + 1, rcv_nxt := ?n + 1\<rparr>"] this True
    show ?thesis by simp
  qed (use Cons.prems in auto)
qed simp

lemma move_ready_inv_self: "rcv_inv kcp \<Longrightarrow> b = rcv_buf kcp \<Longrightarrow> rcv_inv (move_ready b kcp)"
  by (rule move_ready_inv) simp

lemma sn_order:
  assumes "rcv_off n s < 2 ^ 31" "rcv_off n t < 2 ^ 31"
  shows "itimediff (sg_sn s) (sg_sn t) > 0 \<longleftrightarrow> rcv_off n t < rcv_off n s"
proof -
  have e: "sg_sn s - sg_sn t = (sg_sn s - n) - (sg_sn t - n)" by simp
  have "sg_sn s \<noteq> sg_sn t \<longleftrightarrow> rcv_off n s \<noteq> rcv_off n t" by (auto simp: rcv_off_def simp flip: word_unat_eq_iff)
  moreover have "unat (sg_sn s - sg_sn t) = (if rcv_off n t \<le> rcv_off n s then rcv_off n s - rcv_off n t
      else rcv_off n s + 2 ^ 32 - rcv_off n t)" unfolding e by (simp only: unat_minus32 rcv_off_def)
  ultimately show ?thesis using assms by (auto simp: itimediff_pos)
qed

lemma insert_back_ok:
  assumes "sorted_wrt (>) (map (rcv_off n) b)" "list_all (\<lambda>s. rcv_off n s < 2 ^ 31) (new # b)" "insert_back new b = Some r"
  shows "sorted_wrt (>) (map (rcv_off n) r) \<and> set r = insert new (set b) \<and> length r = length b + 1"
  using assms
proof (induction b arbitrary: r)
  case (Cons s ss)
  have o: "itimediff (sg_sn new) (sg_sn s) > 0 \<longleftrightarrow> rcv_off n s < rcv_off n new"
    using Cons.prems(2) by (intro sn_order) simp_all
  have d: "sg_sn s \<noteq> sg_sn new" using Cons.prems(3) by (auto split: if_splits)
  hence ne: "rcv_off n s \<noteq> rcv_off n new" by (simp add: rcv_off_def flip: word_unat_eq_iff)
  show ?case
  proof (cases "rcv_off n s < rcv_off n new")
    case True
    then show ?thesis using Cons.prems o d by fastforce
  next
    case False
    then obtain r' where r': "insert_back new ss = Some r'" "r = s # r'" using Cons.prems(3) o d by auto
    have "sorted_wrt (>) (map (rcv_off n) r') \<and> set r' = insert new (set ss) \<and> length r' = length ss + 1"
      using Cons.IH [OF _ _ r'(1)] Cons.prems by simp
    then show ?thesis using r' False ne Cons.prems by auto
  qed
qed auto

lemma parse_data_guard:
  assumes "\<not> (itimediff sn (n + w) \<ge> 0 \<or> itimediff sn n < 0)"
  shows "unat (sn - n) < 2 ^ 31"
  using assms by (simp add: itimediff_neg not_le)

lemma ikcp_parse_data_inv:
  assumes "rcv_inv kcp"
  shows "rcv_inv (ikcp_parse_data kcp newseg)"
proof (cases "itimediff (sg_sn newseg) (rcv_nxt kcp + rcv_wnd kcp) \<ge> 0 \<or> itimediff (sg_sn newseg) (rcv_nxt kcp) < 0")
  case False
  have o: "rcv_off (rcv_nxt kcp) newseg < 2 ^ 31" unfolding rcv_off_def by (rule parse_data_guard [OF False])
  show ?thesis
  proof (cases "insert_back newseg (rev (rcv_buf kcp))")
    case None
    then show ?thesis using assms False by (simp add: ikcp_parse_data_def Let_def move_ready_inv_self)
  next
    case (Some b)
    have "sorted_wrt (>) (map (rcv_off (rcv_nxt kcp)) b) \<and> set b = insert newseg (set (rev (rcv_buf kcp))) \<and> length b = length (rev (rcv_buf kcp)) + 1"
      using assms o by (intro insert_back_ok [OF _ _ Some]) (auto simp: rcv_inv_def sorted_wrt_rev list_all_iff simp flip: rev_map)
    hence "rcv_inv (kcp\<lparr>rcv_buf := rev b, nrcv_buf := nrcv_buf kcp + 1\<rparr>)"
      using assms o by (auto simp: rcv_inv_def sorted_wrt_rev list_all_iff simp flip: rev_map)
    then show ?thesis using False Some by (simp add: ikcp_parse_data_def Let_def move_ready_inv_self)
  qed
qed (use assms in \<open>simp add: ikcp_parse_data_def Let_def\<close>)


subsection \<open>Reading\<close>

text \<open>What the invariant reads.\<close>

definition rcv_view :: "ikcpcb \<Rightarrow> ikcpseg list \<times> ikcpseg list \<times> u32 \<times> u32 \<times> u32" where
  "rcv_view kcp = (rcv_queue kcp, rcv_buf kcp, nrcv_que kcp, nrcv_buf kcp, rcv_nxt kcp)"

lemma rcv_inv_view: "rcv_view kcp = rcv_view kcp' \<Longrightarrow> rcv_inv kcp = rcv_inv kcp'"
  by (simp add: rcv_inv_def rcv_view_def)

lemma recv_merge_split:
  "recv_merge q = (d, len, n, rest) \<Longrightarrow>
     rest = drop n q \<and> n \<le> length q \<and> d = concat (map sg_data (take n q)) \<and> len = peek_length q"
proof (induction q arbitrary: d len n rest)
  case (Cons s ss)
  obtain d' len' n' rest' where r: "recv_merge ss = (d', len', n', rest')" by (metis prod_cases4)
  show ?case using Cons.IH [OF r] Cons.prems r by (auto split: if_splits)
qed simp

lemma consecutive_drop: "consecutive a q b \<Longrightarrow> n \<le> length q \<Longrightarrow> consecutive (a + of_nat n) (drop n q) b"
  using consecutive_append [of a "take n q" "drop n q" b] by (simp add: min_absorb2)

lemma take_out_inv:
  assumes "rcv_inv kcp" "n \<le> length (rcv_queue kcp)"
  shows "rcv_inv (kcp\<lparr>rcv_queue := drop n (rcv_queue kcp), nrcv_que := nrcv_que kcp - of_nat n\<rparr>)"
  using assms consecutive_drop [of "rcv_nxt kcp - nrcv_que kcp" "rcv_queue kcp" "rcv_nxt kcp" n]
  by (auto simp: rcv_inv_def algebra_simps)

lemma rcv_inv_probe [simp]: "rcv_inv (kcp\<lparr>probe := x\<rparr>) = rcv_inv kcp"
  by (simp add: rcv_inv_def)

text \<open>What \<open>ikcp_recv\<close> returns, and that it never fails.\<close>

lemma peek_merge:
  assumes "recv_merge (rcv_queue kcp) = (d, len, n, rest)" "0 \<le> ikcp_peeksize kcp"
  shows "sint len = ikcp_peeksize kcp"
  using assms recv_merge_split [OF assms(1)]
  by (cases "rcv_queue kcp") (auto simp: ikcp_peeksize_def split: if_splits)

lemma ikcp_recv_returns:
  assumes "rcv_inv kcp"
  shows "\<exists>r d kcp'. ikcp_recv kcp len = Some (r, d, kcp') \<and> rcv_inv kcp'"
proof -
  obtain d l n rest where m: "recv_merge (rcv_queue kcp) = (d, l, n, rest)" by (metis prod_cases4)
  have t: "rcv_inv (kcp\<lparr>rcv_queue := rest, nrcv_que := nrcv_que kcp - of_nat n\<rparr>)"
    using take_out_inv [OF assms, of n] recv_merge_split [OF m] by simp
  show ?thesis
    using assms m t peek_merge [OF m]
    by (simp add: ikcp_recv_def Let_def move_ready_inv_self)
qed

end
