(* ===== verification/Kcp_Send.thy ===== *)
theory Kcp_Send
  imports Kcp_Receive
begin

section \<open>What the sending side of KCP keeps\<close>

text \<open>
  The invariant of \<open>snd_queue\<close> and \<open>snd_buf\<close>, that acknowledgements and a flush keep it, and that a flush neither
  writes past \<open>kcp->buffer\<close> nor hands out a datagram longer than the MTU.
\<close>

text \<open>What retransmission never changes of a segment.\<close>

definition seg_key :: "ikcpseg \<Rightarrow> u32 \<times> u32 \<times> byte list" where
  "seg_key s = (sg_sn s, sg_len s, sg_data s)"

definition snd_off :: "u32 \<Rightarrow> u32 \<times> u32 \<times> byte list \<Rightarrow> nat" where
  "snd_off n k = unat (n - fst k)"

definition sized :: "u32 \<Rightarrow> u32 \<times> u32 \<times> byte list \<Rightarrow> bool" where
  "sized m k \<longleftrightarrow> fst (snd k) \<le> m \<and> length (snd (snd k)) = unat (fst (snd k))"

definition first_una :: "ikcpcb \<Rightarrow> u32" where
  "first_una kcp = (case snd_buf kcp of s # _ \<Rightarrow> sg_sn s | [] \<Rightarrow> snd_nxt kcp)"

lemma first_una_simps [simp]:
  "first_una (kcp\<lparr>snd_queue := q\<rparr>) = first_una kcp" "first_una (kcp\<lparr>snd_una := u\<rparr>) = first_una kcp"
  by (simp_all add: first_una_def split: list.split)

definition window_ok :: "u32 \<Rightarrow> (u32 \<times> u32 \<times> byte list) list \<Rightarrow> bool" where
  "window_ok n ks \<longleftrightarrow> sorted_wrt (>) (map (snd_off n) ks) \<and> list_all (\<lambda>k. 0 < snd_off n k \<and> snd_off n k < 2 ^ 16) ks"

definition mtu_ok :: "ikcpcb \<Rightarrow> bool" where
  "mtu_ok kcp \<longleftrightarrow> mss kcp + 24 = mtu kcp \<and> 50 \<le> unat (mtu kcp) \<and> unat (mtu kcp) < 2 ^ 30 \<and> unat (mtu kcp) \<le> unat (bufsize kcp)"

lemma mtu_ok_simps [simp]:
  "mtu_ok (kcp\<lparr>snd_queue := q\<rparr>) = mtu_ok kcp" "mtu_ok (kcp\<lparr>snd_una := u\<rparr>) = mtu_ok kcp"
  "mtu_ok (kcp\<lparr>snd_buf := b\<rparr>) = mtu_ok kcp" "mtu_ok (kcp\<lparr>nsnd_que := n\<rparr>) = mtu_ok kcp"
  "mtu_ok (kcp\<lparr>nsnd_buf := n\<rparr>) = mtu_ok kcp" "mtu_ok (kcp\<lparr>snd_nxt := n\<rparr>) = mtu_ok kcp"
  "mtu_ok (kcp\<lparr>rmt_wnd := n\<rparr>) = mtu_ok kcp" "mtu_ok (kcp\<lparr>xmit := n\<rparr>) = mtu_ok kcp" "mtu_ok (kcp\<lparr>kstate := n\<rparr>) = mtu_ok kcp"
  by (simp_all add: mtu_ok_def)

definition snd_core :: "ikcpcb \<Rightarrow> bool" where
  "snd_core kcp \<longleftrightarrow>
     nsnd_que kcp = of_nat (length (snd_queue kcp)) \<and> nsnd_buf kcp = of_nat (length (snd_buf kcp)) \<and>
     unat (rmt_wnd kcp) < 2 ^ 16 \<and> window_ok (snd_nxt kcp) (map seg_key (snd_buf kcp)) \<and>
     list_all (\<lambda>s. sized (mss kcp) (seg_key s)) (snd_queue kcp) \<and>
     list_all (sized (mss kcp)) (map seg_key (snd_buf kcp))"

definition snd_inv :: "ikcpcb \<Rightarrow> bool" where
  "snd_inv kcp \<longleftrightarrow> snd_core kcp \<and> mtu_ok kcp \<and> snd_una kcp = first_una kcp"

lemma mss_of_mtu: "mtu_ok kcp \<Longrightarrow> unat (mss kcp) + 24 = unat (mtu kcp)"
proof -
  assume a: "mtu_ok kcp"
  hence "mss kcp = mtu kcp - 24" by (simp add: mtu_ok_def eq_diff_eq)
  thus ?thesis using a by (simp add: mtu_ok_def unat_sub_if')
qed

lemma mtu_lt: "mtu_ok kcp \<Longrightarrow> unat (mtu kcp) < 2 ^ 31"
  unfolding mtu_ok_def by (elim conjE) (erule less_trans; simp)

lemma ikcp_shrink_buf_inv: "snd_core kcp \<Longrightarrow> mtu_ok kcp \<Longrightarrow> snd_inv (ikcp_shrink_buf kcp)"
  by (simp add: snd_inv_def snd_core_def ikcp_shrink_buf_def flip: first_una_def)

lemma drop_una_split: "\<exists>j \<le> length b. drop_una una b n = (drop j b, n - of_nat j)"
proof (induction b arbitrary: n)
  case (Cons s ss)
  obtain j where j: "j \<le> length ss" "drop_una una ss (n - 1) = (drop j ss, n - 1 - of_nat j)" using Cons.IH by blast
  show ?case
  proof (cases "itimediff una (sg_sn s) > 0")
    case True
    then show ?thesis using j by (intro exI [of _ "Suc j"]) simp
  qed (auto intro!: exI [of _ 0])
qed simp

lemma window_ok_drop: "window_ok n ks \<Longrightarrow> window_ok n (drop j ks)"
  by (auto simp: window_ok_def drop_map [symmetric] sorted_wrt_drop list_all_iff dest: in_set_dropD)

lemma ikcp_parse_una_core: "snd_core kcp \<Longrightarrow> snd_core (ikcp_parse_una kcp una)"
proof -
  assume c: "snd_core kcp"
  obtain j where j: "j \<le> length (snd_buf kcp)"
      "drop_una una (snd_buf kcp) (nsnd_buf kcp) = (drop j (snd_buf kcp), nsnd_buf kcp - of_nat j)"
    using drop_una_split by blast
  thus ?thesis using c window_ok_drop [of "snd_nxt kcp" "map seg_key (snd_buf kcp)" j]
    by (auto simp: snd_core_def ikcp_parse_una_def drop_map list_all_iff of_nat_diff dest: in_set_dropD)
qed

lemma remove_sn_split:
  "remove_sn sn b = (r, found) \<Longrightarrow>
     (if found then \<exists>xs s ys. b = xs @ s # ys \<and> sg_sn s = sn \<and> r = xs @ ys else r = b)"
proof (induction b arbitrary: r found)
  case (Cons s ss)
  obtain r' f' where r: "remove_sn sn ss = (r', f')" by fastforce
  consider "sn = sg_sn s" | "sn \<noteq> sg_sn s" "itimediff sn (sg_sn s) < 0" | "sn \<noteq> sg_sn s" "\<not> itimediff sn (sg_sn s) < 0"
    by blast
  then show ?case
  proof cases
    case 1
    then show ?thesis using Cons.prems by (auto intro!: exI [of _ "[]"])
  next
    case 2
    then show ?thesis using Cons.prems by auto
  next
    case 3
    then have e: "r = s # r'" "found = f'" using Cons.prems r by auto
    show ?thesis
    proof (cases f')
      case True
      then obtain xs t ys where "ss = xs @ t # ys" "sg_sn t = sn" "r' = xs @ ys" using Cons.IH [OF r] by auto
      then show ?thesis using e True by (auto intro!: exI [of _ "s # xs"])
    next
      case False
      then show ?thesis using Cons.IH [OF r] e by simp
    qed
  qed
qed simp

lemma window_ok_remove: "window_ok n (xs @ k # ys) \<Longrightarrow> window_ok n (xs @ ys)"
  by (auto simp: window_ok_def sorted_wrt_append)

lemma ikcp_parse_ack_core: "snd_core kcp \<Longrightarrow> snd_core (ikcp_parse_ack kcp sn)"
proof -
  assume c: "snd_core kcp"
  obtain r f where r: "remove_sn sn (snd_buf kcp) = (r, f)" by fastforce
  show ?thesis
  proof (cases f)
    case True
    then obtain xs s ys where b: "snd_buf kcp = xs @ s # ys" "r = xs @ ys" using remove_sn_split [OF r] by auto
    show ?thesis
      using c window_ok_remove [of "snd_nxt kcp" "map seg_key xs" "seg_key s" "map seg_key ys"] b True r
      by (auto simp: snd_core_def ikcp_parse_ack_def Let_def)
  qed (use c r remove_sn_split [OF r] in \<open>auto simp: snd_core_def ikcp_parse_ack_def Let_def\<close>)
qed

lemma count_skips_key: "map seg_key (count_skips sn b) = map seg_key b"
  by (induction b) (auto simp: seg_key_def)

lemma snd_core_key: "map seg_key b = map seg_key (snd_buf kcp) \<Longrightarrow> snd_core (kcp\<lparr>snd_buf := b\<rparr>) = snd_core kcp"
  by (simp add: snd_core_def map_eq_imp_length_eq [of seg_key b])

lemma first_una_key: "map seg_key b = map seg_key (snd_buf kcp) \<Longrightarrow> first_una (kcp\<lparr>snd_buf := b\<rparr>) = first_una kcp"
  by (cases b; cases "snd_buf kcp") (auto simp: first_una_def seg_key_def)

lemma snd_inv_key: "map seg_key b = map seg_key (snd_buf kcp) \<Longrightarrow> snd_inv (kcp\<lparr>snd_buf := b\<rparr>) = snd_inv kcp"
  by (simp add: snd_inv_def snd_core_key first_una_key)

lemma ikcp_parse_fastack_inv: "snd_inv (ikcp_parse_fastack kcp sn) = snd_inv kcp"
  by (simp add: ikcp_parse_fastack_def snd_inv_key count_skips_key)


lemma encode_seg_length [simp]: "length (ikcp_encode_seg s) = 24"
  by (simp add: ikcp_encode_seg_def ikcp_encode32u_def ikcp_encode16u_def ikcp_encode8u_def)

definition out_ok :: "ikcpcb \<Rightarrow> outgoing \<Rightarrow> bool" where
  "out_ok kcp st \<longleftrightarrow> length (fst st) \<le> unat (mtu kcp) \<and> list_all (\<lambda>d. 0 < length d \<and> length d \<le> unat (mtu kcp)) (snd st)"

lemma out_ok_simps [simp]:
  "out_ok (kcp\<lparr>xmit := a\<rparr>) st = out_ok kcp st" "out_ok (kcp\<lparr>kstate := a\<rparr>) st = out_ok kcp st"
  by (simp_all add: out_ok_def)

lemma ikcp_output_ok: "out_ok kcp (buf, outs) \<Longrightarrow> list_all (\<lambda>d. 0 < length d \<and> length d \<le> unat (mtu kcp)) (ikcp_output buf outs)"
  by (auto simp: out_ok_def ikcp_output_def)

lemma put_ok:
  assumes "mtu_ok kcp" "out_ok kcp st" "length bs \<le> unat (mtu kcp)" "need = int (length bs)"
  shows "\<exists>st'. put_bytes kcp bs (make_room kcp need st) = Some st' \<and> out_ok kcp st'"
proof -
  obtain buf outs where st: "st = (buf, outs)" by fastforce
  have m: "sint (mtu kcp) = int (unat (mtu kcp))" using mtu_lt [OF assms(1)] by (simp only: sint32 if_True)
  have f: "int n \<le> uint (bufsize kcp)" if "n \<le> unat (mtu kcp)" for n
    using that assms(1) by (auto simp: mtu_ok_def uint_nat simp del: of_nat_unat)
  show ?thesis
  proof (cases "int (length buf) + need > sint (mtu kcp)")
    case True
    then show ?thesis using assms ikcp_output_ok [of kcp buf outs] st f [of "length bs"]
      by (auto simp: make_room_def put_bytes_def out_ok_def)
  next
    case False
    then have "length buf + length bs \<le> unat (mtu kcp)" using m assms(4) by linarith
    then show ?thesis using assms st False f [of "length buf + length bs"] by (auto simp: make_room_def put_bytes_def out_ok_def)
  qed
qed

lemma flush_acks_ok:
  "mtu_ok kcp \<Longrightarrow> out_ok kcp st \<Longrightarrow>
     \<exists>seg' st'. flush_acks kcp seg acks st = Some (seg', st') \<and> out_ok kcp st'"
proof (induction acks arbitrary: seg st)
  case (Cons a acks)
  obtain sn ts where a: "a = (sn, ts)" by fastforce
  obtain st' where "put_bytes kcp (ikcp_encode_seg (seg\<lparr>sg_sn := sn, sg_ts := ts\<rparr>)) (make_room kcp (int IKCP_OVERHEAD) st) = Some st'" "out_ok kcp st'"
    using put_ok [OF Cons.prems, of "ikcp_encode_seg (seg\<lparr>sg_sn := sn, sg_ts := ts\<rparr>)" "int IKCP_OVERHEAD"] Cons.prems
    by (auto simp: IKCP_OVERHEAD_def mtu_ok_def)
  then show ?case using Cons.IH [OF Cons.prems(1)] a by (simp add: Let_def)
qed simp

lemma flush_probe_ok:
  assumes "mtu_ok kcp" "out_ok kcp st"
  shows "\<exists>seg' st'. flush_probe kcp ask cmd seg st = Some (seg', st') \<and> out_ok kcp st'"
proof -
  obtain st' where "put_bytes kcp (ikcp_encode_seg (seg\<lparr>sg_cmd := cmd\<rparr>)) (make_room kcp (int IKCP_OVERHEAD) st) = Some st'" "out_ok kcp st'"
    using put_ok [OF assms, of "ikcp_encode_seg (seg\<lparr>sg_cmd := cmd\<rparr>)" "int IKCP_OVERHEAD"] assms
    by (auto simp: IKCP_OVERHEAD_def mtu_ok_def)
  then show ?thesis using assms by (cases st; cases st') (simp add: flush_probe_def Let_def)
qed

lemma mark_sent_key [simp]:
  "sg_len (mark_sent kcp rtomin why s) = sg_len s" "sg_data (mark_sent kcp rtomin why s) = sg_data s"
  "sg_sn (mark_sent kcp rtomin why s) = sg_sn s"
  by (simp_all add: mark_sent_def split: reason.split)

lemma seg_key_simps [simp]:
  "seg_key (mark_sent kcp rtomin why s) = seg_key s" "seg_key (s\<lparr>sg_ts := a\<rparr>) = seg_key s"
  "seg_key (s\<lparr>sg_wnd := a\<rparr>) = seg_key s" "seg_key (s\<lparr>sg_una := a\<rparr>) = seg_key s"
  by (simp_all add: seg_key_def)

lemma need_sint:
  assumes "mtu_ok kcp" "len \<le> mss kcp"
  shows "sint (of_nat IKCP_OVERHEAD + len) = 24 + int (unat len)" "24 + unat len \<le> unat (mtu kcp)"
proof -
  show l: "24 + unat len \<le> unat (mtu kcp)" using mss_of_mtu [OF assms(1)] assms(2) by (simp add: word_le_nat_alt)
  have "unat (24 + len) = 24 + unat len" using l unat_lt32 [of "mtu kcp"] by (simp add: unat_word_ariths)
  thus "sint (of_nat IKCP_OVERHEAD + len) = 24 + int (unat len)"
    using l mtu_lt [OF assms(1)] by (simp add: sint32 IKCP_OVERHEAD_def)
qed

lemma flush_data_ok:
  assumes "mtu_ok kcp" "out_ok kcp st" "list_all (\<lambda>s. sized (mss kcp) (seg_key s)) b"
  shows "\<exists>b' x y st' change' lost'. flush_data kcp wnd resent rtomin b st change lost =
           Some (b', kcp\<lparr>xmit := x, kstate := y\<rparr>, st', change', lost') \<and> map seg_key b' = map seg_key b \<and> out_ok kcp st'"
  using assms
proof (induction b arbitrary: kcp st change lost)
  case Nil
  have "kcp = kcp\<lparr>xmit := xmit kcp, kstate := kstate kcp\<rparr>" by simp
  then show ?case using Nil by (metis flush_data.simps(1))
next
  case (Cons s ss)
  let ?why = "send_reason kcp resent s"
  let ?s = "mark_sent kcp rtomin ?why s"
  show ?case
  proof (cases "?why = NoSend")
    case True
    obtain b' x y st' c l where "flush_data kcp wnd resent rtomin ss st change lost = Some (b', kcp\<lparr>xmit := x, kstate := y\<rparr>, st', c, l)"
        "map seg_key b' = map seg_key ss" "out_ok kcp st'"
      using Cons.IH [OF Cons.prems(1,2)] Cons.prems(3) by fastforce
    then show ?thesis using True by (simp add: Let_def mark_sent_def) blast
  next
    case False
    let ?t = "?s\<lparr>sg_ts := current kcp, sg_wnd := wnd, sg_una := rcv_nxt kcp\<rparr>"
    let ?k = "kcp\<lparr>xmit := (if ?why = Timeout then xmit kcp + 1 else xmit kcp),
                   kstate := (if sg_xmit ?t \<ge> dead_link kcp then - 1 else kstate kcp)\<rparr>"
    let ?bs = "ikcp_encode_seg ?t @ take (unat (sg_len s)) (sg_data s)"
    have z: "sg_len s \<le> mss kcp" "length (sg_data s) = unat (sg_len s)" using Cons.prems(3) by (simp_all add: sized_def seg_key_def)
    obtain st1 where p: "put_bytes kcp ?bs (make_room kcp (sint (of_nat IKCP_OVERHEAD + sg_len s)) st) = Some st1" "out_ok kcp st1"
      using put_ok [OF Cons.prems(1,2), of ?bs "sint (of_nat IKCP_OVERHEAD + sg_len s)"] need_sint [OF Cons.prems(1) z(1)] z(2)
      by auto
    have k: "mtu_ok ?k" "out_ok ?k st1" "list_all (\<lambda>s. sized (mss ?k) (seg_key s)) ss"
      using Cons.prems p(2) by (simp_all add: mtu_ok_def out_ok_def)
    obtain b' x y st' c l where "flush_data ?k wnd resent rtomin ss st1 (if ?why = Skipped then change + 1 else change) (lost \<or> ?why = Timeout)
          = Some (b', ?k\<lparr>xmit := x, kstate := y\<rparr>, st', c, l)"
        "map seg_key b' = map seg_key ss" "out_ok ?k st'"
      using Cons.IH [OF k] by blast
    then show ?thesis using False p(1) by (simp add: Let_def) blast
  qed
qed


lemma in_flight:
  assumes "window_ok (snd_nxt kcp) (map seg_key (snd_buf kcp))" "snd_una kcp = first_una kcp"
  shows "unat (snd_nxt kcp - snd_una kcp) < 2 ^ 16"
    and "\<And>s. s \<in> set (snd_buf kcp) \<Longrightarrow> snd_off (snd_nxt kcp) (seg_key s) \<le> unat (snd_nxt kcp - snd_una kcp)"
  using assms by (cases "snd_buf kcp"; force simp: window_ok_def first_una_def snd_off_def seg_key_def)+

lemma window_open:
  assumes "unat (n - una) < 2 ^ 16" "unat cw < 2 ^ 16" "itimediff n (una + cw) < 0"
  shows "unat (n - una) < unat cw"
proof (rule ccontr)
  assume "\<not> ?thesis"
  moreover have "n - (una + cw) = (n - una) - cw" by simp
  ultimately have "unat (n - (una + cw)) < 2 ^ 31" using assms(1) by (simp only: unat_minus32) simp
  thus False using assms(3) by (simp add: itimediff_neg)
qed

lemma snd_off_suc: "snd_off n k < 2 ^ 16 \<Longrightarrow> snd_off (n + 1) k = Suc (snd_off n k)"
proof -
  assume a: "snd_off n k < 2 ^ 16"
  have "n + 1 - fst k = (n - fst k) + 1" by simp
  hence "snd_off (n + 1) k = unat ((n - fst k) + 1)" by (simp only: snd_off_def)
  also have "\<dots> = Suc (unat (n - fst k))" using a by (simp add: unat_word_ariths snd_off_def del: add_diff_eq)
  finally show ?thesis by (simp add: snd_off_def)
qed

lemma window_ok_push:
  assumes "window_ok n ks" "\<And>k. k \<in> set ks \<Longrightarrow> Suc (snd_off n k) < 2 ^ 16"
  shows "window_ok (n + 1) (ks @ [(n, l, d)])"
proof -
  have e: "map (snd_off (n + 1)) ks = map (\<lambda>k. Suc (snd_off n k)) ks"
    using assms(2) by (auto intro: snd_off_suc simp: Suc_lessD)
  have "sorted_wrt (>) (map (\<lambda>k. Suc (snd_off n k)) ks)" using assms(1) by (simp add: window_ok_def sorted_wrt_map)
  moreover have "snd_off (n + 1) (n, l, d) = 1" by (simp add: snd_off_def)
  moreover have "0 < snd_off n k \<and> snd_off (n + 1) k = Suc (snd_off n k)" if "k \<in> set ks" for k
    using assms that by (auto simp: window_ok_def list_all_iff snd_off_suc Suc_lessD)
  ultimately show ?thesis unfolding window_ok_def using assms(2) by (auto simp: sorted_wrt_append list_all_iff e)
qed

lemma flush_move_inv:
  assumes "snd_inv (kcp\<lparr>snd_queue := q\<rparr>)" "unat cw < 2 ^ 16"
  shows "snd_inv (flush_move wnd cw q kcp)"
  using assms
proof (induction q arbitrary: kcp)
  case (Cons s ss)
  show ?case
  proof (cases "itimediff (snd_nxt kcp) (snd_una kcp + cw) < 0")
    case True
    let ?n = "s\<lparr>sg_conv := conv kcp, sg_cmd := IKCP_CMD_PUSH, sg_wnd := wnd, sg_ts := current kcp,
              sg_sn := snd_nxt kcp, sg_una := rcv_nxt kcp, sg_resendts := current kcp, sg_rto := of_int (rx_rto kcp),
              sg_fastack := 0, sg_xmit := 0\<rparr>"
    let ?k = "kcp\<lparr>snd_buf := snd_buf kcp @ [?n], nsnd_que := nsnd_que kcp - 1, nsnd_buf := nsnd_buf kcp + 1,
                snd_nxt := snd_nxt kcp + 1\<rparr>"
    have w: "window_ok (snd_nxt kcp) (map seg_key (snd_buf kcp))" and u: "snd_una kcp = first_una kcp"
      using Cons.prems(1) by (simp_all add: snd_inv_def snd_core_def)
    have f: "unat (snd_nxt kcp - snd_una kcp) < unat cw" using window_open [OF in_flight(1) [OF w u] Cons.prems(2) True] .
    have k: "seg_key ?n = (snd_nxt kcp, sg_len s, sg_data s)" by (simp add: seg_key_def)
    have "window_ok (snd_nxt kcp + 1) (map seg_key (snd_buf kcp) @ [seg_key ?n])"
      unfolding k using in_flight(2) [OF w u] f Cons.prems(2) by (intro window_ok_push [OF w]) fastforce
    moreover have "first_una ?k = first_una kcp" by (simp add: first_una_def split: list.split)
    moreover have "sized (mss kcp) (seg_key ?n)" using Cons.prems(1) by (simp add: snd_inv_def snd_core_def sized_def seg_key_def)
    ultimately have "snd_inv (?k\<lparr>snd_queue := ss\<rparr>)"
      using Cons.prems(1) u by (simp add: snd_inv_def snd_core_def)
    from Cons.IH [OF this Cons.prems(2)] show ?thesis using True by (simp add: Let_def)
  qed (use Cons.prems in simp)
qed simp


lemma rcv_view_simps [simp]:
  "rcv_view (kcp\<lparr>acklist := a\<rparr>) = rcv_view kcp" "rcv_view (kcp\<lparr>ackblock := c\<rparr>) = rcv_view kcp" "rcv_view (kcp\<lparr>probe := c\<rparr>) = rcv_view kcp"
  "rcv_view (kcp\<lparr>xmit := c\<rparr>) = rcv_view kcp" "rcv_view (kcp\<lparr>kstate := c\<rparr>) = rcv_view kcp" "rcv_view (kcp\<lparr>snd_buf := b\<rparr>) = rcv_view kcp"
  "rcv_view (kcp\<lparr>snd_queue := b\<rparr>) = rcv_view kcp" "rcv_view (kcp\<lparr>nsnd_buf := c\<rparr>) = rcv_view kcp" "rcv_view (kcp\<lparr>nsnd_que := c\<rparr>) = rcv_view kcp"
  "rcv_view (kcp\<lparr>snd_una := c\<rparr>) = rcv_view kcp" "rcv_view (kcp\<lparr>rmt_wnd := c\<rparr>) = rcv_view kcp" "rcv_view (kcp\<lparr>cwnd := c\<rparr>) = rcv_view kcp"
  "rcv_view (kcp\<lparr>incr := c\<rparr>) = rcv_view kcp" "rcv_view (kcp\<lparr>rx_srtt := i\<rparr>) = rcv_view kcp" "rcv_view (kcp\<lparr>rx_rttval := i\<rparr>) = rcv_view kcp"
  "rcv_view (kcp\<lparr>rx_rto := i\<rparr>) = rcv_view kcp" "rcv_view (kcp\<lparr>current := c\<rparr>) = rcv_view kcp" "rcv_view (kcp\<lparr>updated := c\<rparr>) = rcv_view kcp"
  "rcv_view (kcp\<lparr>ts_flush := c\<rparr>) = rcv_view kcp"
  by (simp_all add: rcv_view_def)

definition rtt_view :: "ikcpcb \<Rightarrow> int \<times> int \<times> int \<times> int" where
  "rtt_view kcp = (rx_rttval kcp, rx_srtt kcp, rx_rto kcp, rx_minrto kcp)"

lemma rtt_view_simps [simp]:
  "rtt_view (kcp\<lparr>acklist := a\<rparr>) = rtt_view kcp" "rtt_view (kcp\<lparr>probe := c\<rparr>) = rtt_view kcp"
  "rtt_view (kcp\<lparr>xmit := c\<rparr>) = rtt_view kcp" "rtt_view (kcp\<lparr>kstate := c\<rparr>) = rtt_view kcp" "rtt_view (kcp\<lparr>snd_buf := b\<rparr>) = rtt_view kcp"
  "rtt_view (kcp\<lparr>current := c\<rparr>) = rtt_view kcp" "rtt_view (kcp\<lparr>updated := c\<rparr>) = rtt_view kcp" "rtt_view (kcp\<lparr>ts_flush := c\<rparr>) = rtt_view kcp"
  by (simp_all add: rtt_view_def)

lemma flush_view:
  "rtt_view (flush_move wnd cw q kcp) = rtt_view kcp"
  "updated (flush_move wnd cw q kcp) = updated kcp" "rcv_view (flush_move wnd cw q kcp) = rcv_view kcp"
  "mtu (flush_move wnd cw q kcp) = mtu kcp" "mss (flush_move wnd cw q kcp) = mss kcp" "bufsize (flush_move wnd cw q kcp) = bufsize kcp"
  by (induction q arbitrary: kcp) (simp_all add: Let_def rcv_view_def rtt_view_def)

lemma snd_inv_frame [simp]:
  "snd_inv (kcp\<lparr>probe := a\<rparr>) = snd_inv kcp" "snd_inv (kcp\<lparr>acklist := l\<rparr>) = snd_inv kcp" "snd_inv (kcp\<lparr>probe_wait := a\<rparr>) = snd_inv kcp"
  "snd_inv (kcp\<lparr>ts_probe := a\<rparr>) = snd_inv kcp" "snd_inv (kcp\<lparr>xmit := a\<rparr>) = snd_inv kcp" "snd_inv (kcp\<lparr>kstate := a\<rparr>) = snd_inv kcp"
  "snd_inv (kcp\<lparr>cwnd := a\<rparr>) = snd_inv kcp" "snd_inv (kcp\<lparr>incr := a\<rparr>) = snd_inv kcp" "snd_inv (kcp\<lparr>ssthresh := a\<rparr>) = snd_inv kcp"
  "snd_inv (kcp\<lparr>current := a\<rparr>) = snd_inv kcp" "snd_inv (kcp\<lparr>updated := a\<rparr>) = snd_inv kcp" "snd_inv (kcp\<lparr>ts_flush := a\<rparr>) = snd_inv kcp"
  "snd_inv (kcp\<lparr>ackblock := a\<rparr>) = snd_inv kcp"
  by (simp_all add: snd_inv_def snd_core_def mtu_ok_def first_una_def cong: list.case_cong)

lemma probe_window_frame:
  "snd_inv (probe_window kcp) = snd_inv kcp" "rcv_view (probe_window kcp) = rcv_view kcp" "out_ok (probe_window kcp) st = out_ok kcp st"
  "rmt_wnd (probe_window kcp) = rmt_wnd kcp" "mtu (probe_window kcp) = mtu kcp" "rtt_view (probe_window kcp) = rtt_view kcp"
  by (simp_all add: probe_window_def Let_def rcv_view_def rtt_view_def out_ok_def)

lemma flush_cwnd_frame:
  "snd_inv (flush_cwnd kcp resent cw change lost) = snd_inv kcp" "rcv_view (flush_cwnd kcp resent cw change lost) = rcv_view kcp"
  "mtu (flush_cwnd kcp resent cw change lost) = mtu kcp" "rtt_view (flush_cwnd kcp resent cw change lost) = rtt_view kcp"
  by (simp_all add: flush_cwnd_def Let_def rcv_view_def rtt_view_def)

lemma imin_le: "imin a b \<le> a" "imin a b \<le> b"
  by (auto simp: imin_def)

lemma flush_window_le: "flush_window kcp \<le> rmt_wnd kcp"
  by (auto simp: flush_window_def Let_def intro: order_trans [OF imin_le(2)] imin_le(2))

lemma ikcp_flush_ok:
  assumes "snd_inv kcp"
  shows "\<exists>outs kcp'. ikcp_flush kcp = Some (outs, kcp') \<and> snd_inv kcp' \<and> rcv_view kcp' = rcv_view kcp \<and> rtt_view kcp' = rtt_view kcp \<and>
           list_all (\<lambda>d. 0 < length d \<and> length d \<le> unat (mtu kcp)) outs"
proof (cases "updated kcp = 0")
  case False
  have m: "mtu_ok kcp" using assms by (simp add: snd_inv_def)
  have o0: "out_ok kcp ([], [])" by (simp add: out_ok_def)
  obtain seg1 st1 where a: "flush_acks kcp (flush_seg kcp) (acklist kcp) ([], []) = Some (seg1, st1)" "out_ok kcp st1"
    using flush_acks_ok [OF m o0] by blast
  define k1 where "k1 = probe_window (kcp\<lparr>acklist := []\<rparr>)"
  have k1: "snd_inv k1" "rcv_view k1 = rcv_view kcp" "out_ok k1 st1" "mtu k1 = mtu kcp" "rtt_view k1 = rtt_view kcp"
    using assms a(2) by (simp_all add: k1_def probe_window_frame) (simp add: out_ok_def)
  have m1: "mtu_ok k1" using k1(1) by (simp add: snd_inv_def)
  obtain seg2 st2 where b: "flush_probe k1 IKCP_ASK_SEND IKCP_CMD_WASK seg1 st1 = Some (seg2, st2)" "out_ok k1 st2"
    using flush_probe_ok [OF m1 k1(3)] by blast
  obtain seg3 st3 where c: "flush_probe k1 IKCP_ASK_TELL IKCP_CMD_WINS seg2 st2 = Some (seg3, st3)" "out_ok k1 st3"
    using flush_probe_ok [OF m1 b(2)] by blast
  define k2 where "k2 = k1\<lparr>probe := 0\<rparr>"
  define k3 where "k3 = flush_move (sg_wnd seg3) (flush_window k2) (snd_queue k1) k2"
  have q: "snd_queue k2 = snd_queue k1" by (simp add: k2_def)
  have w: "unat (flush_window k2) < 2 ^ 16"
    using flush_window_le [of k2] k1(1) by (simp add: k2_def snd_inv_def snd_core_def word_le_nat_alt)
  have k3: "snd_inv k3" unfolding k3_def using k1(1) by (intro flush_move_inv [OF _ w]) (simp add: k2_def)
  have v3: "rcv_view k3 = rcv_view kcp" "mtu k3 = mtu kcp" "rtt_view k3 = rtt_view kcp" using k1 by (simp_all add: k3_def k2_def flush_view)
  have o3: "out_ok k3 st3" using c(2) v3(2) k1(4) by (simp add: out_ok_def)
  let ?resent = "flush_resent k3"
  let ?rtomin = "flush_rtomin k3"
  obtain b' x y buf outs ch lo where d: "flush_data k3 (sg_wnd seg3) ?resent ?rtomin (snd_buf k3) st3 0 False =
           Some (b', k3\<lparr>xmit := x, kstate := y\<rparr>, (buf, outs), ch, lo)" "map seg_key b' = map seg_key (snd_buf k3)" "out_ok k3 (buf, outs)"
    using flush_data_ok [of k3 st3 "snd_buf k3" "sg_wnd seg3" ?resent ?rtomin 0 False] k3 o3
    by (fastforce simp: snd_inv_def snd_core_def list_all_length)
  let ?k = "flush_cwnd (k3\<lparr>xmit := x, kstate := y, snd_buf := b'\<rparr>) ?resent (flush_window k2) ch lo"
  have "ikcp_flush kcp = Some (ikcp_output buf outs, ?k)"
    using False a(1) b(1) c(1) d(1) by (simp add: ikcp_flush_def Let_def q flip: k1_def k2_def k3_def)
  moreover have "snd_inv ?k" using k3 d(2) by (simp add: flush_cwnd_frame snd_inv_key)
  moreover have "rtt_view ?k = rtt_view kcp" using v3(3) by (simp add: flush_cwnd_frame)
  moreover have "rcv_view ?k = rcv_view kcp" using v3(1) by (simp add: flush_cwnd_frame)
  moreover have "list_all (\<lambda>d. 0 < length d \<and> length d \<le> unat (mtu kcp)) (ikcp_output buf outs)"
    using ikcp_output_ok [OF d(3)] v3(2) by simp
  ultimately show ?thesis by blast
qed (use assms in \<open>simp add: ikcp_flush_def\<close>)

end
