(* ===== verification/Kcp_Message.thy ===== *)
theory Kcp_Message
  imports Kcp_Send
begin

section \<open>Messages through KCP\<close>

text \<open>
  How \<open>ikcp_send\<close> splits a buffer, that it keeps the invariant of the sending side in both modes, and that
  \<open>ikcp_recv\<close> puts a split message together again.
\<close>

subsection \<open>Splitting\<close>

text \<open>The fragments of a buffer, as \<open>ikcp_send\<close> makes them.\<close>

fun fragments :: "nat \<Rightarrow> bool \<Rightarrow> byte list \<Rightarrow> nat \<Rightarrow> ikcpseg list" where
  "fragments m msg buffer 0 = []"
| "fragments m msg buffer (Suc n) =
     ikcp_segment_new (if msg then of_nat n else 0) (of_nat (min m (length buffer))) (take m buffer) # fragments m msg (drop m buffer) n"

lemma sint_mss: "mtu_ok kcp \<Longrightarrow> sint (mss kcp) = int (unat (mss kcp))"
  using mss_of_mtu [of kcp] mtu_lt [of kcp] by (simp add: sint32)

lemma send_fragments_eq:
  "mtu_ok kcp \<Longrightarrow> send_fragments kcp buffer (int (length buffer)) n =
     kcp\<lparr>snd_queue := snd_queue kcp @ fragments (unat (mss kcp)) (stream kcp = 0) buffer n, nsnd_que := nsnd_que kcp + of_nat n\<rparr>"
proof (induction n arbitrary: kcp buffer)
  case (Suc n)
  let ?m = "unat (mss kcp)"
  define size where "size = (if int (length buffer) > sint (mss kcp) then sint (mss kcp) else int (length buffer))"
  have size: "size = int (min ?m (length buffer))" proof -
    obtain m where "sint (mss kcp) = int m" "unat (mss kcp) = m" using sint_mss [OF Suc.prems] by blast
    thus ?thesis by (simp add: size_def)
  qed
  let ?seg = "ikcp_segment_new (if stream kcp = 0 then of_nat n else 0) (of_nat (min ?m (length buffer))) (take ?m buffer)"
  let ?k = "kcp\<lparr>snd_queue := snd_queue kcp @ [?seg], nsnd_que := nsnd_que kcp + 1\<rparr>"
  have t: "take (nat size) buffer = take ?m buffer" "drop (nat size) buffer = drop ?m buffer"
      "int (length buffer) - size = int (length (drop ?m buffer))" "of_int size = (of_nat (min ?m (length buffer)) :: u32)"
    by (auto simp: size min_def)
  have "send_fragments kcp buffer (int (length buffer)) (Suc n) = send_fragments ?k (drop ?m buffer) (int (length (drop ?m buffer))) n"
    by (simp add: Let_def t flip: size_def del: length_drop)
  also have "\<dots> = ?k\<lparr>snd_queue := snd_queue ?k @ fragments (unat (mss ?k)) (stream ?k = 0) (drop ?m buffer) n, nsnd_que := nsnd_que ?k + of_nat n\<rparr>"
    using Suc.prems by (intro Suc.IH) simp
  finally show ?case by (simp add: ac_simps)
qed simp

lemma fragments_length [simp]: "length (fragments m msg buffer n) = n"
  by (induction n arbitrary: buffer) simp_all

lemma fragments_concat: "length buffer \<le> m * n \<Longrightarrow> concat (map sg_data (fragments m msg buffer n)) = buffer"
  by (induction n arbitrary: buffer) (simp_all add: ikcp_segment_new_def)

lemma fragments_sized: "m < 2 ^ 31 \<Longrightarrow> list_all (\<lambda>s. sized (of_nat m) (seg_key s)) (fragments m msg buffer n)"
proof (induction n arbitrary: buffer)
  case (Suc n)
  have "unat (of_nat (min m (length buffer)) :: u32) = min m (length buffer)" "unat (of_nat m :: u32) = m"
    using Suc.prems by (simp_all add: unat_of_nat)
  then show ?case using Suc by (simp add: sized_def seg_key_def ikcp_segment_new_def word_le_nat_alt)
qed simp

lemma fragments_frg: "i < n \<Longrightarrow> sg_frg (fragments m True buffer n ! i) = of_nat (n - 1 - i)"
  by (induction n arbitrary: buffer i) (auto simp: ikcp_segment_new_def nth_Cons split: nat.splits)

text \<open>The number of fragments.\<close>

lemma send_count:
  assumes "mtu_ok kcp" "0 \<le> len" "len < 2 ^ 30" "unat (mss kcp) < 2 ^ 30" "len > sint (mss kcp)"
  shows "sint ((of_int len + mss kcp - 1) div mss kcp) = (len + int (unat (mss kcp)) - 1) div int (unat (mss kcp))"
proof -
  let ?m = "unat (mss kcp)"
  obtain l where l: "len = int l" using assms(2) nonneg_int_cases by blast
  have m: "0 < ?m" using assms(1) mss_of_mtu [OF assms(1)] by (simp add: mtu_ok_def)
  have "unat (of_int len + mss kcp - 1 :: u32) = l + ?m - 1"
  proof -
    have "of_int len + mss kcp - 1 = (of_nat (l + ?m - 1) :: u32)" using m l by (simp add: of_nat_diff)
    thus ?thesis using assms l by (simp add: unat_of_nat)
  qed
  hence "unat ((of_int len + mss kcp - 1) div mss kcp) = (l + ?m - 1) div ?m" by (simp add: unat_div)
  moreover have "(l + ?m - 1) div ?m < 2 ^ 31" using assms l by (intro le_less_trans [OF div_le_dividend]) simp
  ultimately have "sint ((of_int len + mss kcp - 1) div mss kcp) = int ((l + ?m - 1) div ?m)" by (simp add: sint32)
  thus ?thesis using l m by (simp add: zdiv_int of_nat_diff)
qed


definition frag_count :: "nat \<Rightarrow> nat \<Rightarrow> nat" where
  "frag_count m n = (if n \<le> m then 1 else (n + m - 1) div m)"

lemma frag_count_enough: "0 < m \<Longrightarrow> n \<le> m * frag_count m n"
proof -
  assume m: "0 < m"
  have "n + m - 1 < m * ((n + m - 1) div m) + m" using dividend_less_times_div [OF m, of "n + m - 1"] by (simp add: ac_simps)
  thus ?thesis using m by (auto simp: frag_count_def)
qed

lemma frag_count_pos: "0 < m \<Longrightarrow> 0 < frag_count m n"
  using frag_count_enough [of m n] by (cases "frag_count m n") (auto simp: frag_count_def)

lemma mss_pos: "mtu_ok kcp \<Longrightarrow> 0 < unat (mss kcp) \<and> unat (mss kcp) < 2 ^ 30 \<and> mss kcp \<noteq> 0"
  using mss_of_mtu [of kcp] by (auto simp: mtu_ok_def)

lemma send_count_eq:
  assumes "mtu_ok kcp" "length buffer < 2 ^ 30"
  shows "(if int (length buffer) \<le> sint (mss kcp) then 1 else sint ((of_int (int (length buffer)) + mss kcp - 1) div mss kcp))
    = int (frag_count (unat (mss kcp)) (length buffer))"
proof -
  obtain m where m: "unat (mss kcp) = m" "sint (mss kcp) = int m" using sint_mss [OF assms(1)] by blast
  show ?thesis
  proof (cases "length buffer \<le> m")
    case False
    have p: "0 < m" "m < 2 ^ 30" using mss_pos [OF assms(1)] m by simp_all
    have "int (length buffer) < 2 ^ 30" using assms(2) by simp
    hence "sint ((of_int (int (length buffer)) + mss kcp - 1) div mss kcp) = (int (length buffer) + int m - 1) div int m"
      using send_count [OF assms(1), of "int (length buffer)"] False m p by simp
    also have "\<dots> = int ((length buffer + m - 1) div m)" using p by (simp add: zdiv_int of_nat_diff)
    finally show ?thesis using False m by (simp add: frag_count_def)
  qed (simp add: m frag_count_def)
qed

lemma ikcp_send_message:
  assumes "mtu_ok kcp" "stream kcp = 0" "length buffer < 2 ^ 30"
  shows "ikcp_send kcp buffer (int (length buffer)) =
    (let n = frag_count (unat (mss kcp)) (length buffer) in
     if 128 \<le> n then Some (- 2, kcp)
     else Some (0, kcp\<lparr>snd_queue := snd_queue kcp @ fragments (unat (mss kcp)) True buffer n, nsnd_que := nsnd_que kcp + of_nat n\<rparr>))"
proof -
  have z: "frag_count (unat (mss kcp)) (length buffer) \<noteq> 0"
    using mss_pos [OF assms(1)] frag_count_pos by simp
  show ?thesis
    unfolding ikcp_send_def using mss_pos [OF assms(1)] assms(2) z send_fragments_eq [OF assms(1)]
    by (simp add: send_count_eq [OF assms(1,3), simplified] Let_def IKCP_WND_RCV_def)
qed

lemma snd_inv_queue:
  assumes "snd_inv kcp" "list_all (\<lambda>s. sized (mss kcp) (seg_key s)) q"
  shows "snd_inv (kcp\<lparr>snd_queue := q, nsnd_que := of_nat (length q)\<rparr>)"
  using assms by (simp add: snd_inv_def snd_core_def first_una_def cong: list.case_cong)

lemma snd_inv_same_length:
  assumes "snd_inv kcp" "list_all (\<lambda>s. sized (mss kcp) (seg_key s)) q" "length q = length (snd_queue kcp)"
  shows "snd_inv (kcp\<lparr>snd_queue := q\<rparr>)"
  using assms by (simp add: snd_inv_def snd_core_def)

lemma send_fragments_inv:
  assumes "snd_inv kcp"
  shows "snd_inv (send_fragments kcp buffer (int (length buffer)) n)"
proof -
  have m: "mtu_ok kcp" using assms by (simp add: snd_inv_def)
  have "list_all (\<lambda>s. sized (mss kcp) (seg_key s)) (fragments (unat (mss kcp)) (stream kcp = 0) buffer n)"
    using fragments_sized [of "unat (mss kcp)"] mss_pos [OF m] by simp
  hence "snd_inv (kcp\<lparr>snd_queue := snd_queue kcp @ fragments (unat (mss kcp)) (stream kcp = 0) buffer n,
      nsnd_que := of_nat (length (snd_queue kcp @ fragments (unat (mss kcp)) (stream kcp = 0) buffer n))\<rparr>)"
    using assms by (intro snd_inv_queue) (simp_all add: snd_inv_def snd_core_def)
  thus ?thesis using assms by (simp add: send_fragments_eq [OF m] snd_inv_def snd_core_def)
qed

lemma send_stream_inv:
  assumes "snd_inv kcp" "send_stream kcp buffer (int (length buffer)) = (kcp', buffer', len')"
  shows "snd_inv kcp' \<and> len' = int (length buffer') \<and> length buffer' \<le> length buffer \<and> stream kcp' = stream kcp \<and> mss kcp' = mss kcp"
proof (cases "snd_queue kcp = [] \<or> sg_len (last (snd_queue kcp)) \<ge> mss kcp")
  case True
  then show ?thesis using assms by (auto simp: send_stream_def)
next
  case False
  define old where "old = last (snd_queue kcp)"
  have q: "snd_queue kcp = butlast (snd_queue kcp) @ [old]" using False by (simp add: old_def)
  have m: "mtu_ok kcp" using assms by (simp add: snd_inv_def)
  have "list_all (\<lambda>s. sized (mss kcp) (seg_key s)) (butlast (snd_queue kcp) @ [old])" using assms(1) q by (simp add: snd_inv_def snd_core_def)
  hence o: "sized (mss kcp) (seg_key old)" "list_all (\<lambda>s. sized (mss kcp) (seg_key s)) (butlast (snd_queue kcp))" by simp_all
  define c where "c = unat (mss kcp) - unat (sg_len old)"
  have l: "unat (sg_len old) < unat (mss kcp)" using False by (simp add: old_def not_le flip: word_less_nat_alt)
  have c: "unat (mss kcp - sg_len old) = c" using l by (simp add: c_def unat_sub word_le_nat_alt)
  have "c < 2 ^ 31" using mss_pos [OF m] unfolding c_def by (elim conjE) (simp add: less_imp_diff_less)
  with c have cap: "sint (mss kcp - sg_len old) = int c" by (simp only: sint32 if_True)
  let ?x = "min (length buffer) c"
  let ?seg = "ikcp_segment_new 0 (sg_len old + of_nat ?x) (sg_data old @ take ?x buffer)"
  have e: "(if int (length buffer) < sint (mss kcp - sg_len old) then int (length buffer) else sint (mss kcp - sg_len old)) = int ?x"
    using cap by simp
  have r: "kcp' = kcp\<lparr>snd_queue := butlast (snd_queue kcp) @ [?seg]\<rparr>" "buffer' = drop ?x buffer" "len' = int (length buffer) - int ?x"
    using assms(2) False by (simp_all add: send_stream_def Let_def e flip: old_def)
  have u: "unat (sg_len old + of_nat ?x) = unat (sg_len old) + ?x"
  proof -
    have "unat (sg_len old) + ?x \<le> unat (mss kcp)" using l by (simp add: c_def)
    hence "unat (sg_len old) + ?x < 2 ^ 32" using unat_lt32 [of "mss kcp"] by linarith
    thus ?thesis by (simp add: unat_word_ariths unat_of_nat)
  qed
  have "sized (mss kcp) (seg_key ?seg)" using o(1) u l
    by (simp add: sized_def seg_key_def ikcp_segment_new_def word_le_nat_alt c_def)
  moreover have "length (butlast (snd_queue kcp) @ [?seg]) = length (snd_queue kcp)" using False by (cases "snd_queue kcp") simp_all
  ultimately have "snd_inv kcp'"
    using snd_inv_same_length [OF assms(1), of "butlast (snd_queue kcp) @ [?seg]"] o(2) r(1) by simp
  then show ?thesis using r by simp
qed

lemma ikcp_send_returns:
  assumes "snd_inv kcp" "length buffer < 2 ^ 30"
  shows "\<exists>r kcp'. ikcp_send kcp buffer (int (length buffer)) = Some (r, kcp') \<and> snd_inv kcp'"
proof -
  have m: "mtu_ok kcp" using assms by (simp add: snd_inv_def)
  obtain k b l where s: "(if stream kcp \<noteq> 0 then send_stream kcp buffer (int (length buffer)) else (kcp, buffer, int (length buffer))) = (k, b, l)"
    by (metis prod_cases3)
  have k: "snd_inv k" "l = int (length b)" "length b \<le> length buffer" using send_stream_inv [OF assms(1)] s assms(1) by (auto split: if_splits)
  have "snd_inv (send_fragments k b l n)" for n using send_fragments_inv [OF k(1)] k(2) by simp
  then show ?thesis unfolding ikcp_send_def s using mss_pos [OF m] k(1) by (auto simp: Let_def)
qed


subsection \<open>A message sent is the message read\<close>

definition msg_key :: "ikcpseg \<Rightarrow> u32 \<times> u32 \<times> byte list" where
  "msg_key s = (sg_frg s, sg_len s, sg_data s)"

lemma recv_merge_key:
  "map msg_key q = map msg_key q' \<Longrightarrow>
     (case recv_merge q of (d, l, n, _) \<Rightarrow> (d, l, n)) = (case recv_merge q' of (d, l, n, _) \<Rightarrow> (d, l, n))"
proof (induction q arbitrary: q')
  case (Cons s ss)
  then obtain t ts where q: "q' = t # ts" "msg_key s = msg_key t" "map msg_key ss = map msg_key ts" by (cases q') auto
  show ?case using Cons.IH [OF q(3)] q(1,2) by (auto simp: msg_key_def split: prod.splits)
qed simp

lemma peek_length_key: "map msg_key q = map msg_key q' \<Longrightarrow> peek_length q = peek_length q'"
proof (induction q arbitrary: q')
  case (Cons s ss)
  then obtain t ts where q: "q' = t # ts" "msg_key s = msg_key t" "map msg_key ss = map msg_key ts" by (cases q') auto
  show ?case using Cons.IH [OF q(3)] q(1,2) by (simp add: msg_key_def)
qed simp

lemma of_nat_neq_0_u32: "0 < n \<Longrightarrow> n < 2 ^ 32 \<Longrightarrow> (of_nat n :: u32) \<noteq> 0"
  by (auto simp: word_of_nat_eq_0_iff dest: dvd_imp_le)

lemma peek_fragments:
  "0 < n \<Longrightarrow> n < 2 ^ 16 \<Longrightarrow> length buffer \<le> m * n \<Longrightarrow> peek_length (fragments m True buffer n @ rest) = of_nat (length buffer)"
proof (induction n arbitrary: buffer)
  case (Suc n)
  show ?case
  proof (cases "n = 0")
    case True
    then show ?thesis using Suc.prems by (simp add: ikcp_segment_new_def)
  next
    case False
    then have "(of_nat n :: u32) \<noteq> 0" using Suc.prems by (intro of_nat_neq_0_u32) simp_all
    moreover have "peek_length (fragments m True (drop m buffer) n @ rest) = of_nat (length (drop m buffer))"
      using False Suc.prems by (intro Suc.IH) simp_all
    moreover have "of_nat (min m (length buffer)) + of_nat (length (drop m buffer)) = (of_nat (length buffer) :: u32)"
      by (simp add: min_def flip: of_nat_add)
    ultimately show ?thesis by (simp add: ikcp_segment_new_def)
  qed
qed simp

lemma recv_merge_fragments:
  "0 < n \<Longrightarrow> n < 2 ^ 16 \<Longrightarrow> length buffer \<le> m * n \<Longrightarrow>
     \<exists>l. recv_merge (fragments m True buffer n @ rest) = (buffer, l, n, rest)"
proof (induction n arbitrary: buffer)
  case (Suc n)
  show ?case
  proof (cases "n = 0")
    case True
    then show ?thesis using Suc.prems by (simp add: ikcp_segment_new_def)
  next
    case False
    then have "(of_nat n :: u32) \<noteq> 0" using Suc.prems by (intro of_nat_neq_0_u32) simp_all
    moreover obtain l where "recv_merge (fragments m True (drop m buffer) n @ rest) = (drop m buffer, l, n, rest)"
      using Suc.IH [of "drop m buffer"] False Suc.prems by (metis Suc_lessD diff_le_mono add_diff_cancel_left' gr0I length_drop mult_Suc_right)
    ultimately show ?thesis by (simp add: ikcp_segment_new_def)
  qed
qed simp


lemma message_read:
  assumes q: "rcv_queue r = q" "map msg_key q = map msg_key (fragments m True buffer n @ rest)"
    and n: "0 < n" "n < 2 ^ 16" "length buffer \<le> m * n" and r: "nrcv_que r = of_nat (length q)" "length q < 2 ^ 32"
    and b: "length buffer < 2 ^ 31"
  shows "ikcp_peeksize r = int (length buffer)" "fst (recv_merge q) = buffer"
proof -
  have p: "peek_length q = of_nat (length buffer)" using peek_length_key [OF q(2)] peek_fragments [OF n] by simp
  have s: "sint (of_nat (length buffer) :: u32) = int (length buffer)" using b by (simp add: sint32 unat_of_nat)
  obtain s ss where c: "q = s # ss" using q(2) n(1) by (cases q; cases n) simp_all
  have l: "n \<le> length q" using arg_cong [OF q(2), of length] by simp
  have f: "sg_frg s = of_nat (n - 1)" using q(2) n(1) c by (cases n) (simp_all add: msg_key_def ikcp_segment_new_def)
  have "\<not> nrcv_que r < sg_frg s + 1"
  proof -
    have "sg_frg s + 1 = (of_nat n :: u32)" using f n(1) by (simp add: of_nat_diff)
    thus ?thesis using l r n(2) by (simp add: word_less_nat_alt unat_of_nat)
  qed
  thus "ikcp_peeksize r = int (length buffer)" using p s c q(1) by (simp add: ikcp_peeksize_def split: if_splits) 
  show "fst (recv_merge q) = buffer"
    using recv_merge_key [OF q(2)] recv_merge_fragments [OF n, of rest] by (auto split: prod.splits)
qed

text \<open>
  C10: a message comes out as it went in: when \<open>ikcp_send\<close> accepts a message in message mode, a receiver whose
  queue starts with the segments it made gets exactly that message from \<open>ikcp_recv\<close>, with its length as the result,
  and the receiver's invariant holds after it.
\<close>

theorem kcp_message_roundtrip:
  assumes "snd_inv kcp" "stream kcp = 0" "length msg < 2 ^ 30" "ikcp_send kcp msg (int (length msg)) = Some (0, kcp')"
    and "rcv_inv r" "length (rcv_queue r) < 2 ^ 32"
    and "map msg_key (rcv_queue r) = map msg_key (drop (length (snd_queue kcp)) (snd_queue kcp') @ rest)"
  shows "\<exists>r'. ikcp_recv r (int (length msg)) = Some (int (length msg), msg, r') \<and> rcv_inv r'"
proof -
  let ?m = "unat (mss kcp)"
  let ?n = "frag_count ?m (length msg)"
  have m: "mtu_ok kcp" using assms(1) by (simp add: snd_inv_def)
  have n: "0 < ?n" "length msg \<le> ?m * ?n" using mss_pos [OF m] frag_count_pos frag_count_enough by simp_all
  have f: "?n < 128" "drop (length (snd_queue kcp)) (snd_queue kcp') = fragments ?m True msg ?n"
    using assms(4) by (auto simp: ikcp_send_message [OF m assms(2,3)] Let_def split: if_splits)
  have peek: "ikcp_peeksize r = int (length msg)" and d: "fst (recv_merge (rcv_queue r)) = msg"
    using message_read [of r "rcv_queue r" ?m msg ?n rest] assms n f by (simp_all add: rcv_inv_def)
  have ne: "rcv_queue r \<noteq> []" using peek by (auto simp: ikcp_peeksize_def)
  obtain d' l k rs where mg: "recv_merge (rcv_queue r) = (d', l, k, rs)" by (metis prod_cases4)
  obtain v d2 r' where v: "ikcp_recv r (int (length msg)) = Some (v, d2, r')" "rcv_inv r'"
    using ikcp_recv_returns [OF assms(5)] by blast
  have "v = int (length msg) \<and> d2 = msg"
    using v(1) ne peek d mg peek_merge [OF mg] by (auto simp: ikcp_recv_def Let_def split: if_splits)
  thus ?thesis using v by blast
qed

text \<open>A message of two fragments, from a sender with MTU 50 to a receiver that got both.\<close>

definition demo_message :: "byte list" where
  "demo_message = [1, 2, 3, 4, 5, 6, 7, 8, 9, 10, 11, 12, 13, 14, 15, 16, 17, 18, 19, 20, 21, 22, 23, 24, 25, 26, 27, 28, 29, 30]"

definition demo_sender :: ikcpcb where
  "demo_sender = snd (ikcp_setmtu (ikcp_create 1) 50)"

definition demo_receiver :: ikcpcb where
  "demo_receiver = (ikcp_create 1)\<lparr>nrcv_que := 2, rcv_nxt := 2,
     rcv_queue := [(ikcp_segment_new 1 26 (take 26 demo_message))\<lparr>sg_sn := 0\<rparr>, (ikcp_segment_new 0 4 (drop 26 demo_message))\<lparr>sg_sn := 1\<rparr>]\<rparr>"

theorem kcp_message_roundtrip_witness:
  "length (snd_queue (snd (the (ikcp_send demo_sender demo_message 30)))) = 2 \<and>
   (\<exists>r'. ikcp_recv demo_receiver 30 = Some (30, demo_message, r') \<and> rcv_inv r')"
proof -
  let ?k = "snd (the (ikcp_send demo_sender demo_message 30))"
  have i: "snd_inv demo_sender" "stream demo_sender = 0"
    by (simp_all add: demo_sender_def ikcp_setmtu_def ikcp_create_def snd_inv_def snd_core_def mtu_ok_def first_una_def window_ok_def
      IKCP_OVERHEAD_def IKCP_WND_RCV_def)
  have r: "rcv_inv demo_receiver" by (simp add: demo_receiver_def ikcp_create_def rcv_inv_def ikcp_segment_new_def)
  have s: "ikcp_send demo_sender demo_message 30 = Some (0, ?k)" "length (snd_queue ?k) = 2" by code_simp+
  have q: "map msg_key (rcv_queue demo_receiver) = map msg_key (drop (length (snd_queue demo_sender)) (snd_queue ?k) @ [])" by code_simp
  have l: "length demo_message = 30" "length (rcv_queue demo_receiver) = 2" by (simp_all add: demo_message_def demo_receiver_def)
  show ?thesis using kcp_message_roundtrip [of demo_sender demo_message ?k demo_receiver "[]"] i r s q l by simp
qed

end
