(* ===== verification/Kcp_Input.thy ===== *)
theory Kcp_Input
  imports Kcp_Message
begin

section \<open>What KCP makes of a datagram\<close>

text \<open>
  Headers are read back as they were written, the round trip estimate stays in range, and \<open>ikcp_input\<close> and
  \<open>ikcp_update\<close> keep the invariants of both sides and return.
\<close>

unbundle bit_operations_syntax

subsection \<open>Headers\<close>

lemma byte_digits:
  fixes n :: nat
  assumes "n < 2 ^ 32"
  shows "n mod 256 + 256 * (n div 256 mod 256 + 256 * (n div 65536 mod 256 + 256 * (n div 16777216 mod 256))) = n"
proof -
  have "n div 16777216 < 256" using assms by (simp add: less_mult_imp_div_less)
  moreover have "n div 65536 = n div 65536 mod 256 + 256 * (n div 16777216)"
    using div_mult2_eq [of n 65536 256] mod_mult_div_eq [of "n div 65536" 256] by simp
  moreover have "n div 256 = n div 256 mod 256 + 256 * (n div 65536)"
    using div_mult2_eq [of n 256 256] mod_mult_div_eq [of "n div 256" 256] by simp
  moreover have "n = n mod 256 + 256 * (n div 256)" by simp
  ultimately show ?thesis by (metis mod_less)
qed

lemma and_ff: "(x :: 'a :: len word) AND 0xff = take_bit 8 x"
  by (simp add: take_bit_eq_mask mask_eq_exp_minus_1)

lemma unat_low_byte: "unat (ucast (drop_bit k w AND 0xff) :: byte) = unat (w :: u32) div 2 ^ k mod 256"
proof -
  have "unat (drop_bit k w) = drop_bit k (unat w)"
    using unat_lt32 [of w] by (simp add: unsigned_drop_bit_eq take_bit_nat_eq_self)
  hence "unat (drop_bit k w) = unat w div 2 ^ k" by (simp only: drop_bit_eq_div)
  thus ?thesis by (simp add: and_ff unsigned_ucast_eq unsigned_take_bit_eq) (simp add: take_bit_eq_mod)
qed

lemma unat_ucast_byte: "unat (ucast (b :: byte) :: u32) = unat b"
proof -
  have "unat b < 256" using unsigned_less [of b] by simp
  thus ?thesis by (simp add: unsigned_ucast_eq take_bit_nat_eq_self)
qed

lemma unat_shift_in:
  assumes "unat (y :: u32) < 2 ^ 24"
  shows "unat (ucast (b :: byte) + push_bit 8 y) = unat b + 256 * unat y"
proof -
  have b: "unat b < 256" using unsigned_less [of b] by simp
  have "unat (push_bit 8 y) = 256 * unat y"
    using assms by (simp add: push_bit_eq_mult unat_word_ariths)
  thus ?thesis using assms b by (simp add: unat_word_ariths unat_ucast_byte)
qed

lemma decode_encode32: "ikcp_decode32u (ikcp_encode32u w @ p) = Some (w, p)"
proof -
  let ?b = "\<lambda>k. ucast (drop_bit k w AND 0xff) :: byte"
  have s: "unat (ucast (?b 24) :: u32) = unat (?b 24)" by (rule unat_ucast_byte)
  have l: "unat (?b k) < 256" for k using unsigned_less [of "?b k"] by simp
  have 2: "unat (ucast (?b 16) + push_bit 8 (ucast (?b 24)) :: u32) = unat (?b 16) + 256 * unat (?b 24)"
    using unat_shift_in [of "ucast (?b 24)" "?b 16"] s l [of 24] by simp
  have 1: "unat (ucast (?b 8) + push_bit 8 (ucast (?b 16) + push_bit 8 (ucast (?b 24))) :: u32) = unat (?b 8) + 256 * (unat (?b 16) + 256 * unat (?b 24))"
    using unat_shift_in [of "ucast (?b 16) + push_bit 8 (ucast (?b 24))" "?b 8"] 2 l [of 16] l [of 24] by simp
  have "unat (ucast (?b 0) + push_bit 8 (ucast (?b 8) + push_bit 8 (ucast (?b 16) + push_bit 8 (ucast (?b 24)))) :: u32)
      = unat (?b 0) + 256 * (unat (?b 8) + 256 * (unat (?b 16) + 256 * unat (?b 24)))"
    using unat_shift_in [of "ucast (?b 8) + push_bit 8 (ucast (?b 16) + push_bit 8 (ucast (?b 24)))" "?b 0"] 1 l [of 8] l [of 16] l [of 24] by simp
  also have "\<dots> = unat w" 
  proof -
    have "(2 :: nat) ^ 8 = 256" "(2 :: nat) ^ 16 = 65536" "(2 :: nat) ^ 24 = 16777216" by simp_all
    thus ?thesis by (simp only: unat_low_byte power_0 div_by_1 byte_digits [OF unat_lt32])
  qed
  finally have "ucast (?b 0) + push_bit 8 (ucast (?b 8) + push_bit 8 (ucast (?b 16) + push_bit 8 (ucast (?b 24)))) = w"
    by (simp only: word_unat_eq_iff)
  thus ?thesis by (simp only: ikcp_encode32u_def append.simps ikcp_decode32u.simps drop_bit_0 id_apply)
qed

lemma decode_encode16: "ikcp_decode16u (ikcp_encode16u w @ p) = Some (w, p)"
proof -
  have l: "unat w < 65536" using unsigned_less [of w] by simp
  have "unat (ucast (ucast (w AND 255) :: byte) + push_bit 8 (ucast (ucast (drop_bit 8 w) :: byte)) :: u16) = unat w"
    using l by (simp add: and_ff unat_word_ariths unsigned_ucast_eq unsigned_take_bit_eq unsigned_push_bit_eq unsigned_drop_bit_eq)
      (simp add: take_bit_eq_mod drop_bit_eq_div push_bit_eq_mult)
  hence "ucast (ucast (w AND 255) :: byte) + push_bit 8 (ucast (ucast (drop_bit 8 w) :: byte)) = w" by (simp only: word_unat_eq_iff)
  thus ?thesis by (simp only: ikcp_encode16u_def append.simps ikcp_decode16u.simps)
qed

text \<open>
  C27: the receiver of a segment reads the header its sender wrote, for a segment whose command and fragment number
  fit in a byte and whose window fits in 16 bits.
\<close>

theorem kcp_header_roundtrip:
  assumes "unat (sg_cmd s) < 256" "unat (sg_frg s) < 256" "unat (sg_wnd s) < 65536"
  shows "input_header (ikcp_encode_seg s @ p) =
    Some (s\<lparr>sg_resendts := 0, sg_rto := 0, sg_fastack := 0, sg_xmit := 0, sg_data := []\<rparr>, p)"
proof -
  have c: "ucast (ucast (x :: u32) :: byte) = x" if "unat x < 256" for x
    using that by (simp add: word_unat_eq_iff unat_ucast_byte) (simp add: unsigned_ucast_eq take_bit_nat_eq_self)
  have w: "ucast (ucast (x :: u32) :: u16) = x" if "unat x < 65536" for x
    using that by (simp add: word_unat_eq_iff unsigned_ucast_eq unsigned_take_bit_eq take_bit_nat_eq_self)
  show ?thesis
    using assms by (simp add: input_header_def ikcp_encode_seg_def decode_encode32 decode_encode16 ikcp_encode8u_def c w)
qed


theorem kcp_header_roundtrip_witness:
  "input_header (ikcp_encode_seg ((ikcp_segment_new 3 5 [9])\<lparr>sg_conv := 0x01020304, sg_cmd := 81, sg_wnd := 1000, sg_sn := 77\<rparr>) @ [9]) =
   Some ((ikcp_segment_new 3 5 [])\<lparr>sg_conv := 0x01020304, sg_cmd := 81, sg_wnd := 1000, sg_sn := 77\<rparr>, [9])"
  using kcp_header_roundtrip [of "(ikcp_segment_new 3 5 [9])\<lparr>sg_conv := 0x01020304, sg_cmd := 81, sg_wnd := 1000, sg_sn := 77\<rparr>" "[9]"]
  by (simp add: ikcp_segment_new_def)

subsection \<open>Round trip times\<close>

definition rtt_ok :: "ikcpcb \<Rightarrow> bool" where
  "rtt_ok kcp \<longleftrightarrow> 0 \<le> rx_srtt kcp \<and> rx_srtt kcp < 2 ^ 28 \<and> 0 \<le> rx_rttval kcp \<and> rx_rttval kcp < 2 ^ 28 \<and>
     0 \<le> rx_minrto kcp \<and> rx_minrto kcp \<le> 60000 \<and> 0 \<le> rx_rto kcp \<and> rx_rto kcp \<le> 60000"

lemma quot_nonneg: "0 \<le> x \<Longrightarrow> 0 < y \<Longrightarrow> quot x y = x div y"
  by (simp add: quot_def sgn_if)

lemma ibound_ge: "lower \<le> upper \<Longrightarrow> lower \<le> ibound lower x upper"
  by (auto simp: ibound_def imin_def imax_def)

lemma ibound_le: "ibound lower x upper \<le> upper"
  by (auto simp: ibound_def imin_def)

lemma rto_bounds:
  assumes "0 \<le> m" "m \<le> 60000"
  shows "m \<le> uint (ibound (of_int m) x IKCP_RTO_MAX)" "uint (ibound (of_int m) x IKCP_RTO_MAX) \<le> 60000"
proof -
  have u: "uint (of_int m :: u32) = m" using assms by (simp add: uint_word_of_int)
  have "of_int m \<le> IKCP_RTO_MAX" using assms u by (simp add: word_le_def IKCP_RTO_MAX_def)
  from ibound_ge [OF this, of x] show "m \<le> uint (ibound (of_int m) x IKCP_RTO_MAX)" using u by (simp add: word_le_def)
  show "uint (ibound (of_int m) x IKCP_RTO_MAX) \<le> 60000"
    using ibound_le [of "of_int m" x IKCP_RTO_MAX] by (simp add: word_le_def IKCP_RTO_MAX_def)
qed

lemma i32_some: "0 \<le> x \<Longrightarrow> x < 2 ^ 31 \<Longrightarrow> i32 x = Some x"
  by (simp add: i32_def)

lemma smoothed:
  fixes rtt srtt var :: int
  assumes "0 \<le> rtt" "rtt < 2 ^ 28" "0 \<le> srtt" "srtt < 2 ^ 28" "0 \<le> var" "var < 2 ^ 28"
  shows "(3 * var + \<bar>rtt - srtt\<bar>) div 4 < 2 ^ 28" "0 \<le> (3 * var + \<bar>rtt - srtt\<bar>) div 4"
    and "(7 * srtt + rtt) div 8 < 2 ^ 28" "i32 (rtt - srtt) = Some (rtt - srtt)"
proof -
  have "3 * var + \<bar>rtt - srtt\<bar> \<le> 2 ^ 30 - 1" using assms by simp
  from zdiv_mono1 [OF this, of 4] show "(3 * var + \<bar>rtt - srtt\<bar>) div 4 < 2 ^ 28" by simp
  have "7 * srtt + rtt \<le> 2 ^ 31 - 1" using assms by simp
  from zdiv_mono1 [OF this, of 8] show "(7 * srtt + rtt) div 8 < 2 ^ 28" by simp
qed (use assms in \<open>simp_all add: i32_def\<close>)

lemma ikcp_update_ack_ok:
  assumes "rtt_ok kcp" "0 \<le> rtt" "rtt < 2 ^ 28"
  shows "\<exists>s v t. ikcp_update_ack kcp rtt = Some (kcp\<lparr>rx_rttval := v, rx_srtt := s, rx_rto := t\<rparr>) \<and>
    0 \<le> s \<and> s < 2 ^ 28 \<and> 0 \<le> v \<and> v < 2 ^ 28 \<and> rx_minrto kcp \<le> t \<and> t \<le> 60000"
proof -
  let ?t = "\<lambda>x. uint (ibound (of_int (rx_minrto kcp)) x IKCP_RTO_MAX)"
  have t: "rx_minrto kcp \<le> ?t x \<and> ?t x \<le> 60000" for x using assms(1) rto_bounds by (simp add: rtt_ok_def)
  show ?thesis
  proof (cases "rx_srtt kcp = 0")
    case True
    then show ?thesis using assms t unfolding ikcp_update_ack_def
      by (simp add: i32_some quot_nonneg Let_def) (intro exI conjI, rule refl, simp_all)
  next
    case False
    have r: "0 \<le> rx_srtt kcp" "rx_srtt kcp < 2 ^ 28" "0 \<le> rx_rttval kcp" "rx_rttval kcp < 2 ^ 28"
      using assms(1) by (simp_all add: rtt_ok_def)
    note sm = smoothed [OF assms(2,3) r]
    let ?s = "(7 * rx_srtt kcp + rtt) div 8"
    define v where "v = (3 * rx_rttval kcp + \<bar>rtt - rx_srtt kcp\<bar>) div 4"
    define s where "s = (if ?s < 1 then 1 else ?s)"
    have b: "0 \<le> v" "v < 2 ^ 28" using sm by (simp_all add: v_def)
    have c: "0 \<le> s \<and> s < 2 ^ 28" using sm(3) by (simp add: s_def)
    have q: "quot (7 * rx_srtt kcp + rtt) 8 = ?s" "quot (3 * rx_rttval kcp + \<bar>rtt - rx_srtt kcp\<bar>) 4 = v"
      using r assms(2) by (simp_all add: quot_nonneg v_def)
    have o: "i32 (3 * rx_rttval kcp) = Some (3 * rx_rttval kcp)" "i32 (7 * rx_srtt kcp) = Some (7 * rx_srtt kcp)"
        "i32 (7 * rx_srtt kcp + rtt) = Some (7 * rx_srtt kcp + rtt)" "i32 (4 * v) = Some (4 * v)"
      using r b assms by (simp_all add: i32_some)
    have "ikcp_update_ack kcp rtt =
        Some (kcp\<lparr>rx_rttval := v, rx_srtt := s, rx_rto := ?t (of_int s + imax (interval kcp) (of_int (4 * v)))\<rparr>)"
      using False unfolding ikcp_update_ack_def by (simp add: o sm(4) q Let_def s_def)
    thus ?thesis using b c t by blast
  qed
qed


subsection \<open>Input\<close>

definition kcp_inv :: "ikcpcb \<Rightarrow> bool" where
  "kcp_inv kcp \<longleftrightarrow> rcv_inv kcp \<and> snd_inv kcp \<and> rtt_ok kcp"

lemma move_ready_frame [simp]:
  "snd_inv (move_ready b kcp) = snd_inv kcp" "rtt_ok (move_ready b kcp) = rtt_ok kcp"
  "acklist (move_ready b kcp) = acklist kcp" "current (move_ready b kcp) = current kcp"
  by (induction b arbitrary: kcp) (simp_all add: snd_inv_def snd_core_def mtu_ok_def first_una_def rtt_ok_def cong: list.case_cong)

lemma rcv_frame [simp]:
  "snd_inv (kcp\<lparr>rcv_buf := b\<rparr>) = snd_inv kcp" "snd_inv (kcp\<lparr>nrcv_buf := n\<rparr>) = snd_inv kcp"
  "rtt_ok (kcp\<lparr>rcv_buf := b\<rparr>) = rtt_ok kcp" "rtt_ok (kcp\<lparr>nrcv_buf := n\<rparr>) = rtt_ok kcp"
  by (simp_all add: snd_inv_def snd_core_def mtu_ok_def first_una_def rtt_ok_def cong: list.case_cong)

lemma ikcp_parse_data_frame [simp]:
  "snd_inv (ikcp_parse_data kcp s) = snd_inv kcp" "rtt_ok (ikcp_parse_data kcp s) = rtt_ok kcp"
  "acklist (ikcp_parse_data kcp s) = acklist kcp" "current (ikcp_parse_data kcp s) = current kcp"
  by (simp_all add: ikcp_parse_data_def Let_def split: option.split)

lemma ack_newblock_pow:
  "unat newsize \<le> 2 ^ 31 \<Longrightarrow> j \<le> 31 \<Longrightarrow> \<exists>b. ack_newblock (2 ^ j) newsize = Some b"
proof (induction "31 - j" arbitrary: j)
  case 0
  have "unat (2 ^ 31 :: u32) = 2 ^ 31" by simp
  then have "\<not> (2 ^ 31 :: u32) < newsize" using 0 by (simp add: word_less_nat_alt)
  moreover have "j = 31" using 0 by simp
  ultimately show ?case by (simp only: ack_newblock.simps [of "2 ^ 31"] if_False) simp
next
  case (Suc d)
  have "push_bit 1 (2 ^ j :: u32) = 2 ^ Suc j" by (simp add: push_bit_eq_mult)
  then show ?case using Suc.hyps(1) [of "Suc j"] Suc.hyps(2) Suc.prems
    by (subst ack_newblock.simps) (simp add: mult.commute)
qed

lemma ikcp_ack_push_ok:
  assumes "length (acklist kcp) < 2 ^ 31"
  shows "\<exists>b. ikcp_ack_push kcp sn ts = Some (kcp\<lparr>acklist := acklist kcp @ [(sn, ts)], ackblock := b\<rparr>)"
proof -
  have "unat (of_nat (length (acklist kcp)) + 1 :: u32) \<le> 2 ^ 31" using assms
    by (simp add: unat_word_ariths unat_of_nat)
  then obtain b where b: "ack_newblock 8 (of_nat (length (acklist kcp)) + 1) = Some b" using ack_newblock_pow [of _ 3] by auto
  show ?thesis
  proof (cases "of_nat (length (acklist kcp)) + 1 > ackblock kcp")
    case True
    then show ?thesis using b by (intro exI [of _ b]) (simp add: ikcp_ack_push_def Let_def)
  qed (intro exI [of _ "ackblock kcp"], simp add: ikcp_ack_push_def Let_def)
qed

lemma ack_frame [simp]:
  "rcv_view (ikcp_shrink_buf kcp) = rcv_view kcp" "rcv_view (ikcp_parse_una kcp una) = rcv_view kcp"
  "rcv_view (ikcp_parse_ack kcp sn) = rcv_view kcp" "rcv_view (ikcp_parse_fastack kcp sn) = rcv_view kcp"
  "rtt_ok (ikcp_shrink_buf kcp) = rtt_ok kcp" "rtt_ok (ikcp_parse_una kcp una) = rtt_ok kcp"
  "rtt_ok (ikcp_parse_ack kcp sn) = rtt_ok kcp" "rtt_ok (ikcp_parse_fastack kcp sn) = rtt_ok kcp"
  "mtu_ok (ikcp_parse_una kcp una) = mtu_ok kcp" "mtu_ok (ikcp_parse_ack kcp sn) = mtu_ok kcp"
  "acklist (ikcp_shrink_buf kcp) = acklist kcp" "acklist (ikcp_parse_una kcp una) = acklist kcp"
  "acklist (ikcp_parse_ack kcp sn) = acklist kcp"
  "current (ikcp_shrink_buf kcp) = current kcp" "current (ikcp_parse_una kcp una) = current kcp"
  "current (ikcp_parse_ack kcp sn) = current kcp"
  by (simp_all add: ikcp_shrink_buf_def ikcp_parse_una_def ikcp_parse_ack_def ikcp_parse_fastack_def rtt_ok_def Let_def split: prod.split)

lemma input_ack_ok:
  assumes "kcp_inv kcp" "itimediff (current kcp) (sg_ts seg) < 2 ^ 28"
  shows "\<exists>kcp' info'. input_ack kcp seg info = Some (kcp', info') \<and> kcp_inv kcp' \<and> current kcp' = current kcp \<and> acklist kcp' = acklist kcp"
proof -
  obtain k where k: "(if itimediff (current kcp) (sg_ts seg) \<ge> 0
             then ikcp_update_ack kcp (itimediff (current kcp) (sg_ts seg)) else Some kcp) = Some k"
      "rtt_ok k" "rcv_view k = rcv_view kcp" "snd_inv k" "current k = current kcp" "acklist k = acklist kcp"
  proof (cases "itimediff (current kcp) (sg_ts seg) \<ge> 0")
    case True
    then obtain s v t where u: "ikcp_update_ack kcp (itimediff (current kcp) (sg_ts seg)) = Some (kcp\<lparr>rx_rttval := v, rx_srtt := s, rx_rto := t\<rparr>)"
        "0 \<le> s" "s < 2 ^ 28" "0 \<le> v" "v < 2 ^ 28" "rx_minrto kcp \<le> t" "t \<le> 60000"
      using ikcp_update_ack_ok [of kcp "itimediff (current kcp) (sg_ts seg)"] assms by (auto simp: kcp_inv_def)
    show ?thesis by (rule that [of "kcp\<lparr>rx_rttval := v, rx_srtt := s, rx_rto := t\<rparr>"])
      (use True u assms in \<open>simp_all add: kcp_inv_def rtt_ok_def snd_inv_def snd_core_def mtu_ok_def first_una_def cong: list.case_cong\<close>)
  next
    case False
    show ?thesis by (rule that [of kcp]) (use False assms in \<open>simp_all add: kcp_inv_def\<close>)
  qed
  let ?k = "ikcp_shrink_buf (ikcp_parse_ack k (sg_sn seg))"
  have "snd_inv ?k" using k(4) by (intro ikcp_shrink_buf_inv) (simp_all add: snd_inv_def ikcp_parse_ack_core)
  moreover have "rcv_inv ?k" using rcv_inv_view [of ?k kcp] k(3) assms(1) by (simp add: kcp_inv_def)
  ultimately have "kcp_inv ?k" using k(2) by (simp add: kcp_inv_def)
  moreover obtain flag maxack ts where "info = (flag, maxack, ts)" by (metis prod_cases3)
  ultimately show ?thesis using k unfolding input_ack_def by simp blast
qed

lemma input_push_ok:
  assumes "kcp_inv kcp" "length (acklist kcp) < 2 ^ 31"
  shows "\<exists>kcp'. input_push kcp seg bs = Some kcp' \<and> kcp_inv kcp' \<and> current kcp' = current kcp \<and> length (acklist kcp') \<le> length (acklist kcp) + 1"
proof -
  obtain b where b: "ikcp_ack_push kcp (sg_sn seg) (sg_ts seg) = Some (kcp\<lparr>acklist := acklist kcp @ [(sg_sn seg, sg_ts seg)], ackblock := b\<rparr>)"
    using ikcp_ack_push_ok [OF assms(2)] by blast
  let ?k = "kcp\<lparr>acklist := acklist kcp @ [(sg_sn seg, sg_ts seg)], ackblock := b\<rparr>"
  have "rcv_inv ?k = rcv_inv kcp" by (rule rcv_inv_view) simp
  hence "kcp_inv ?k" using assms(1) by (simp add: kcp_inv_def rtt_ok_def)
  then show ?thesis using assms(1) by (simp add: input_push_def b kcp_inv_def ikcp_parse_data_inv)
qed

lemma input_segment_ok:
  assumes "kcp_inv kcp" "unat (sg_wnd seg) < 2 ^ 16" "itimediff (current kcp) (sg_ts seg) < 2 ^ 28" "length (acklist kcp) < 2 ^ 31"
  shows "\<exists>kcp' info'. input_segment kcp seg bs info = Some (kcp', info') \<and> kcp_inv kcp' \<and> current kcp' = current kcp \<and>
           length (acklist kcp') \<le> length (acklist kcp) + 1"
proof -
  define k where "k = ikcp_shrink_buf (ikcp_parse_una (kcp\<lparr>rmt_wnd := sg_wnd seg\<rparr>) (sg_una seg))"
  have "snd_core (kcp\<lparr>rmt_wnd := sg_wnd seg\<rparr>)" "mtu_ok kcp" using assms(1,2) by (simp_all add: kcp_inv_def snd_inv_def snd_core_def)
  hence "snd_inv k" unfolding k_def by (intro ikcp_shrink_buf_inv ikcp_parse_una_core) simp_all
  moreover have "rcv_inv k" using rcv_inv_view [of k kcp] assms(1) by (simp add: k_def kcp_inv_def)
  moreover have "rtt_ok k" using assms(1) by (simp add: k_def kcp_inv_def) (simp add: rtt_ok_def)
  ultimately have inv: "kcp_inv k" by (simp add: kcp_inv_def)
  have f: "current k = current kcp" "acklist k = acklist kcp" by (simp_all add: k_def)
  obtain k1 i1 where a: "input_ack k seg info = Some (k1, i1)" "kcp_inv k1" "current k1 = current k" "acklist k1 = acklist k"
    using input_ack_ok [OF inv] assms(3) f by metis
  obtain k2 where b: "input_push k seg bs = Some k2" "kcp_inv k2" "current k2 = current k" "length (acklist k2) \<le> length (acklist k) + 1"
    using input_push_ok [OF inv] assms(4) f by metis
  have c: "kcp_inv (k\<lparr>probe := probe k OR IKCP_ASK_TELL\<rparr>)" using inv by (simp add: kcp_inv_def rtt_ok_def)
  show ?thesis
    by (rule prod_cases3 [of info], rule prod_cases3 [of i1])
      (use a b c inv f in \<open>simp add: input_segment_def Let_def flip: k_def\<close>)
qed


text \<open>A datagram whose acknowledgements are not older than 2^28 milliseconds, and room for its acknowledgements.\<close>

definition timely :: "u32 \<Rightarrow> byte list \<Rightarrow> bool" where
  "timely now data \<longleftrightarrow> list_all (\<lambda>k. case input_header (drop k data) of
      None \<Rightarrow> True | Some (seg, _) \<Rightarrow> itimediff now (sg_ts seg) < 2 ^ 28) [0..<Suc (length data)]"

lemma input_header_nil [simp]: "input_header [] = None"
  by (simp add: input_header_def)

lemma timely_drop: "timely now data \<Longrightarrow> timely now (drop k data)"
proof (cases "k \<le> length data")
  case True
  assume "timely now data"
  then have "case input_header (drop (j + k) data) of None \<Rightarrow> True | Some (seg, _) \<Rightarrow> itimediff now (sg_ts seg) < 2 ^ 28"
    if "j \<le> length data - k" for j using that True unfolding timely_def list_all_iff by (auto simp: less_Suc_eq_le)
  then show ?thesis using True unfolding timely_def list_all_iff by (auto simp: less_Suc_eq_le)
next
  case False
  then show ?thesis by (simp add: timely_def)
qed

lemma timely_header: "timely now data \<Longrightarrow> input_header data = Some (seg, rest) \<Longrightarrow> itimediff now (sg_ts seg) < 2 ^ 28"
  unfolding timely_def list_all_iff by (drule bspec [of _ _ 0]) auto

lemma input_header_wnd: "input_header data = Some (seg, rest) \<Longrightarrow> unat (sg_wnd seg) < 2 ^ 16"
proof -
  assume "input_header data = Some (seg, rest)"
  then obtain w :: u16 where "sg_wnd seg = ucast w" by (auto simp: input_header_def split: bind_splits prod.splits)
  moreover have "unat w < 2 ^ 16" using unsigned_less [of w] by simp
  ultimately show ?thesis by (simp add: unsigned_ucast_eq take_bit_nat_eq_self)
qed

lemma input_header_some: "24 \<le> length data \<Longrightarrow> \<exists>seg rest. input_header data = Some (seg, rest)"
proof -
  assume "24 \<le> length data"
  then obtain p q where d: "data = p @ q" "length p = 24" by (metis append_take_drop_id length_take min_absorb2)
  show ?thesis unfolding d(1) using d(2) by (auto simp: input_header_def numeral_eq_Suc length_Suc_conv)
qed

lemma input_loop_ok:
  "kcp_inv kcp \<Longrightarrow> timely (current kcp) data \<Longrightarrow> length (acklist kcp) + length data < 2 ^ 31 \<Longrightarrow>
     \<exists>x. input_loop kcp data info = Some x \<and> fst x \<in> {0, - 1, - 2, - 3} \<and> kcp_inv (fst (snd x))"
proof (induction kcp data info rule: input_loop.induct)
  case (1 kcp data info)
  show ?case
  proof (cases "length data < IKCP_OVERHEAD")
    case False
    then obtain seg rest where h: "input_header data = Some (seg, rest)" using input_header_some [of data] by (auto simp: IKCP_OVERHEAD_def)
    let ?l = "unat (sg_len seg)"
    have len: "length data = length rest + 24" using input_header_length [OF h] .
    obtain k i where s: "input_segment kcp seg (take ?l rest) info = Some (k, i)" "kcp_inv k" "current k = current kcp"
        "length (acklist k) \<le> length (acklist kcp) + 1"
      using input_segment_ok [OF "1.prems"(1) input_header_wnd [OF h] timely_header [OF "1.prems"(2) h]] "1.prems"(3) by fastforce
    have e: "rest = drop 24 data" using h len
      by (auto simp: input_header_def split: bind_splits prod.splits elim!: ikcp_decode32u.elims ikcp_decode16u.elims ikcp_decode8u.elims)
    have t: "timely (current k) (drop ?l rest)" using timely_drop [OF timely_drop [OF "1.prems"(2), of 24], of ?l] s(3) e by simp
    have b: "length (acklist k) + length (drop ?l rest) < 2 ^ 31" using s(4) len "1.prems"(3) by simp
    have u: "input_loop kcp data info =
        (if sg_conv seg \<noteq> conv kcp then Some (- 1, kcp, info)
         else if length rest < ?l \<or> sint (sg_len seg) < 0 then Some (- 2, kcp, info)
         else if sg_cmd seg \<noteq> IKCP_CMD_PUSH \<and> sg_cmd seg \<noteq> IKCP_CMD_ACK \<and>
                 sg_cmd seg \<noteq> IKCP_CMD_WASK \<and> sg_cmd seg \<noteq> IKCP_CMD_WINS then Some (- 3, kcp, info)
         else input_loop k (drop ?l rest) i)"
      by (subst input_loop.simps) (simp add: False h s(1))
    show ?thesis
      unfolding u using "1.IH" [OF False h refl _ _ _ s(1) refl s(2) t b] "1.prems"(1) by (simp del: split_paired_Ex)
  qed (use "1.prems" in \<open>subst input_loop.simps, simp\<close>)
qed


lemma input_cwnd_ok:
  assumes "kcp_inv kcp"
  shows "\<exists>kcp'. input_cwnd kcp = Some kcp' \<and> kcp_inv kcp'"
proof -
  have f: "kcp_inv (kcp\<lparr>cwnd := a, incr := b\<rparr>)" "kcp_inv (kcp\<lparr>incr := b\<rparr>)" "kcp_inv (kcp\<lparr>incr := b, cwnd := a\<rparr>)" for a b
    using assms rcv_inv_view [of "kcp\<lparr>cwnd := a, incr := b\<rparr>" kcp] rcv_inv_view [of "kcp\<lparr>incr := b\<rparr>" kcp]
      rcv_inv_view [of "kcp\<lparr>incr := b, cwnd := a\<rparr>" kcp] by (simp_all add: kcp_inv_def rtt_ok_def)
  have m: "0 < mss kcp" using assms mss_pos [of kcp] by (simp add: kcp_inv_def snd_inv_def word_gt_0)
  have i: "incr kcp \<noteq> 0" if "\<not> incr kcp < mss kcp" using that m by (metis)
  show ?thesis
    unfolding input_cwnd_def using m i f assms by (auto simp: Let_def)
qed

lemma kcp_inv_fastack: "kcp_inv kcp \<Longrightarrow> kcp_inv (ikcp_parse_fastack kcp sn)"
  using rcv_inv_view [of "ikcp_parse_fastack kcp sn" kcp] by (simp add: kcp_inv_def ikcp_parse_fastack_inv)

lemma ikcp_input_ok:
  assumes "kcp_inv kcp" "timely (current kcp) data" "length (acklist kcp) + length data < 2 ^ 31"
  shows "\<exists>r kcp'. ikcp_input kcp data = Some (r, kcp') \<and> r \<in> {0, - 1, - 2, - 3} \<and> kcp_inv kcp'"
proof (cases "sint (of_nat (length data) :: u32) < int IKCP_OVERHEAD")
  case False
  obtain r k flag maxack ts where l: "input_loop kcp data (False, 0, 0) = Some (r, k, flag, maxack, ts)" "r \<in> {0, - 1, - 2, - 3}" "kcp_inv k"
    using input_loop_ok [OF assms, of "(False, 0, 0)"] by auto
  define k' where "k' = (if flag then ikcp_parse_fastack k maxack else k)"
  have k': "kcp_inv k'" using l(3) kcp_inv_fastack by (simp add: k'_def)
  obtain c where c: "input_cwnd k' = Some c" "kcp_inv c" using input_cwnd_ok [OF k'] by blast
  show ?thesis using False l c k' by (auto simp: ikcp_input_def Let_def simp flip: k'_def)
qed (use assms in \<open>simp add: ikcp_input_def Let_def\<close>)

lemma rtt_ok_view: "rtt_view kcp = rtt_view kcp' \<Longrightarrow> rtt_ok kcp = rtt_ok kcp'"
  by (simp add: rtt_view_def rtt_ok_def)

lemma ikcp_update_ok:
  assumes "kcp_inv kcp"
  shows "\<exists>outs kcp'. ikcp_update kcp now = Some (outs, kcp') \<and> kcp_inv kcp' \<and>
           list_all (\<lambda>d. 0 < length d \<and> length d \<le> unat (mtu kcp)) outs"
proof -
  define k where "k = kcp\<lparr>current := now\<rparr>"
  define k1 where "k1 = (if updated k = 0 then k\<lparr>updated := 1, ts_flush := now\<rparr> else k)"
  have i1: "snd_inv k1" "rcv_view k1 = rcv_view kcp" "rtt_view k1 = rtt_view kcp" "mtu k1 = mtu kcp"
    using assms by (simp_all add: k1_def k_def kcp_inv_def)
  have g: "\<exists>outs kcp'. ikcp_flush (k1\<lparr>ts_flush := t\<rparr>) = Some (outs, kcp') \<and> kcp_inv kcp' \<and>
           list_all (\<lambda>d. 0 < length d \<and> length d \<le> unat (mtu kcp)) outs" for t
  proof -
    have "snd_inv (k1\<lparr>ts_flush := t\<rparr>)" using i1(1) by simp
    from ikcp_flush_ok [OF this] obtain outs k' where k': "ikcp_flush (k1\<lparr>ts_flush := t\<rparr>) = Some (outs, k')" "snd_inv k'"
        "rcv_view k' = rcv_view kcp" "rtt_view k' = rtt_view kcp" "list_all (\<lambda>d. 0 < length d \<and> length d \<le> unat (mtu kcp)) outs"
      using i1 by auto
    then show ?thesis using assms rcv_inv_view [OF k'(3)] rtt_ok_view [OF k'(4)] by (simp add: kcp_inv_def)
  qed
  have "kcp_inv k1" using assms i1(1) rcv_inv_view [OF i1(2)] rtt_ok_view [OF i1(3)] by (simp add: kcp_inv_def)
  then show ?thesis unfolding ikcp_update_def using g
    by (auto simp: Let_def simp flip: k_def k1_def)
qed

end
