(* ===== verification/Kcp_Run.thy ===== *)
theory Kcp_Run
  imports Kcp_Input
begin

section \<open>A connection in use\<close>

text \<open>
  The calls an application makes on a connection, in any order, as a step relation; that the invariant holds in every
  state they reach; what follows from it; and where the code does not do what it should.
\<close>

text \<open>The MTU is set while nothing is queued (\<open>kcp_setmtu_overflow\<close> below shows why).\<close>

inductive kcp_step :: "ikcpcb \<Rightarrow> ikcpcb \<Rightarrow> bool" where
  Step_input: "timely (current kcp) data \<Longrightarrow> length (acklist kcp) + length data < 2 ^ 31 \<Longrightarrow>
    ikcp_input kcp data = Some (r, kcp') \<Longrightarrow> kcp_step kcp kcp'"
| Step_send: "length buffer < 2 ^ 30 \<Longrightarrow> ikcp_send kcp buffer (int (length buffer)) = Some (r, kcp') \<Longrightarrow> kcp_step kcp kcp'"
| Step_recv: "ikcp_recv kcp len = Some (r, d, kcp') \<Longrightarrow> kcp_step kcp kcp'"
| Step_update: "ikcp_update kcp now = Some (outs, kcp') \<Longrightarrow> kcp_step kcp kcp'"
| Step_nodelay: "kcp_step kcp (ikcp_nodelay kcp nd t resend nc)"
| Step_wndsize: "kcp_step kcp (ikcp_wndsize kcp sndwnd rcvwnd)"
| Step_interval: "kcp_step kcp (ikcp_interval kcp t)"
| Step_setmtu: "snd_queue kcp = [] \<Longrightarrow> snd_buf kcp = [] \<Longrightarrow> m < 2 ^ 30 \<Longrightarrow> kcp_step kcp (snd (ikcp_setmtu kcp m))"

inductive_cases kcp_stepE: "kcp_step kcp kcp'"

lemma kcp_inv_create: "kcp_inv (ikcp_create c)"
  by (simp add: kcp_inv_def rcv_inv_def snd_inv_def snd_core_def mtu_ok_def first_una_def window_ok_def rtt_ok_def ikcp_create_def
      IKCP_MTU_DEF_def IKCP_OVERHEAD_def IKCP_WND_RCV_def IKCP_RTO_MIN_def IKCP_RTO_DEF_def)

lemma read_frame [simp]:
  "snd_inv (kcp\<lparr>rcv_queue := b\<rparr>) = snd_inv kcp" "snd_inv (kcp\<lparr>nrcv_que := n\<rparr>) = snd_inv kcp"
  "rtt_ok (kcp\<lparr>rcv_queue := b\<rparr>) = rtt_ok kcp" "rtt_ok (kcp\<lparr>nrcv_que := n\<rparr>) = rtt_ok kcp" "rtt_ok (kcp\<lparr>probe := n\<rparr>) = rtt_ok kcp"
  "rtt_view (kcp\<lparr>snd_queue := b\<rparr>) = rtt_view kcp" "rtt_view (kcp\<lparr>nsnd_que := n\<rparr>) = rtt_view kcp"
  by (simp_all add: snd_inv_def snd_core_def mtu_ok_def first_una_def rtt_ok_def rtt_view_def cong: list.case_cong)

lemma settings_frame [simp]:
  "kcp_inv (kcp\<lparr>nodelay := a\<rparr>) = kcp_inv kcp" "kcp_inv (kcp\<lparr>interval := a\<rparr>) = kcp_inv kcp" "kcp_inv (kcp\<lparr>fastresend := i\<rparr>) = kcp_inv kcp"
  "kcp_inv (kcp\<lparr>nocwnd := i\<rparr>) = kcp_inv kcp" "kcp_inv (kcp\<lparr>snd_wnd := a\<rparr>) = kcp_inv kcp" "kcp_inv (kcp\<lparr>rcv_wnd := a\<rparr>) = kcp_inv kcp"
  by (simp_all add: kcp_inv_def snd_inv_def snd_core_def mtu_ok_def first_una_def rtt_ok_def rcv_inv_def cong: list.case_cong)

lemma minrto_frame: "kcp_inv kcp \<Longrightarrow> 0 \<le> i \<Longrightarrow> i \<le> 60000 \<Longrightarrow> kcp_inv (kcp\<lparr>rx_minrto := i\<rparr>)"
proof -
  have "snd_inv (kcp\<lparr>rx_minrto := i\<rparr>) = snd_inv kcp" "rcv_inv (kcp\<lparr>rx_minrto := i\<rparr>) = rcv_inv kcp"
    by (simp_all add: snd_inv_def snd_core_def mtu_ok_def first_una_def rcv_inv_def cong: list.case_cong)
  thus "kcp_inv kcp \<Longrightarrow> 0 \<le> i \<Longrightarrow> i \<le> 60000 \<Longrightarrow> ?thesis" by (simp add: kcp_inv_def rtt_ok_def)
qed

lemma recv_frame:
  "ikcp_recv kcp len = Some (r, d, kcp') \<Longrightarrow> snd_inv kcp' = snd_inv kcp \<and> rtt_ok kcp' = rtt_ok kcp"
  by (auto simp: ikcp_recv_def Let_def split: if_splits prod.splits)

lemma send_frame:
  assumes "ikcp_send kcp buffer len = Some (r, kcp')"
  shows "rcv_view kcp' = rcv_view kcp" "rtt_view kcp' = rtt_view kcp"
proof -
  have f: "rcv_view (send_fragments k b l n) = rcv_view k \<and> rtt_view (send_fragments k b l n) = rtt_view k" for k b l n
    by (induction n arbitrary: k b l) (simp_all add: Let_def rcv_view_def rtt_view_def)
  have g: "rcv_view k = rcv_view kcp \<and> rtt_view k = rtt_view kcp" if "send_stream kcp buffer len = (k, b, l)" for k b l
    using that by (auto simp: send_stream_def Let_def rcv_view_def rtt_view_def split: if_splits)
  show "rcv_view kcp' = rcv_view kcp" "rtt_view kcp' = rtt_view kcp"
    using assms f g unfolding ikcp_send_def by (auto simp: Let_def split: if_splits prod.splits)
qed

lemma setmtu_inv:
  assumes "kcp_inv kcp" "snd_queue kcp = []" "snd_buf kcp = []" "m < 2 ^ 30"
  shows "kcp_inv (snd (ikcp_setmtu kcp m))"
proof (cases "m < 50")
  case False
  let ?k = "snd (ikcp_setmtu kcp m)"
  define n where "n = nat m"
  have n: "m = int n" "50 \<le> n" "n < 2 ^ 30" using False assms(4) by (simp_all add: n_def nat_less_iff)
  have "unat ((of_nat n + 24) * 3 :: u32) = (n + 24) * 3" "unat (of_nat n :: u32) = n"
    using n by (simp_all add: unat_word_ariths unat_of_nat)
  then have "snd_inv ?k" using assms n by (simp add: ikcp_setmtu_def kcp_inv_def snd_inv_def snd_core_def mtu_ok_def first_una_def IKCP_OVERHEAD_def window_ok_def unat_of_nat)
  moreover have "rcv_inv ?k" using assms(1) rcv_inv_view [of ?k kcp] by (simp add: ikcp_setmtu_def kcp_inv_def rcv_view_def)
  moreover have "rtt_ok ?k" using assms(1) by (simp add: ikcp_setmtu_def kcp_inv_def rtt_ok_def)
  ultimately show ?thesis by (simp add: kcp_inv_def)
qed (use assms in \<open>simp add: ikcp_setmtu_def\<close>)

lemma settings_inv:
  assumes "kcp_inv kcp"
  shows "kcp_inv (ikcp_nodelay kcp nd t resend nc)" "kcp_inv (ikcp_wndsize kcp sndwnd rcvwnd)" "kcp_inv (ikcp_interval kcp t)"
  using assms by (simp_all add: ikcp_nodelay_def ikcp_wndsize_def ikcp_interval_def Let_def minrto_frame IKCP_RTO_NDL_def IKCP_RTO_MIN_def)

lemma kcp_step_inv:
  assumes "kcp_step kcp kcp'" "kcp_inv kcp"
  shows "kcp_inv kcp'"
  using assms(1)
proof cases
  case (Step_input data r)
  then show ?thesis using ikcp_input_ok [OF assms(2), of data] by simp
next
  case (Step_send buffer r)
  then show ?thesis using ikcp_send_returns [of kcp buffer] assms(2) send_frame [OF Step_send(2)] rcv_inv_view [of kcp' kcp] rtt_ok_view [of kcp' kcp]
    by (simp add: kcp_inv_def)
next
  case (Step_recv len r d)
  then show ?thesis using ikcp_recv_returns [of kcp len] recv_frame [OF Step_recv] assms(2) by (simp add: kcp_inv_def)
next
  case (Step_update now outs)
  then show ?thesis using ikcp_update_ok [OF assms(2), of now] by simp
qed (use assms(2) settings_inv setmtu_inv in auto)


lemma check_packets_pos: "check_packets now b tm = Some t \<Longrightarrow> 0 < tm \<Longrightarrow> 0 < t \<and> t \<le> tm"
  by (induction b arbitrary: tm) (auto simp: Let_def split: if_splits, fastforce+)

text \<open>
  C20: following \<open>ikcp_check\<close> never misses a flush: the time it returns is neither later than the next flush nor
  further away than one interval, and an \<open>ikcp_update\<close> at the time of that flush does flush.
\<close>

theorem kcp_check_meets_flush:
  assumes "updated kcp \<noteq> 0" "0 < itimediff (ts_flush kcp) now" "itimediff (ts_flush kcp) now \<le> 10000"
    and "interval kcp \<noteq> 0" "unat (interval kcp) < 2 ^ 31"
  shows "int (unat (ikcp_check kcp now - now)) \<le> itimediff (ts_flush kcp) now \<and>
    unat (ikcp_check kcp now - now) \<le> unat (interval kcp) \<and>
    ikcp_update kcp (ts_flush kcp) = ikcp_flush (kcp\<lparr>current := ts_flush kcp, ts_flush := ts_flush kcp + interval kcp\<rparr>)"
proof -
  let ?d = "itimediff (ts_flush kcp) now"
  have f: "itimediff now (ts_flush kcp) = - ?d"
  proof -
    have "unat (ts_flush kcp - now) < 2 ^ 31" "unat (ts_flush kcp - now) \<noteq> 0" "int (unat (ts_flush kcp - now)) = ?d"
      using assms(2) itimediff_pos [of "ts_flush kcp" now] itimediff_cases [of "ts_flush kcp" now] by (auto simp: unat_eq_0)
    moreover have "now - ts_flush kcp = 0 - (ts_flush kcp - now)" by simp
    moreover from calculation have "unat (now - ts_flush kcp) = 2 ^ 32 - unat (ts_flush kcp - now)"
      using unat_minus32 [of 0 "ts_flush kcp - now"] by simp
    ultimately show ?thesis using itimediff_cases [of now "ts_flush kcp"] by (simp split: if_splits)
  qed
  have u: "unat (if minimal \<ge> interval kcp then interval kcp else minimal) \<le> unat minimal" for minimal
    by (simp add: word_le_nat_alt)
  have c: "\<exists>m. ikcp_check kcp now = now + m \<and> int (unat m) \<le> ?d \<and> unat m \<le> unat (interval kcp)"
  proof (cases "check_packets now (snd_buf kcp) 0x7fffffff")
    case None
    then show ?thesis using assms f by (intro exI [of _ 0]) (simp add: ikcp_check_def Let_def)
  next
    case (Some t)
    define x where "x = (if t < ?d then t else ?d)"
    have x: "0 < x" "x \<le> ?d" using check_packets_pos [OF Some] assms(2) by (auto simp: x_def)
    let ?m = "of_int x :: u32"
    let ?n = "if ?m \<ge> interval kcp then interval kcp else ?m"
    have "int (unat ?m) = x" using x assms(3) by (simp add: unsigned_of_int take_bit_int_eq_self)
    then have "int (unat ?n) \<le> ?d" using u [of ?m] x(2) by linarith
    moreover have "unat ?n \<le> unat (interval kcp)" by (simp add: word_le_nat_alt)
    moreover have "ikcp_check kcp now = now + ?n" using Some assms f by (simp add: ikcp_check_def Let_def flip: x_def)
    ultimately show ?thesis by blast
  qed
  have i: "itimediff (ts_flush kcp) (ts_flush kcp + interval kcp) < 0"
  proof -
    have "ts_flush kcp - (ts_flush kcp + interval kcp) = 0 - interval kcp" by simp
    moreover have "unat (0 - interval kcp) = 2 ^ 32 - unat (interval kcp)" "0 < unat (interval kcp)"
      using assms(4) unat_minus32 [of 0 "interval kcp"] by (simp_all add: unat_gt_0 unat_eq_0)
    ultimately show ?thesis using assms(5) by (simp only: itimediff_neg) simp
  qed
  have "ikcp_update kcp (ts_flush kcp) = ikcp_flush (kcp\<lparr>current := ts_flush kcp, ts_flush := ts_flush kcp + interval kcp\<rparr>)"
    using assms(1) i by (simp add: ikcp_update_def Let_def itimediff_def [of "ts_flush kcp" "ts_flush kcp"])
  with c show ?thesis by auto
qed


text \<open>
  The advice of \<open>ikcp_check\<close> can be to call \<open>ikcp_update\<close> now although the call does nothing: when a segment is due
  and the next flush is not, \<open>ikcp_check\<close> returns the current time and \<open>ikcp_update\<close> at that time sends nothing.
\<close>

lemma kcp_check_spins:
  assumes "updated kcp \<noteq> 0" "- 10000 \<le> itimediff now (ts_flush kcp)" "itimediff now (ts_flush kcp) < 0"
    and "snd_buf kcp = s # ss" "itimediff (sg_resendts s) now \<le> 0"
  shows "ikcp_check kcp now = now \<and> ikcp_update kcp now = Some ([], kcp\<lparr>current := now\<rparr>)"
  using assms by (simp add: ikcp_check_def ikcp_update_def Let_def)

text \<open>
  C36: in streaming mode a send that fails has sent something: when the rest of the buffer needs too many fragments,
  \<open>ikcp_send\<close> returns -2, but the first bytes of the buffer are already part of the last queued segment.
\<close>

theorem kcp_stream_failure_keeps_bytes:
  assumes "snd_inv kcp" "stream kcp \<noteq> 0" "snd_queue kcp \<noteq> []" "sg_len (last (snd_queue kcp)) < mss kcp"
    and "length buffer < 2 ^ 30" "c = unat (mss kcp) - unat (sg_len (last (snd_queue kcp)))"
    and "c \<le> length buffer" "128 \<le> frag_count (unat (mss kcp)) (length buffer - c)"
  shows "\<exists>kcp'. ikcp_send kcp buffer (int (length buffer)) = Some (- 2, kcp') \<and>
    sg_data (last (snd_queue kcp')) = sg_data (last (snd_queue kcp)) @ take c buffer"
proof -
  have m: "mtu_ok kcp" using assms(1) by (simp add: snd_inv_def)
  let ?old = "last (snd_queue kcp)"
  have l: "unat (sg_len ?old) < unat (mss kcp)" using assms(4) by (simp add: word_less_nat_alt)
  have "unat (mss kcp - sg_len ?old) = c" using l assms(6) by (simp add: unat_sub word_le_nat_alt)
  moreover have "c < 2 ^ 31" using mss_pos [OF m] assms(6) by (elim conjE) (simp add: less_imp_diff_less)
  ultimately have cap: "sint (mss kcp - sg_len ?old) = int c" by (simp only: sint32 if_True)
  let ?k = "kcp\<lparr>snd_queue := butlast (snd_queue kcp) @ [ikcp_segment_new 0 (sg_len ?old + of_nat c) (sg_data ?old @ take c buffer)]\<rparr>"
  have st: "send_stream kcp buffer (int (length buffer)) = (?k, drop c buffer, int (length (drop c buffer)))"
    using assms(3,4,7) by (simp add: send_stream_def Let_def cap not_le [symmetric] of_nat_diff)
  have p: "length (drop c buffer) \<noteq> 0" using assms(8) mss_pos [OF m] by (cases "length buffer = c") (auto simp: frag_count_def)
  have ct: "(if int (length (drop c buffer)) \<le> sint (mss kcp) then 1 else sint ((of_nat (length (drop c buffer)) + mss kcp - 1) div mss kcp))
      = int (frag_count (unat (mss kcp)) (length buffer - c))"
  proof -
    have "length (drop c buffer) < 2 ^ 30" using assms(5) by simp
    from send_count_eq [OF m this] show ?thesis by (simp only: of_int_of_nat_eq length_drop)
  qed
  have c2: "\<not> int (length (drop c buffer)) \<le> sint (mss kcp)"
      "128 \<le> sint ((of_nat (length (drop c buffer)) + mss kcp - 1) div mss kcp)"
    using ct assms(8) by (simp_all split: if_splits del: length_drop)
  have "ikcp_send kcp buffer (int (length buffer)) = Some (- 2, ?k)"
    unfolding ikcp_send_def using assms(2,8) mss_pos [OF m] st p c2 by (simp add: Let_def IKCP_WND_RCV_def del: length_drop)
  thus ?thesis by (simp add: ikcp_segment_new_def)
qed

text \<open>
  C35: a peer chooses the round trip time: when the first acknowledgement of a connection carries a timestamp at least
  2^30 milliseconds old, the signed multiplication of \<open>ikcp_update_ack\<close> overflows.
\<close>

theorem kcp_rtt_overflow:
  assumes "rx_srtt kcp = 0" "2 ^ 30 \<le> itimediff (current kcp) (sg_ts seg)"
  shows "input_ack kcp seg info = None"
proof -
  let ?r = "itimediff (current kcp) (sg_ts seg)"
  have "2 ^ 29 \<le> quot ?r 2" using assms(2) zdiv_mono1 [OF assms(2), of 2] by (simp add: quot_nonneg)
  hence "i32 (4 * quot ?r 2) = None" by (simp add: i32_def)
  hence "ikcp_update_ack kcp ?r = None" using assms(1) by (simp add: ikcp_update_ack_def)
  thus ?thesis using assms(2) by (simp add: input_ack_def)
qed






subsection \<open>Concrete runs\<close>

text \<open>A datagram with one data segment, and one with one acknowledgement.\<close>

definition demo_push :: "byte list" where
  "demo_push = [1, 0, 0, 0, 81, 0, 128, 0, 0, 0, 0, 0, 0, 0, 0, 0, 0, 0, 0, 0, 1, 0, 0, 0, 7]"

definition demo_kcp :: ikcpcb where
  "demo_kcp = snd (the (ikcp_input (ikcp_create 1) demo_push))"

lemma demo_kcp_reached: "kcp_step\<^sup>*\<^sup>* (ikcp_create 1) demo_kcp"
proof -
  have "ikcp_input (ikcp_create 1) demo_push = Some (0, demo_kcp)" by code_simp
  moreover have "timely (current (ikcp_create 1)) demo_push" by code_simp
  moreover have "length (acklist (ikcp_create 1)) + length demo_push < 2 ^ 31" by (simp add: ikcp_create_def demo_push_def)
  ultimately have "kcp_step (ikcp_create 1) demo_kcp" using Step_input by blast
  thus ?thesis by (rule r_into_rtranclp)
qed





theorem kcp_rtt_overflow_witness:
  "input_ack (demo_kcp\<lparr>current := 2 ^ 30\<rparr>) (flush_seg demo_kcp) (False, 0, 0) = None"
proof -
  have "rx_srtt (demo_kcp\<lparr>current := 2 ^ 30\<rparr>) = 0" "2 ^ 30 \<le> itimediff (current (demo_kcp\<lparr>current := 2 ^ 30\<rparr>)) (sg_ts (flush_seg demo_kcp))"
    by code_simp+
  from kcp_rtt_overflow [OF this] show ?thesis .
qed

definition demo_sent :: ikcpcb where
  "demo_sent = snd (the (ikcp_update (snd (the (ikcp_send (snd (the (ikcp_update (ikcp_create 1) 0))) [1, 2, 3] 3))) 100))"

lemma kcp_check_spins_witness:
  "ikcp_check (demo_sent\<lparr>ts_flush := 450\<rparr>) 400 = 400 \<and> ikcp_update (demo_sent\<lparr>ts_flush := 450\<rparr>) 400 = Some ([], demo_sent\<lparr>ts_flush := 450, current := 400\<rparr>)"
proof -
  have "snd_buf (demo_sent\<lparr>ts_flush := 450\<rparr>) = hd (snd_buf demo_sent) # tl (snd_buf demo_sent)" by code_simp
  moreover have "itimediff (sg_resendts (hd (snd_buf demo_sent))) 400 \<le> 0" "updated (demo_sent\<lparr>ts_flush := 450\<rparr>) \<noteq> 0"
    "- 10000 \<le> itimediff 400 (ts_flush (demo_sent\<lparr>ts_flush := 450\<rparr>))" "itimediff 400 (ts_flush (demo_sent\<lparr>ts_flush := 450\<rparr>)) < 0" by code_simp+
  ultimately show ?thesis using kcp_check_spins [of "demo_sent\<lparr>ts_flush := 450\<rparr>" 400] by blast
qed

theorem kcp_check_meets_flush_witness:
  "unat (ikcp_check demo_sent 150 - 150) \<le> unat (interval demo_sent) \<and>
   ikcp_update demo_sent 200 = ikcp_flush (demo_sent\<lparr>current := 200, ts_flush := 300\<rparr>)"
proof -
  have "updated demo_sent \<noteq> 0" "0 < itimediff (ts_flush demo_sent) 150" "itimediff (ts_flush demo_sent) 150 \<le> 10000"
    "interval demo_sent \<noteq> 0" by code_simp+
  moreover have "interval demo_sent = 100" by code_simp
  ultimately have t: "unat (ikcp_check demo_sent 150 - 150) \<le> unat (interval demo_sent)"
      "ikcp_update demo_sent (ts_flush demo_sent) = ikcp_flush (demo_sent\<lparr>current := ts_flush demo_sent, ts_flush := ts_flush demo_sent + interval demo_sent\<rparr>)"
    using kcp_check_meets_flush [of demo_sent 150] by simp_all
  have "ts_flush demo_sent = 200" "ts_flush demo_sent + interval demo_sent = 300" by code_simp+
  thus ?thesis using t by simp
qed


definition demo_stream :: ikcpcb where
  "demo_stream = snd (the (ikcp_send ((snd (ikcp_setmtu (ikcp_create 1) 50))\<lparr>stream := 1\<rparr>) [1, 2, 3] 3))"

theorem kcp_stream_failure_keeps_bytes_witness:
  "\<exists>kcp'. ikcp_send demo_stream (replicate 4000 0) 4000 = Some (- 2, kcp') \<and>
     sg_data (last (snd_queue kcp')) = [1, 2, 3] @ replicate 23 0"
proof -
  let ?k = "(snd (ikcp_setmtu (ikcp_create 1) 50))\<lparr>stream := 1\<rparr>"
  have "kcp_inv (snd (ikcp_setmtu (ikcp_create 1) 50))"
    by (rule setmtu_inv [OF kcp_inv_create]) (simp_all add: ikcp_create_def)
  hence k: "snd_inv ?k" by (simp add: kcp_inv_def snd_inv_def snd_core_def mtu_ok_def first_una_def cong: list.case_cong)
  have "ikcp_send ?k [1, 2, 3] 3 = Some (0, demo_stream)" by code_simp
  hence i: "snd_inv demo_stream" using ikcp_send_returns [OF k, of "[1, 2, 3]"] by simp
  have h: "stream demo_stream \<noteq> 0" "snd_queue demo_stream \<noteq> []"
      "sg_len (last (snd_queue demo_stream)) < mss demo_stream" by code_simp+
  have v: "mss demo_stream = 26" "sg_len (last (snd_queue demo_stream)) = 3" "sg_data (last (snd_queue demo_stream)) = [1, 2, 3]" by code_simp+
  have "frag_count 26 (4000 - 23) = 153" by (simp add: frag_count_def)
  thus ?thesis using kcp_stream_failure_keeps_bytes [OF i h, of "replicate 4000 0" 23] v by simp
qed

end
