(* ===== verification/Hv_Digest.thy ===== *)
theory Hv_Digest
  imports Prelude
begin

unbundle bit_operations_syntax

section \<open>Hashing in blocks of 64 bytes\<close>

text \<open>
  What the contexts of SHA-1 and MD5 have in common: a state that takes in whole blocks and a buffer for the bytes
  that do not fill one yet.  \<open>absorb\<close> is the reference: all blocks at once, and the bytes left over.  The locale
  \<open>digest\<close> is the contract between a context and its update operation; what follows from it about feeding a message
  in pieces is proved once.
\<close>

function absorb :: "('s \<Rightarrow> byte list \<Rightarrow> 's) \<Rightarrow> 's \<Rightarrow> byte list \<Rightarrow> 's \<times> byte list" where
  "absorb f s xs = (if length xs < 64 then (s, xs) else absorb f (f s (take 64 xs)) (drop 64 xs))"
  by pat_completeness auto

termination absorb
  by (relation "measure (\<lambda>(f, s, xs). length xs)") auto

declare absorb.simps [simp del]

lemma absorb_short [simp]: "length xs < 64 \<Longrightarrow> absorb f s xs = (s, xs)"
  by (simp add: absorb.simps)

lemma absorb_block: "length b = 64 \<Longrightarrow> absorb f s (b @ xs) = absorb f (f s b) xs"
  by (subst absorb.simps) simp

lemma absorb_append: "absorb f s (xs @ ys) = (case absorb f s xs of (s', p) \<Rightarrow> absorb f s' (p @ ys))"
proof (induction f s xs rule: absorb.induct)
  case (1 f s xs)
  show ?case
  proof (cases "length xs < 64")
    case False
    then have e: "xs = take 64 xs @ drop 64 xs" "length (take 64 xs) = 64" by simp_all
    have "absorb f s (xs @ ys) = absorb f (f s (take 64 xs)) (drop 64 xs @ ys)"
      using absorb_block [OF e(2), of f s "drop 64 xs @ ys"] by (metis append_assoc append_take_drop_id)
    also have "\<dots> = (case absorb f (f s (take 64 xs)) (drop 64 xs) of (s', p) \<Rightarrow> absorb f s' (p @ ys))"
      by (rule "1.IH" [OF False])
    finally show ?thesis using False by (simp add: absorb.simps [of f s xs])
  qed simp
qed

lemma absorb_cong: "(\<And>s b. length b = 64 \<Longrightarrow> f s b = g s b) \<Longrightarrow> absorb f s xs = absorb g s xs"
proof (induction g s xs rule: absorb.induct)
  case (1 g s xs)
  show ?case
  proof (cases "length xs < 64")
    case False
    then show ?thesis using "1.IH" [OF False "1.prems"] "1.prems" [of "take 64 xs" s]
      by (simp add: absorb.simps [of f s xs] absorb.simps [of g s xs])
  qed simp
qed

lemma absorb_rest: "length (snd (absorb f s xs)) = length xs mod 64"
proof (induction f s xs rule: absorb.induct)
  case (1 f s xs)
  show ?case
  proof (cases "length xs < 64")
    case False
    then show ?thesis using "1.IH" [OF False] by (subst absorb.simps) (simp add: le_mod_geq)
  qed simp
qed

lemma absorb_rest_drop: "snd (absorb f s xs) = drop (length xs - length xs mod 64) xs"
proof (induction f s xs rule: absorb.induct)
  case (1 f s xs)
  show ?case
  proof (cases "length xs < 64")
    case False
    have "64 + (length xs - 64 - (length xs - 64) mod 64) = length xs - length xs mod 64"
      using False le_mod_geq [of 64 "length xs"] mod_le_divisor [of 64 "length xs"] mod_less_eq_dividend [of "length xs - 64" 64] by simp
    then show ?thesis using "1.IH" [OF False] False by (subst absorb.simps) (simp add: add.commute)
  qed simp
qed

text \<open>Writing into a buffer: \<open>memcpy(&buf[j], xs, length xs)\<close>, a write past the end being a failure.\<close>

definition copy_into :: "byte list \<Rightarrow> nat \<Rightarrow> byte list \<Rightarrow> byte list option" where
  "copy_into buf j xs = (if j + length xs \<le> length buf then Some (take j buf @ xs @ drop (j + length xs) buf) else None)"

lemma copy_into_ok:
  "j + length xs \<le> length buf \<Longrightarrow> \<exists>buf'. copy_into buf j xs = Some buf' \<and> length buf' = length buf \<and>
     take (j + length xs) buf' = take j buf @ xs"
  by (simp add: copy_into_def)

subsection \<open>Counting the bits\<close>

text \<open>The two words of the bit count after \<open>n\<close> bytes.\<close>

definition bits_lo :: "nat \<Rightarrow> u32" where
  "bits_lo n = of_nat (8 * n)"

definition bits_hi :: "nat \<Rightarrow> u32" where
  "bits_hi n = of_nat (8 * n div 2 ^ 32)"

lemma unat_of_nat32: "n < 2 ^ 32 \<Longrightarrow> unat (of_nat n :: u32) = n"
  by (simp add: unat_of_nat)

lemma unat_drop_bit32: "unat (drop_bit k (w :: u32)) = unat w div 2 ^ k"
proof -
  have "unat w < 2 ^ 32" using unsigned_less [of w] by simp
  hence "unat (drop_bit k w) = drop_bit k (unat w)" by (simp add: unsigned_drop_bit_eq take_bit_nat_eq_self)
  thus ?thesis by (simp only: drop_bit_eq_div)
qed

lemma count_index: "drop_bit 3 (bits_lo n) AND 63 = of_nat (n mod 64)"
proof -
  have m: "unat (x AND 63) = unat x mod 64" for x :: u32
  proof -
    have "x AND 63 = take_bit 6 x" by (simp add: take_bit_eq_mask mask_eq_exp_minus_1)
    hence "unat (x AND 63) = take_bit 6 (unat x)" by (simp only: unsigned_take_bit_eq)
    thus ?thesis by (simp only: take_bit_eq_mod) simp
  qed
  have "unat (drop_bit 3 (of_nat (8 * n) :: u32)) = (8 * n) mod 2 ^ 32 div 8"
    unfolding unat_drop_bit32 unat_of_nat by simp
  also have "\<dots> = n mod 2 ^ 29" using mod_mult_mult1 [of 8 n "2 ^ 29"] by simp
  finally have "unat (drop_bit 3 (of_nat (8 * n) :: u32) AND 63) = n mod 2 ^ 29 mod 64"
    by (simp only: m)
  also have "\<dots> = n mod 64" by (simp add: mod_mod_cancel)
  also have "\<dots> = unat (of_nat (n mod 64) :: u32)" by (rule unat_of_nat32 [symmetric]) (rule less_trans [of _ 64], simp_all)
  finally show ?thesis by (simp only: word_unat_eq_iff bits_lo_def)
qed

lemma bits_lo_add: "bits_lo n + push_bit 3 (of_nat L) = bits_lo (n + L)"
  by (simp add: bits_lo_def push_bit_eq_mult algebra_simps)

lemma count_carry:
  assumes "L < 2 ^ 32"
  shows "(if bits_lo (n + L) < bits_lo n then bits_hi n + 1 else bits_hi n) + drop_bit 29 (of_nat L) = bits_hi (n + L)"
proof -
  define a where "a = 8 * n"
  define b where "b = 8 * L"
  have d: "drop_bit 29 (of_nat L :: u32) = of_nat (b div 2 ^ 32)"
  proof -
    have "unat (drop_bit 29 (of_nat L :: u32)) = L div 2 ^ 29"
      unfolding unat_drop_bit32 using assms by (simp add: unat_of_nat32)
    also have "\<dots> = b div 2 ^ 32" using div_mult_mult1 [of 8 L "2 ^ 29"] by (simp add: b_def)
    finally have "unat (drop_bit 29 (of_nat L :: u32)) = unat (of_nat (b div 2 ^ 32) :: u32)"
      using assms by (subst unat_of_nat32) (simp_all add: b_def)
    thus ?thesis by (simp only: word_unat_eq_iff)
  qed
  have c: "(of_nat a + of_nat b :: u32) < of_nat a \<longleftrightarrow> 2 ^ 32 \<le> a mod 2 ^ 32 + b mod 2 ^ 32"
  proof -
    have "unat (of_nat a + of_nat b :: u32) = (a mod 2 ^ 32 + b mod 2 ^ 32) mod 2 ^ 32" by (simp add: unat_word_ariths unat_of_nat)
    moreover have "a mod 2 ^ 32 < 2 ^ 32" "b mod 2 ^ 32 < 2 ^ 32" by simp_all
    ultimately show ?thesis by (cases "2 ^ 32 \<le> a mod 2 ^ 32 + b mod 2 ^ 32") (simp_all add: word_less_nat_alt unat_of_nat le_mod_geq)
  qed
  have "(a + b) div 2 ^ 32 = a div 2 ^ 32 + b div 2 ^ 32 + (if 2 ^ 32 \<le> a mod 2 ^ 32 + b mod 2 ^ 32 then 1 else 0)"
  proof -
    have "a mod 2 ^ 32 < 2 ^ 32" "b mod 2 ^ 32 < 2 ^ 32" by simp_all
    then have "(a mod 2 ^ 32 + b mod 2 ^ 32) div 2 ^ 32 = (if 2 ^ 32 \<le> a mod 2 ^ 32 + b mod 2 ^ 32 then 1 else 0)"
      by (simp add: le_div_geq)
    thus ?thesis using div_add1_eq [of a b "2 ^ 32"] by simp
  qed
  hence "(of_nat ((a + b) div 2 ^ 32) :: u32) = of_nat (a div 2 ^ 32) + of_nat (b div 2 ^ 32) + (if 2 ^ 32 \<le> a mod 2 ^ 32 + b mod 2 ^ 32 then 1 else 0)"
    by simp
  moreover have "bits_lo (n + L) = of_nat a + of_nat b" "bits_lo n = of_nat a" "bits_hi (n + L) = of_nat ((a + b) div 2 ^ 32)"
      "bits_hi n = of_nat (a div 2 ^ 32)" by (simp_all add: a_def b_def bits_lo_def bits_hi_def algebra_simps)
  ultimately show ?thesis by (simp only: c d) simp
qed

lemma pad_length: "x < 64 \<Longrightarrow> (120 - x) mod 64 = (if x \<le> 56 then 56 - x else 120 - x)" for x :: nat
proof -
  assume "x < 64"
  show ?thesis
  proof (cases "x \<le> 56")
    case True
    then have "120 - x = (56 - x) + 64" by simp
    then show ?thesis using True by (simp only: mod_add_self2) simp
  qed simp
qed

subsection \<open>The contract\<close>

text \<open>What a context does with more bytes than fit in its buffer: fill it, take in the blocks of the rest, keep what is left.\<close>

lemma refill:
  fixes f :: "'s \<Rightarrow> byte list \<Rightarrow> 's" and n :: nat
  assumes "length buf = 64" "i = 64 - n mod 64" "i \<le> length data"
  shows "\<exists>b b2. copy_into buf (n mod 64) (take i data) = Some b \<and> length b = 64 \<and>
    copy_into b 0 (drop (length data - (length data - i) mod 64) data) = Some b2 \<and> length b2 = 64 \<and>
    absorb f s (take (n mod 64) buf @ data) = (fst (absorb f (f s b) (drop i data)), take ((n + length data) mod 64) b2)"
proof -
  let ?j = "n mod 64" and ?L = "length data"
  define p where "p = take ?j buf"
  have j: "?j < 64" by simp
  have i: "?j + i = 64" using assms(2) j by simp
  obtain b where b: "copy_into buf ?j (take i data) = Some b" "length b = 64" "b = p @ take i data"
    using copy_into_ok [of ?j "take i data" buf] assms(1,3) i by (auto simp: p_def min_absorb2)
  define r where "r = (?L - i) mod 64"
  have r: "r < 64" "r \<le> ?L - i" by (simp_all add: r_def)
  obtain b2 where b2: "copy_into b 0 (drop (?L - r) data) = Some b2" "length b2 = 64" "take (length (drop (?L - r) data)) b2 = drop (?L - r) data"
    using copy_into_ok [of 0 "drop (?L - r) data" b] b(2) r by auto
  have ab: "absorb f s (p @ data) = absorb f (f s b) (drop i data)"
    using absorb_block [OF b(2), of f s "drop i data"] b(3) by (metis append_assoc append_take_drop_id)
  have "snd (absorb f s (p @ data)) = drop (?L - r) data"
    unfolding ab absorb_rest_drop using assms(3) r by (simp add: r_def)
  moreover have "(n + ?L) mod 64 = r"
  proof -
    define q where "q = n div 64"
    have q: "n - ?j = 64 * q" unfolding q_def by (rule minus_mod_eq_mult_div)
    have "?j \<le> n" by simp
    hence "n + ?L = 64 * q + 64 + (?L - i)" using i q assms(3) by linarith
    also have "\<dots> = (?L - i) + 64 * (q + 1)" by simp
    finally show ?thesis unfolding r_def by (simp only: mod_mult_self2)
  qed
  moreover have "length (drop (?L - r) data) = r" using r by simp
  ultimately have "snd (absorb f s (p @ data)) = take ((n + ?L) mod 64) b2" using b2(3) by simp
  thus ?thesis using b(1,2) b2(1,2) ab unfolding r_def p_def by (metis prod.collapse)
qed

lemma mod64_word: "unat (of_nat (n mod 64) :: u32) = n mod 64"
  by (rule unat_of_nat32) (rule less_trans [of _ 64], simp_all)

lemma part_word: "64 - of_nat (n mod 64) = (of_nat (64 - n mod 64) :: u32)" "unat (of_nat (64 - n mod 64) :: u32) = 64 - n mod 64"
proof -
  have l: "n mod 64 \<le> 64" by (simp add: less_imp_le)
  show "64 - of_nat (n mod 64) = (of_nat (64 - n mod 64) :: u32)" using l by (simp add: of_nat_diff)
  show "unat (of_nat (64 - n mod 64) :: u32) = 64 - n mod 64" by (rule unat_of_nat32) simp
qed

text \<open>A message in pieces, each given to the update operation.\<close>

fun feed :: "('c \<Rightarrow> byte list \<Rightarrow> 'c option) \<Rightarrow> 'c \<Rightarrow> byte list list \<Rightarrow> 'c option" where
  "feed upd c [] = Some c"
| "feed upd c (xs # xss) = Option.bind (upd c xs) (\<lambda>c. feed upd c xss)"

text \<open>\<open>rep ctx s p n\<close>: the context holds the state \<open>s\<close>, the bytes \<open>p\<close> in its buffer, and has taken \<open>n\<close> bytes.\<close>

locale digest =
  fixes f :: "'s \<Rightarrow> byte list \<Rightarrow> 's" and upd :: "'c \<Rightarrow> byte list \<Rightarrow> 'c option"
    and rep :: "'c \<Rightarrow> 's \<Rightarrow> byte list \<Rightarrow> nat \<Rightarrow> bool" and limit :: nat
  assumes limit_pos: "0 < limit"
    and upd_ok: "rep c s p n \<Longrightarrow> length xs < limit \<Longrightarrow>
      \<exists>c'. upd c xs = Some c' \<and> rep c' (fst (absorb f s (p @ xs))) (snd (absorb f s (p @ xs))) (n + length xs)"
begin

lemma feed_pieces:
  "rep c s p n \<Longrightarrow> length p < 64 \<Longrightarrow> list_all (\<lambda>xs. length xs < limit) xss \<Longrightarrow>
     \<exists>c'. feed upd c xss = Some c' \<and> rep c' (fst (absorb f s (p @ concat xss))) (snd (absorb f s (p @ concat xss))) (n + length (concat xss))"
proof (induction xss arbitrary: c s p n)
  case (Cons xs xss)
  let ?a = "absorb f s (p @ xs)"
  obtain c1 where c1: "upd c xs = Some c1" "rep c1 (fst ?a) (snd ?a) (n + length xs)" using upd_ok [OF Cons.prems(1)] Cons.prems(3) by auto
  have "length (snd ?a) < 64" by (simp add: absorb_rest)
  from Cons.IH [OF c1(2) this] Cons.prems(3) obtain c' where c': "feed upd c1 xss = Some c'"
      "rep c' (fst (absorb f (fst ?a) (snd ?a @ concat xss))) (snd (absorb f (fst ?a) (snd ?a @ concat xss))) (n + length xs + length (concat xss))"
    by auto
  moreover have "absorb f s (p @ concat (xs # xss)) = absorb f (fst ?a) (snd ?a @ concat xss)"
    using absorb_append [of f s "p @ xs" "concat xss"] by (simp add: case_prod_beta)
  ultimately show ?case using c1(1) by (simp add: add.assoc)
qed (simp)

end

end
