(* ===== verification/Hv_Md5.thy ===== *)
theory Hv_Md5
  imports Hv_Digest
begin

unbundle bit_operations_syntax

section \<open>MD5 (util/md5.c)\<close>

text \<open>
  The transform with its unrolled sequence of 64 macro calls as a list of calls over four registers, the context and its
  operations, the reference of RFC 1321, and that the code computes it.
\<close>

subsection \<open>The code\<close>

definition ROTATE_LEFT :: "u32 \<Rightarrow> nat \<Rightarrow> u32" where
  "ROTATE_LEFT x n = push_bit n x OR drop_bit (32 - n) x"

datatype md5_reg = MA | MB | MC | MD
datatype md5_macro = FF | GG | HH | II

type_synonym md5_call = "md5_macro \<times> md5_reg \<times> md5_reg \<times> md5_reg \<times> md5_reg \<times> nat \<times> nat \<times> u32"

definition md5_mix :: "md5_macro \<Rightarrow> u32 \<Rightarrow> u32 \<Rightarrow> u32 \<Rightarrow> u32" where
  "md5_mix m x y z =
     (case m of
        FF \<Rightarrow> (x AND y) OR (NOT x AND z)
      | GG \<Rightarrow> (x AND z) OR (y AND NOT z)
      | HH \<Rightarrow> x XOR y XOR z
      | II \<Rightarrow> y XOR (x OR NOT z))"

definition md5_exec :: "u32 list \<Rightarrow> md5_call \<Rightarrow> (md5_reg \<Rightarrow> u32) \<Rightarrow> md5_reg \<Rightarrow> u32" where
  "md5_exec xs call r =
     (case call of (m, a, b, c, d, x, s, ac) \<Rightarrow>
        r(a := ROTATE_LEFT (r a + (md5_mix m (r b) (r c) (r d) + xs ! x + ac)) s + r b))"

definition md5_calls :: "md5_call list" where
  "md5_calls =
     [(FF, MA, MB, MC, MD, 0, 7, 0xd76aa478), (FF, MD, MA, MB, MC, 1, 12, 0xe8c7b756), (FF, MC, MD, MA, MB, 2, 17, 0x242070db), (FF, MB, MC, MD, MA, 3, 22, 0xc1bdceee),
      (FF, MA, MB, MC, MD, 4, 7, 0xf57c0faf), (FF, MD, MA, MB, MC, 5, 12, 0x4787c62a), (FF, MC, MD, MA, MB, 6, 17, 0xa8304613), (FF, MB, MC, MD, MA, 7, 22, 0xfd469501),
      (FF, MA, MB, MC, MD, 8, 7, 0x698098d8), (FF, MD, MA, MB, MC, 9, 12, 0x8b44f7af), (FF, MC, MD, MA, MB, 10, 17, 0xffff5bb1), (FF, MB, MC, MD, MA, 11, 22, 0x895cd7be),
      (FF, MA, MB, MC, MD, 12, 7, 0x6b901122), (FF, MD, MA, MB, MC, 13, 12, 0xfd987193), (FF, MC, MD, MA, MB, 14, 17, 0xa679438e), (FF, MB, MC, MD, MA, 15, 22, 0x49b40821),
      (GG, MA, MB, MC, MD, 1, 5, 0xf61e2562), (GG, MD, MA, MB, MC, 6, 9, 0xc040b340), (GG, MC, MD, MA, MB, 11, 14, 0x265e5a51), (GG, MB, MC, MD, MA, 0, 20, 0xe9b6c7aa),
      (GG, MA, MB, MC, MD, 5, 5, 0xd62f105d), (GG, MD, MA, MB, MC, 10, 9, 0x2441453), (GG, MC, MD, MA, MB, 15, 14, 0xd8a1e681), (GG, MB, MC, MD, MA, 4, 20, 0xe7d3fbc8),
      (GG, MA, MB, MC, MD, 9, 5, 0x21e1cde6), (GG, MD, MA, MB, MC, 14, 9, 0xc33707d6), (GG, MC, MD, MA, MB, 3, 14, 0xf4d50d87), (GG, MB, MC, MD, MA, 8, 20, 0x455a14ed),
      (GG, MA, MB, MC, MD, 13, 5, 0xa9e3e905), (GG, MD, MA, MB, MC, 2, 9, 0xfcefa3f8), (GG, MC, MD, MA, MB, 7, 14, 0x676f02d9), (GG, MB, MC, MD, MA, 12, 20, 0x8d2a4c8a),
      (HH, MA, MB, MC, MD, 5, 4, 0xfffa3942), (HH, MD, MA, MB, MC, 8, 11, 0x8771f681), (HH, MC, MD, MA, MB, 11, 16, 0x6d9d6122), (HH, MB, MC, MD, MA, 14, 23, 0xfde5380c),
      (HH, MA, MB, MC, MD, 1, 4, 0xa4beea44), (HH, MD, MA, MB, MC, 4, 11, 0x4bdecfa9), (HH, MC, MD, MA, MB, 7, 16, 0xf6bb4b60), (HH, MB, MC, MD, MA, 10, 23, 0xbebfbc70),
      (HH, MA, MB, MC, MD, 13, 4, 0x289b7ec6), (HH, MD, MA, MB, MC, 0, 11, 0xeaa127fa), (HH, MC, MD, MA, MB, 3, 16, 0xd4ef3085), (HH, MB, MC, MD, MA, 6, 23, 0x4881d05),
      (HH, MA, MB, MC, MD, 9, 4, 0xd9d4d039), (HH, MD, MA, MB, MC, 12, 11, 0xe6db99e5), (HH, MC, MD, MA, MB, 15, 16, 0x1fa27cf8), (HH, MB, MC, MD, MA, 2, 23, 0xc4ac5665),
      (II, MA, MB, MC, MD, 0, 6, 0xf4292244), (II, MD, MA, MB, MC, 7, 10, 0x432aff97), (II, MC, MD, MA, MB, 14, 15, 0xab9423a7), (II, MB, MC, MD, MA, 5, 21, 0xfc93a039),
      (II, MA, MB, MC, MD, 12, 6, 0x655b59c3), (II, MD, MA, MB, MC, 3, 10, 0x8f0ccc92), (II, MC, MD, MA, MB, 10, 15, 0xffeff47d), (II, MB, MC, MD, MA, 1, 21, 0x85845dd1),
      (II, MA, MB, MC, MD, 8, 6, 0x6fa87e4f), (II, MD, MA, MB, MC, 15, 10, 0xfe2ce6e0), (II, MC, MD, MA, MB, 6, 15, 0xa3014314), (II, MB, MC, MD, MA, 13, 21, 0x4e0811a1),
      (II, MA, MB, MC, MD, 4, 6, 0xf7537e82), (II, MD, MA, MB, MC, 11, 10, 0xbd3af235), (II, MC, MD, MA, MB, 2, 15, 0x2ad7d2bb), (II, MB, MC, MD, MA, 9, 21, 0xeb86d391)]"

fun HV_MD5Encode :: "u32 list \<Rightarrow> byte list" where
  "HV_MD5Encode [] = []"
| "HV_MD5Encode (w # ws) =
     ucast (w AND 0xFF) # ucast (drop_bit 8 w AND 0xFF) # ucast (drop_bit 16 w AND 0xFF) # ucast (drop_bit 24 w AND 0xFF) # HV_MD5Encode ws"

fun HV_MD5Decode :: "byte list \<Rightarrow> u32 list" where
  "HV_MD5Decode (a # b # c # d # bs) =
     (ucast a OR push_bit 8 (ucast b) OR push_bit 16 (ucast c) OR push_bit 24 (ucast d)) # HV_MD5Decode bs"
| "HV_MD5Decode _ = []"

definition HV_MD5Transform :: "u32 list \<Rightarrow> byte list \<Rightarrow> u32 list" where
  "HV_MD5Transform state block =
     (let r = (\<lambda>q. case q of MA \<Rightarrow> state ! 0 | MB \<Rightarrow> state ! 1 | MC \<Rightarrow> state ! 2 | MD \<Rightarrow> state ! 3);
          r = fold (md5_exec (HV_MD5Decode block)) md5_calls r
      in [state ! 0 + r MA, state ! 1 + r MB, state ! 2 + r MC, state ! 3 + r MD])"

definition MD5_PADDING :: "byte list" where
  "MD5_PADDING = 0x80 # replicate 63 0"

record HV_MD5_CTX =
  md5_count0 :: u32
  md5_count1 :: u32
  md5_state :: "u32 list"
  md5_buffer :: "byte list"

definition HV_MD5Init :: "byte list \<Rightarrow> HV_MD5_CTX" where
  "HV_MD5Init mem = \<lparr>md5_count0 = 0, md5_count1 = 0, md5_state = [0x67452301, 0xEFCDAB89, 0x98BADCFE, 0x10325476], md5_buffer = mem\<rparr>"

partial_function (option) md5_blocks :: "u32 list \<Rightarrow> byte list \<Rightarrow> u32 \<Rightarrow> u32 \<Rightarrow> (u32 list \<times> u32) option" where
  "md5_blocks state input i len =
     (if i + 64 \<le> len then
        if unat i + 64 \<le> length input then md5_blocks (HV_MD5Transform state (take 64 (drop (unat i) input))) input (i + 64) len
        else None
      else Some (state, i))"

declare md5_blocks.simps [code]

definition md5_count :: "HV_MD5_CTX \<Rightarrow> u32 \<Rightarrow> HV_MD5_CTX" where
  "md5_count ctx len =
     (let count0 = md5_count0 ctx + push_bit 3 len;
          count1 = (if count0 < push_bit 3 len then md5_count1 ctx + 1 else md5_count1 ctx) + drop_bit 29 len
      in ctx\<lparr>md5_count0 := count0, md5_count1 := count1\<rparr>)"

definition HV_MD5Update :: "HV_MD5_CTX \<Rightarrow> byte list \<Rightarrow> HV_MD5_CTX option" where
  "HV_MD5Update ctx input = do {
     let len = of_nat (length input);
     let index = drop_bit 3 (md5_count0 ctx) AND 0x3F;
     let partlen = 64 - index;
     let ctx = md5_count ctx len;
     (ctx, i, index) \<leftarrow>
       (if len \<ge> partlen then do {
          buffer \<leftarrow> copy_into (md5_buffer ctx) (unat index) (take (unat partlen) input);
          (state, i) \<leftarrow> md5_blocks (HV_MD5Transform (md5_state ctx) buffer) input partlen len;
          Some (ctx\<lparr>md5_state := state, md5_buffer := buffer\<rparr>, i, 0) }
        else Some (ctx, 0, index));
     buffer \<leftarrow> copy_into (md5_buffer ctx) (unat index) (drop (unat i) input);
     Some (ctx\<lparr>md5_buffer := buffer\<rparr>) }"

definition HV_MD5Final :: "HV_MD5_CTX \<Rightarrow> byte list option" where
  "HV_MD5Final ctx = do {
     let index = unat (drop_bit 3 (md5_count0 ctx) AND 0x3F);
     let padlen = (if index < 56 then 56 - index else 120 - index);
     let bits = HV_MD5Encode [md5_count0 ctx, md5_count1 ctx];
     ctx \<leftarrow> (if padlen \<le> length MD5_PADDING then HV_MD5Update ctx (take padlen MD5_PADDING) else None);
     ctx \<leftarrow> HV_MD5Update ctx bits;
     Some (HV_MD5Encode (md5_state ctx)) }"

definition hv_md5 :: "byte list \<Rightarrow> byte list \<Rightarrow> byte list option" where
  "hv_md5 mem input = do {
     ctx \<leftarrow> HV_MD5Update (HV_MD5Init mem) input;
     HV_MD5Final ctx }"

definition md5_i2hex :: "byte \<Rightarrow> byte" where
  "md5_i2hex i = (if i < 10 then i + 48 else i - 10 + 97)"

definition hv_md5_hex :: "byte list \<Rightarrow> byte list \<Rightarrow> nat \<Rightarrow> byte list option" where
  "hv_md5_hex mem input outputlen =
     (if outputlen < 32 then Some []
      else do {
        digest \<leftarrow> hv_md5 mem input;
        let output = concat (map (\<lambda>d. [md5_i2hex (drop_bit 4 d), md5_i2hex (d AND 0x0F)]) digest);
        Some (if outputlen > 32 then output @ [0] else output) })"

subsection \<open>The reference\<close>

definition md5_k :: "u32 list" where
  "md5_k =
     [0xd76aa478, 0xe8c7b756, 0x242070db, 0xc1bdceee, 0xf57c0faf, 0x4787c62a, 0xa8304613, 0xfd469501,
      0x698098d8, 0x8b44f7af, 0xffff5bb1, 0x895cd7be, 0x6b901122, 0xfd987193, 0xa679438e, 0x49b40821,
      0xf61e2562, 0xc040b340, 0x265e5a51, 0xe9b6c7aa, 0xd62f105d, 0x2441453, 0xd8a1e681, 0xe7d3fbc8,
      0x21e1cde6, 0xc33707d6, 0xf4d50d87, 0x455a14ed, 0xa9e3e905, 0xfcefa3f8, 0x676f02d9, 0x8d2a4c8a,
      0xfffa3942, 0x8771f681, 0x6d9d6122, 0xfde5380c, 0xa4beea44, 0x4bdecfa9, 0xf6bb4b60, 0xbebfbc70,
      0x289b7ec6, 0xeaa127fa, 0xd4ef3085, 0x4881d05, 0xd9d4d039, 0xe6db99e5, 0x1fa27cf8, 0xc4ac5665,
      0xf4292244, 0x432aff97, 0xab9423a7, 0xfc93a039, 0x655b59c3, 0x8f0ccc92, 0xffeff47d, 0x85845dd1,
      0x6fa87e4f, 0xfe2ce6e0, 0xa3014314, 0x4e0811a1, 0xf7537e82, 0xbd3af235, 0x2ad7d2bb, 0xeb86d391]"

definition md5_shift :: "nat \<Rightarrow> nat" where
  "md5_shift t = (if t < 16 then [7, 12, 17, 22] else if t < 32 then [5, 9, 14, 20] else if t < 48 then [4, 11, 16, 23] else [6, 10, 15, 21]) ! (t mod 4)"

definition md5_index :: "nat \<Rightarrow> nat" where
  "md5_index t = (if t < 16 then t else if t < 32 then (5 * t + 1) mod 16 else if t < 48 then (3 * t + 5) mod 16 else (7 * t) mod 16)"

definition md5_f :: "nat \<Rightarrow> u32 \<Rightarrow> u32 \<Rightarrow> u32 \<Rightarrow> u32" where
  "md5_f t x y z =
     (if t < 16 then (x AND y) OR (NOT x AND z) else if t < 32 then (x AND z) OR (y AND NOT z)
      else if t < 48 then x XOR y XOR z else y XOR (x OR NOT z))"

definition md5_round :: "u32 list \<Rightarrow> nat \<Rightarrow> u32 \<times> u32 \<times> u32 \<times> u32 \<Rightarrow> u32 \<times> u32 \<times> u32 \<times> u32" where
  "md5_round xs t = (\<lambda>(a, b, c, d). (d, b + ROTATE_LEFT (a + md5_f t b c d + xs ! md5_index t + md5_k ! t) (md5_shift t), b, c))"

definition md5_compress :: "u32 list \<Rightarrow> byte list \<Rightarrow> u32 list" where
  "md5_compress state block =
     (let (a, b, c, d) = fold (md5_round (HV_MD5Decode block)) [0..<64] (state ! 0, state ! 1, state ! 2, state ! 3)
      in [state ! 0 + a, state ! 1 + b, state ! 2 + c, state ! 3 + d])"

definition md5_padding :: "nat \<Rightarrow> byte list" where
  "md5_padding n = 0x80 # replicate ((119 - n mod 64) mod 64) 0 @ HV_MD5Encode [bits_lo n, bits_hi n]"

definition md5_reference :: "byte list \<Rightarrow> byte list" where
  "md5_reference msg =
     HV_MD5Encode (fst (absorb md5_compress [0x67452301, 0xEFCDAB89, 0x98BADCFE, 0x10325476] (msg @ md5_padding (length msg))))"

subsection \<open>The unrolled calls\<close>

definition mrg :: "nat \<Rightarrow> md5_reg" where
  "mrg t = [MA, MD, MC, MB] ! (t mod 4)"

definition md5_call_at :: "nat \<Rightarrow> md5_call" where
  "md5_call_at t =
     ((if t < 16 then FF else if t < 32 then GG else if t < 48 then HH else II),
      mrg t, mrg (t + 3), mrg (t + 2), mrg (t + 1), md5_index t, md5_shift t, md5_k ! t)"

lemma md5_calls_at: "md5_calls = map md5_call_at [0..<64]"
  by code_simp

lemma mrg_distinct: "distinct [mrg i, mrg (i + 1), mrg (i + 2), mrg (i + 3)]"
proof -
  have "list_all (\<lambda>q. distinct (map (\<lambda>k. [MA, MD, MC, MB] ! ((q + k) mod 4)) [0, 1, 2, 3])) [0..<4]" by code_simp
  moreover have "i mod 4 \<in> set [0..<4]" by simp
  ultimately have "distinct (map (\<lambda>k. [MA, MD, MC, MB] ! ((i mod 4 + k) mod 4)) [0, 1, 2, 3])" by (simp only: list_all_iff)
  thus ?thesis by (simp only: mod_add_left_eq mrg_def list.map add_0_right)
qed

definition mreg_tuple :: "nat \<Rightarrow> (md5_reg \<Rightarrow> u32) \<Rightarrow> u32 \<times> u32 \<times> u32 \<times> u32" where
  "mreg_tuple i r = (r (mrg i), r (mrg (i + 3)), r (mrg (i + 2)), r (mrg (i + 1)))"

lemma md5_exec_round: "mreg_tuple (Suc i) (md5_exec xs (md5_call_at i) r) = md5_round xs i (mreg_tuple i r)"
proof -
  define m where "m = (if i < 16 then FF else if i < 32 then GG else if i < 48 then HH else II)"
  have mx: "md5_mix m x y z = md5_f i x y z" for x y z by (simp add: m_def md5_mix_def md5_f_def)
  have c: "mrg (Suc i + 3) = mrg i" "Suc i + 2 = i + 3" "Suc i + 1 = i + 2" by (simp_all add: mrg_def)
  have t: "mreg_tuple (Suc i) r' = (r' (mrg (i + 1)), r' (mrg i), r' (mrg (i + 3)), r' (mrg (i + 2)))" for r'
    unfolding mreg_tuple_def c unfolding Suc_eq_plus1 ..
  have e: "md5_exec xs (md5_call_at i) r = r(mrg i := ROTATE_LEFT (r (mrg i) + (md5_f i (r (mrg (i + 3))) (r (mrg (i + 2))) (r (mrg (i + 1))) +
      xs ! md5_index i + md5_k ! i)) (md5_shift i) + r (mrg (i + 3)))"
    by (simp only: md5_exec_def md5_call_at_def prod.case mx flip: m_def)
  show ?thesis using mrg_distinct [of i] unfolding t unfolding e mreg_tuple_def by (auto simp: md5_round_def ac_simps)
qed

lemma md5_exec_rounds:
  "mreg_tuple n (fold (md5_exec xs) (map md5_call_at [0..<n]) r) = fold (md5_round xs) [0..<n] (mreg_tuple 0 r)"
  by (induction n) (simp_all add: md5_exec_round)

lemma md5_transform_compress: "HV_MD5Transform state block = md5_compress state block"
proof -
  define r0 where "r0 = (\<lambda>q. case q of MA \<Rightarrow> state ! 0 | MB \<Rightarrow> state ! 1 | MC \<Rightarrow> state ! 2 | MD \<Rightarrow> state ! 3)"
  define r where "r = fold (md5_exec (HV_MD5Decode block)) md5_calls r0"
  have "HV_MD5Transform state block = [state ! 0 + r MA, state ! 1 + r MB, state ! 2 + r MC, state ! 3 + r MD]"
    by (simp only: HV_MD5Transform_def r_def r0_def Let_def)
  moreover have "mreg_tuple 64 r = fold (md5_round (HV_MD5Decode block)) [0..<64] (mreg_tuple 0 r0)"
    unfolding r_def md5_calls_at by (rule md5_exec_rounds)
  moreover have "mreg_tuple 64 r = (r MA, r MB, r MC, r MD)" "mreg_tuple 0 r0 = (state ! 0, state ! 1, state ! 2, state ! 3)"
    by (simp_all add: mreg_tuple_def mrg_def r0_def)
  ultimately have "fold (md5_round (HV_MD5Decode block)) [0..<64] (state ! 0, state ! 1, state ! 2, state ! 3) = (r MA, r MB, r MC, r MD)"
    "HV_MD5Transform state block = [state ! 0 + r MA, state ! 1 + r MB, state ! 2 + r MC, state ! 3 + r MD]" by simp_all
  thus ?thesis unfolding md5_compress_def by (simp add: Let_def)
qed


subsection \<open>Contexts\<close>

definition md5_rep :: "HV_MD5_CTX \<Rightarrow> u32 list \<Rightarrow> byte list \<Rightarrow> nat \<Rightarrow> bool" where
  "md5_rep ctx s p n \<longleftrightarrow> md5_state ctx = s \<and> length (md5_buffer ctx) = 64 \<and> p = take (n mod 64) (md5_buffer ctx) \<and>
     md5_count0 ctx = bits_lo n \<and> md5_count1 ctx = bits_hi n"

lemma carry_sym: "(x + y < x) = (x + y < y)" for x y :: u32
proof -
  have "unat x < 2 ^ 32" "unat y < 2 ^ 32" using unsigned_less [of x] unsigned_less [of y] by simp_all
  thus ?thesis by (cases "unat x + unat y < 2 ^ 32") (simp_all add: word_less_nat_alt unat_word_ariths le_mod_geq, linarith)
qed

lemma md5_count_rep:
  assumes "md5_rep ctx s p n" "L < 2 ^ 32"
  shows "md5_count ctx (of_nat L) = ctx\<lparr>md5_count0 := bits_lo (n + L), md5_count1 := bits_hi (n + L)\<rparr>"
proof -
  have "(bits_lo (n + L) < push_bit 3 (of_nat L)) = (bits_lo (n + L) < bits_lo n)"
    using carry_sym [of "bits_lo n" "push_bit 3 (of_nat L)"] by (simp add: bits_lo_add)
  thus ?thesis using assms(1) count_carry [OF assms(2), of n] unfolding md5_rep_def md5_count_def
    by (simp add: Let_def bits_lo_add split: if_splits)
qed

lemma md5_blocks_ok:
  assumes "length data < 2 ^ 32 - 64" "i \<le> length data"
  shows "md5_blocks s data (of_nat i) (of_nat (length data)) =
    Some (fst (absorb HV_MD5Transform s (drop i data)), of_nat (length data - (length data - i) mod 64))"
  using assms
proof (induction "length data - i" arbitrary: i s rule: less_induct)
  case less
  have e: "of_nat i + 64 = (of_nat (i + 64) :: u32)" by simp
  have c: "((of_nat (i + 64) :: u32) \<le> of_nat (length data)) = (i + 64 \<le> length data)"
  proof -
    have "unat (of_nat (i + 64) :: u32) = i + 64" "unat (of_nat (length data) :: u32) = length data"
      using less.prems by (intro unat_of_nat32; simp)+
    thus ?thesis by (simp only: word_le_nat_alt)
  qed
  show ?case
  proof (cases "i + 64 \<le> length data")
    case True
    have u: "unat (of_nat i :: u32) = i" using less.prems True by (simp add: unat_of_nat32)
    have "md5_blocks s data (of_nat i) (of_nat (length data)) =
        md5_blocks (HV_MD5Transform s (take 64 (drop i data))) data (of_nat (i + 64)) (of_nat (length data))"
      by (subst md5_blocks.simps) (simp only: e c u True if_True)
    also have "\<dots> = Some (fst (absorb HV_MD5Transform (HV_MD5Transform s (take 64 (drop i data))) (drop (i + 64) data)),
        of_nat (length data - (length data - (i + 64)) mod 64))"
      using less.prems True by (intro less.hyps) simp_all
    also have "absorb HV_MD5Transform (HV_MD5Transform s (take 64 (drop i data))) (drop (i + 64) data) = absorb HV_MD5Transform s (drop i data)"
      using True by (auto simp: absorb.simps [of _ s "drop i data"] add.commute)
    also have "(length data - (i + 64)) mod 64 = (length data - i) mod 64" using True by (simp add: le_mod_geq [of 64 "length data - i"])
    finally show ?thesis .
  next
    case False
    then have "md5_blocks s data (of_nat i) (of_nat (length data)) = Some (s, of_nat i)"
      by (subst md5_blocks.simps) (simp only: e c if_False)
    then show ?thesis using False less.prems by simp
  qed
qed

lemma part_le: "length data < 2 ^ 32 - 64 \<Longrightarrow> ((64 - of_nat (n mod 64) :: u32) \<le> of_nat (length data)) = (64 \<le> n mod 64 + length data)"
proof -
  assume "length data < 2 ^ 32 - 64"
  hence "unat (of_nat (length data) :: u32) = length data" by (intro unat_of_nat32) simp
  moreover have "n mod 64 < 64" by simp
  ultimately show ?thesis using part_word(2) [of n] unfolding part_word(1) word_le_nat_alt by (simp only: le_diff_conv add.commute)
qed

lemma HV_MD5Update_ok:
  assumes "md5_rep ctx s p n" "length data < 2 ^ 32 - 64"
  shows "\<exists>ctx'. HV_MD5Update ctx data = Some ctx' \<and>
    md5_rep ctx' (fst (absorb HV_MD5Transform s (p @ data))) (snd (absorb HV_MD5Transform s (p @ data))) (n + length data)"
proof -
  let ?j = "n mod 64" and ?L = "length data" and ?i = "64 - n mod 64" and ?f = HV_MD5Transform
  have L: "?L < 2 ^ 32" using assms(2) by simp
  have c: "drop_bit 3 (md5_count0 ctx) AND 63 = of_nat ?j" "md5_state ctx = s" "p = take ?j (md5_buffer ctx)" "length (md5_buffer ctx) = 64"
    using assms(1) count_index by (simp_all add: md5_rep_def)
  show ?thesis
  proof (cases "64 \<le> ?j + ?L")
    case True
    then have i: "?i \<le> ?L" by simp
    define r where "r = ?L - (?L - ?i) mod 64"
    obtain b b2 where b: "copy_into (md5_buffer ctx) ?j (take ?i data) = Some b" "copy_into b 0 (drop r data) = Some b2" "length b2 = 64"
        "absorb ?f s (p @ data) = (fst (absorb ?f (?f s b) (drop ?i data)), take ((n + ?L) mod 64) b2)"
      using refill [OF c(4) refl i, of ?f s] c(3) by (auto simp: r_def)
    have bl: "md5_blocks (?f s b) data (of_nat ?i) (of_nat ?L) = Some (fst (absorb ?f (?f s b) (drop ?i data)), of_nat r)"
      using md5_blocks_ok [OF assms(2) i] by (simp only: r_def)
    have ur: "unat (of_nat r :: u32) = r" using assms(2) unfolding r_def by (intro unat_of_nat32) simp
    let ?k = "ctx\<lparr>md5_count0 := bits_lo (n + ?L), md5_count1 := bits_hi (n + ?L), md5_state := fst (absorb ?f s (p @ data)), md5_buffer := b2\<rparr>"
    have "HV_MD5Update ctx data = Some ?k"
      using True b bl ur c(1,2) part_le [OF assms(2), of n]
      by (simp add: HV_MD5Update_def Let_def md5_count_rep [OF assms(1) L] mod64_word part_word del: of_nat_diff)
    moreover have "md5_rep ?k (fst (absorb ?f s (p @ data))) (snd (absorb ?f s (p @ data))) (n + ?L)"
      using b(3,4) by (simp add: md5_rep_def)
    ultimately show ?thesis by blast
  next
    case False
    obtain b where b: "copy_into (md5_buffer ctx) ?j data = Some b" "length b = 64" "take (?j + ?L) b = take ?j (md5_buffer ctx) @ data"
      using copy_into_ok [of ?j data "md5_buffer ctx"] c(4) False by auto
    have l: "(n + ?L) mod 64 = ?j + ?L" using False by (simp add: mod_add_left_eq [of n 64, symmetric])
    have "HV_MD5Update ctx data = Some (ctx\<lparr>md5_count0 := bits_lo (n + ?L), md5_count1 := bits_hi (n + ?L), md5_buffer := b\<rparr>)"
      using False b(1) c(1) part_le [OF assms(2), of n] by (simp add: HV_MD5Update_def Let_def md5_count_rep [OF assms(1) L] mod64_word)
    moreover have "absorb ?f s (p @ data) = (s, p @ data)" using False c(3,4) by simp
    ultimately show ?thesis using b(2,3) l c(2,3) by (simp add: md5_rep_def)
  qed
qed

interpretation md5: digest HV_MD5Transform HV_MD5Update md5_rep "2 ^ 32 - 64"
  by unfold_locales (simp_all add: HV_MD5Update_ok)


lemma md5_pad_bytes:
  assumes "x < (64 :: nat)" "padlen = (if x < 56 then 56 - x else 120 - x)"
  shows "take padlen MD5_PADDING = 0x80 # replicate ((119 - x) mod 64) 0" "padlen \<le> length MD5_PADDING"
proof -
  have "padlen = Suc ((119 - x) mod 64)"
  proof (cases "x < 56")
    case True
    then have "119 - x = (55 - x) + 64" by simp
    then have "(119 - x) mod 64 = 55 - x" by (simp only: mod_add_self2) simp
    then show ?thesis using True assms(2) by simp
  qed (use assms in simp)
  moreover have "(119 - x) mod 64 \<le> 63" by (simp add: less_Suc_eq_le [symmetric])
  ultimately show "take padlen MD5_PADDING = 0x80 # replicate ((119 - x) mod 64) 0" "padlen \<le> length MD5_PADDING"
    by (simp_all add: MD5_PADDING_def min_absorb2)
qed

lemma HV_MD5Final_ok:
  assumes "md5_rep ctx s p n"
  shows "HV_MD5Final ctx = Some (HV_MD5Encode (fst (absorb HV_MD5Transform s (p @ md5_padding n))))"
proof -
  let ?f = HV_MD5Transform
  let ?x = "n mod 64"
  define padlen where "padlen = (if ?x < 56 then 56 - ?x else 120 - ?x)"
  have x: "?x < 64" by simp
  note pb = md5_pad_bytes [OF x padlen_def]
  let ?c = "HV_MD5Encode [bits_lo n, bits_hi n]"
  let ?z = "(0x80 :: byte) # replicate ((119 - ?x) mod 64) 0"
  let ?a1 = "absorb ?f s (p @ ?z)"
  obtain c1 where c1: "HV_MD5Update ctx ?z = Some c1" "md5_rep c1 (fst ?a1) (snd ?a1) (n + length ?z)"
  proof -
    have "(119 - ?x) mod 64 < 64" by simp
    hence "length ?z \<le> 64" by (simp only: list.size length_replicate)
    hence "length ?z < 2 ^ 32 - 64" by (rule le_less_trans) simp
    from md5.upd_ok [OF assms this] that show ?thesis by blast
  qed
  let ?a2 = "absorb ?f (fst ?a1) (snd ?a1 @ ?c)"
  obtain c2 where c2: "HV_MD5Update c1 ?c = Some c2" "md5_rep c2 (fst ?a2) (snd ?a2) (n + length ?z + length ?c)"
    using md5.upd_ok [OF c1(2), of ?c] by auto
  have "?a2 = absorb ?f s (p @ md5_padding n)"
    using absorb_append [of ?f s "p @ ?z" ?c] by (simp add: case_prod_beta md5_padding_def)
  moreover have "unat (drop_bit 3 (md5_count0 ctx) AND 0x3F) = ?x" "md5_count0 ctx = bits_lo n" "md5_count1 ctx = bits_hi n"
    using assms count_index mod64_word by (simp_all add: md5_rep_def)
  ultimately show ?thesis using c1(1) c2 pb
    by (simp add: HV_MD5Final_def Let_def flip: padlen_def del: HV_MD5Encode.simps) (simp add: md5_rep_def)
qed

text \<open>
  C9: \<open>hv_md5\<close> computes MD5: for every message shorter than 2^32 - 64 bytes the digest is the one the padding and the rounds of
  RFC 1321 define.
\<close>

theorem hv_md5_reference:
  assumes "length mem = 64" "length msg < 2 ^ 32 - 64"
  shows "hv_md5 mem msg = Some (md5_reference msg)"
proof -
  let ?s = "[0x67452301, 0xEFCDAB89, 0x98BADCFE, 0x10325476]"
  have "md5_rep (HV_MD5Init mem) ?s [] 0" using assms(1) by (simp add: md5_rep_def HV_MD5Init_def bits_lo_def bits_hi_def)
  from md5.upd_ok [OF this assms(2)] obtain ctx where c: "HV_MD5Update (HV_MD5Init mem) msg = Some ctx"
      "md5_rep ctx (fst (absorb HV_MD5Transform ?s msg)) (snd (absorb HV_MD5Transform ?s msg)) (length msg)" by auto
  have "absorb HV_MD5Transform (fst (absorb HV_MD5Transform ?s msg)) (snd (absorb HV_MD5Transform ?s msg) @ md5_padding (length msg)) =
      absorb HV_MD5Transform ?s (msg @ md5_padding (length msg))"
    using absorb_append [of HV_MD5Transform ?s msg] by (simp add: case_prod_beta)
  also have "\<dots> = absorb md5_compress ?s (msg @ md5_padding (length msg))" by (rule absorb_cong) (rule md5_transform_compress)
  finally show ?thesis using c(1) HV_MD5Final_ok [OF c(2)] by (simp add: hv_md5_def md5_reference_def)
qed

theorem hv_md5_reference_witness:
  "hv_md5 (replicate 64 0) [97, 98, 99] = Some (md5_reference [97, 98, 99])"
  using hv_md5_reference [of "replicate 64 0" "[97, 98, 99]"] by simp

end
