(* ===== verification/Websocket.thy ===== *)
theory Websocket
  imports Prelude
begin

unbundle bit_operations_syntax

section \<open>WebSocket frames (http/websocket_parser.c, http/WebSocketParser.cpp)\<close>

text \<open>
  The push parser, the masking routines and the frame builder, and the class \<open>WebSocketParser\<close> that puts messages together
  from frames.  The callbacks of \<open>websocket_parser_settings\<close> are functions on the parser and the state of the application; a
  result other than 0 stops the parser, and a missing callback is the function that returns 0 and changes nothing.  A pointer
  into the data is an index; where the code compares addresses (\<open>p + parser->require <= end\<close>) they are 64-bit words, with the
  address of the data as a parameter.  \<open>None\<close> stands for a callback that is handed bytes past the end of the data, a write
  outside \<open>mask[4]\<close> or the frame, an exception or signed overflow in a callback, and a loop that does not end.
\<close>

definition WS_OP_CONTINUE :: u32 where "WS_OP_CONTINUE = 0x0"
definition WS_OP_CLOSE :: u32 where "WS_OP_CLOSE = 0x8"
definition WS_FIN :: u32 where "WS_FIN = 0x10"
definition WS_HAS_MASK :: u32 where "WS_HAS_MASK = 0x20"
definition WS_OP_MASK :: u32 where "WS_OP_MASK = 0xF"

lemmas ws_flag_defs = WS_OP_CONTINUE_def WS_OP_CLOSE_def WS_FIN_def WS_HAS_MASK_def WS_OP_MASK_def

datatype ws_state = s_start | s_head | s_length | s_mask | s_body

record websocket_parser =
  ws_st :: ws_state
  ws_flags :: u32
  ws_mask :: "byte list"
  ws_mask_offset :: byte
  ws_length :: u64
  ws_require :: u64
  ws_offset :: u64

definition websocket_parser_init :: websocket_parser where
  "websocket_parser_init = \<lparr>ws_st = s_start, ws_flags = 0, ws_mask = [0, 0, 0, 0], ws_mask_offset = 0, ws_length = 0, ws_require = 0, ws_offset = 0\<rparr>"

type_synonym 'a ws_cb = "websocket_parser \<Rightarrow> 'a \<Rightarrow> (int \<times> websocket_parser \<times> 'a) option"

record 'a websocket_parser_settings =
  cb_frame_header :: "'a ws_cb"
  cb_frame_body :: "byte list \<Rightarrow> 'a ws_cb"
  cb_frame_end :: "'a ws_cb"

definition websocket_parser_settings_init :: "'a websocket_parser_settings" where
  "websocket_parser_settings_init =
     \<lparr>cb_frame_header = (\<lambda>p a. Some (0, p, a)), cb_frame_body = (\<lambda>at p a. Some (0, p, a)), cb_frame_end = (\<lambda>p a. Some (0, p, a))\<rparr>"

subsection \<open>The parser\<close>

text \<open>
  \<open>NOTIFY_CB\<close>: whether the parser returns, and the new state.  The variables after a round of the loop are this flag, the
  index of \<open>p + 1\<close> (the value the \<open>p++\<close> of the loop gives, so that \<open>p--\<close> needs no negative index), \<open>frame_offset\<close>, the
  parser and the application.
\<close>

type_synonym 'a ws_vars = "bool \<times> nat \<times> nat \<times> websocket_parser \<times> 'a"

definition NOTIFY_CB :: "'a ws_cb \<Rightarrow> websocket_parser \<Rightarrow> 'a \<Rightarrow> (bool \<times> websocket_parser \<times> 'a) option" where
  "NOTIFY_CB cb p a = map_option (\<lambda>(r, p, a). (r \<noteq> 0, p, a)) (cb p a)"

definition start_byte :: "byte \<Rightarrow> websocket_parser \<Rightarrow> websocket_parser" where
  "start_byte b p =
     p\<lparr>ws_offset := 0, ws_length := 0, ws_mask_offset := 0,
       ws_flags := (if b AND 0x80 \<noteq> 0 then (ucast b AND WS_OP_MASK) OR WS_FIN else ucast b AND WS_OP_MASK), ws_st := s_head\<rparr>"

text \<open>The end of a header: the body follows, or the frame is over.  Three places of the code have it.\<close>

definition header_done :: "'a websocket_parser_settings \<Rightarrow> websocket_parser \<Rightarrow> 'a \<Rightarrow> (bool \<times> websocket_parser \<times> 'a) option" where
  "header_done settings p a =
     (if ws_length p \<noteq> 0 then NOTIFY_CB (cb_frame_header settings) (p\<lparr>ws_st := s_body, ws_require := ws_length p\<rparr>) a
      else do {
        (stop, p, a) \<leftarrow> NOTIFY_CB (cb_frame_header settings) (p\<lparr>ws_st := s_start\<rparr>) a;
        if stop then Some (True, p, a) else NOTIFY_CB (cb_frame_end settings) p a })"

definition length_done :: "'a websocket_parser_settings \<Rightarrow> websocket_parser \<Rightarrow> 'a \<Rightarrow> (bool \<times> websocket_parser \<times> 'a) option" where
  "length_done settings p a =
     (if ws_flags p AND WS_HAS_MASK \<noteq> 0 then Some (False, p\<lparr>ws_st := s_mask, ws_require := 4\<rparr>, a)
      else header_done settings p a)"

definition head_byte :: "'a websocket_parser_settings \<Rightarrow> byte \<Rightarrow> websocket_parser \<Rightarrow> 'a \<Rightarrow> (bool \<times> websocket_parser \<times> 'a) option" where
  "head_byte settings b p a =
     (let p = p\<lparr>ws_length := ucast b AND 0x7F, ws_flags := (if b AND 0x80 \<noteq> 0 then ws_flags p OR WS_HAS_MASK else ws_flags p)\<rparr> in
      if ws_length p \<ge> 126
      then Some (False, p\<lparr>ws_require := (if ws_length p = 127 then 8 else 2), ws_length := 0, ws_st := s_length\<rparr>, a)
      else length_done settings p a)"

text \<open>The loops of \<open>s_length\<close> and \<open>s_mask\<close> over the bytes from \<open>p\<close>: the parser and the number of bytes taken.\<close>

definition length_byte :: "byte \<Rightarrow> websocket_parser \<Rightarrow> websocket_parser" where
  "length_byte b p = p\<lparr>ws_length := push_bit 8 (ws_length p) OR ucast b, ws_require := ws_require p - 1\<rparr>"

fun length_bytes :: "websocket_parser \<Rightarrow> byte list \<Rightarrow> websocket_parser \<times> nat" where
  "length_bytes p [] = (p, 0)"
| "length_bytes p (b # bs) =
     (if ws_require p = 0 then (p, 0) else let (p, n) = length_bytes (length_byte b p) bs in (p, n + 1))"

definition mask_byte :: "byte \<Rightarrow> websocket_parser \<Rightarrow> websocket_parser option" where
  "mask_byte b p =
     (if ws_require p \<le> 4 then Some (p\<lparr>ws_mask := (ws_mask p)[unat (4 - ws_require p) := b], ws_require := ws_require p - 1\<rparr>)
      else None)"

fun mask_bytes :: "websocket_parser \<Rightarrow> byte list \<Rightarrow> (websocket_parser \<times> nat) option" where
  "mask_bytes p [] = Some (p, 0)"
| "mask_bytes p (b # bs) =
     (if ws_require p = 0 then Some (p, 0)
      else do { p \<leftarrow> mask_byte b p; (p, n) \<leftarrow> mask_bytes p bs; Some (p, n + 1) })"

definition body_end :: "'a websocket_parser_settings \<Rightarrow> nat \<Rightarrow> nat \<Rightarrow> websocket_parser \<Rightarrow> 'a \<Rightarrow> 'a ws_vars option" where
  "body_end settings q fo p a =
     (if ws_require p = 0 then do {
        (stop, p, a) \<leftarrow> NOTIFY_CB (cb_frame_end settings) (p\<lparr>ws_st := s_start\<rparr>) a;
        Some (stop, q, fo, p, a) }
      else Some (False, q, fo, p, a))"

definition body_bytes :: "'a websocket_parser_settings \<Rightarrow> u64 \<Rightarrow> byte list \<Rightarrow> nat \<Rightarrow> nat \<Rightarrow> websocket_parser \<Rightarrow> 'a \<Rightarrow> 'a ws_vars option" where
  "body_bytes settings base data i fo p a =
     (if ws_require p = 0 then body_end settings (i + 1) fo p a
      else if base + of_nat i + ws_require p \<le> base + of_nat (length data) then
        if i + unat (ws_require p) \<le> length data then do {
          (stop, p, a) \<leftarrow> NOTIFY_CB (cb_frame_body settings (take (unat (ws_require p)) (drop i data))) p a;
          if stop then Some (True, i + 1, fo, p, a)
          else
            let e = i + unat (ws_require p)
            in body_end settings e e (p\<lparr>ws_require := 0\<rparr>) a }
        else None
      else do {
        (stop, p, a) \<leftarrow> NOTIFY_CB (cb_frame_body settings (drop i data)) p a;
        if stop then Some (True, i + 1, fo, p, a)
        else
          body_end settings (length data) 0
            (p\<lparr>ws_require := ws_require p - of_nat (length data - i),
               ws_offset := ws_offset p + (of_nat (length data) - of_nat fo)\<rparr>) a })"

definition ws_round :: "'a websocket_parser_settings \<Rightarrow> u64 \<Rightarrow> byte list \<Rightarrow> nat \<Rightarrow> nat \<Rightarrow> websocket_parser \<Rightarrow> 'a \<Rightarrow> 'a ws_vars option" where
  "ws_round settings base data i fo p a =
     (case ws_st p of
        s_start \<Rightarrow> Some (False, i + 1, fo + 1, start_byte (data ! i) p, a)
      | s_head \<Rightarrow> do {
          (stop, p, a) \<leftarrow> head_byte settings (data ! i) p a;
          Some (stop, i + 1, fo + 1, p, a) }
      | s_length \<Rightarrow> do {
          let (p, n) = length_bytes p (drop i data);
          (stop, p, a) \<leftarrow> (if ws_require p = 0 then length_done settings p a else Some (False, p, a));
          Some (stop, i + n, fo + n, p, a) }
      | s_mask \<Rightarrow> do {
          (p, n) \<leftarrow> mask_bytes p (drop i data);
          (stop, p, a) \<leftarrow> (if ws_require p = 0 then header_done settings p a else Some (False, p, a));
          Some (stop, i + n, fo + n, p, a) }
      | s_body \<Rightarrow> body_bytes settings base data i fo p a)"

partial_function (option) ws_loop ::
    "'a websocket_parser_settings \<Rightarrow> u64 \<Rightarrow> byte list \<Rightarrow> nat \<Rightarrow> nat \<Rightarrow> websocket_parser \<Rightarrow> 'a \<Rightarrow> (u64 \<times> websocket_parser \<times> 'a) option" where
  "ws_loop settings base data i fo p a =
     (if i = length data then Some (of_nat (length data), p, a)
      else if i > length data then None
      else do {
        (stop, q, fo, p, a) \<leftarrow> ws_round settings base data i fo p a;
        if stop then Some (of_nat q - 1, p, a) else ws_loop settings base data q fo p a })"

declare ws_loop.simps [code]

definition websocket_parser_execute ::
    "'a websocket_parser_settings \<Rightarrow> u64 \<Rightarrow> websocket_parser \<Rightarrow> byte list \<Rightarrow> 'a \<Rightarrow> (u64 \<times> websocket_parser \<times> 'a) option" where
  "websocket_parser_execute settings base p data a = ws_loop settings base data 0 0 p a"

subsection \<open>Masking and building\<close>

text \<open>Both masking routines give the bytes written to \<open>dst\<close> and the new offset.  Each byte of \<open>dst\<close> is written after the byte of
  \<open>src\<close> at the same place was read, so masking in place gives the same bytes.\<close>

definition websocket_decode :: "byte list \<Rightarrow> byte list \<Rightarrow> byte \<Rightarrow> byte list \<times> byte" where
  "websocket_decode src key off =
     (map (\<lambda>i. src ! i XOR key ! ((i + unat off) mod 4)) [0..<length src], of_nat ((length src + unat off) mod 4))"

definition websocket_parser_decode :: "byte list \<Rightarrow> websocket_parser \<Rightarrow> byte list \<times> websocket_parser" where
  "websocket_parser_decode src p =
     (map (\<lambda>i. src ! i XOR ws_mask p ! ((i + unat (ws_mask_offset p)) mod 4)) [0..<length src],
      p\<lparr>ws_mask_offset := of_nat ((length src + unat (ws_mask_offset p)) mod 4)\<rparr>)"

definition websocket_calc_frame_size :: "u32 \<Rightarrow> u64 \<Rightarrow> u64" where
  "websocket_calc_frame_size flags data_len =
     (let size = data_len + 2;
          size = (if data_len \<ge> 126 then if data_len > 0xFFFF then size + 8 else size + 2 else size)
      in if flags AND WS_HAS_MASK \<noteq> 0 then size + 4 else size)"

text \<open>
  The second byte without the mask bit, and the bytes of a longer length; then the frame.  \<open>frame\<close> is the memory the caller
  passes; without a \<open>mask\<close> argument the key is what that memory holds.  The result is the memory and the returned size.
\<close>

definition length_field :: "u64 \<Rightarrow> byte \<times> byte list" where
  "length_field n =
     (if n < 126 then (ucast n, [])
      else if n \<le> 0xFFFF then (126, [ucast (drop_bit 8 n), ucast (n AND 0xFF)])
      else (127, map (\<lambda>k. ucast (drop_bit k n AND 0xFF)) [56, 48, 40, 32, 24, 16, 8, 0]))"

definition websocket_build_frame :: "byte list \<Rightarrow> u32 \<Rightarrow> byte list option \<Rightarrow> byte list \<Rightarrow> (byte list \<times> nat) option" where
  "websocket_build_frame frame flags key data =
     (let b0 = (if flags AND WS_FIN \<noteq> 0 then 0x80 else 0) OR ucast (flags AND WS_OP_MASK);
          (l, ext) = length_field (of_nat (length data));
          b1 = (if flags AND WS_HAS_MASK \<noteq> 0 then 0x80 else 0) OR l;
          body_offset = 2 + length ext;
          k = (case key of Some k \<Rightarrow> take 4 k | None \<Rightarrow> take 4 (drop body_offset frame));
          bytes = b0 # b1 # ext @ (if flags AND WS_HAS_MASK \<noteq> 0 then k @ fst (websocket_decode data k 0) else data)
      in if length bytes \<le> length frame then Some (bytes @ drop (length bytes) frame, length bytes) else None)"

subsection \<open>The class WebSocketParser\<close>

datatype websocket_parser_state = WS_FRAME_BEGIN | WS_FRAME_HEADER | WS_FRAME_BODY | WS_FRAME_END | WS_FRAME_FIN

text \<open>\<open>wp_delivered\<close> is the sequence of calls of \<open>onMessage\<close>, \<open>wp_onMessage\<close> whether it is set.\<close>

record WebSocketParser =
  wp_state :: websocket_parser_state
  wp_opcode :: u32
  wp_message :: "byte list"
  wp_onMessage :: bool
  wp_delivered :: "(u32 \<times> byte list) list"

definition WebSocketParser_new :: "bool \<Rightarrow> websocket_parser \<times> WebSocketParser" where
  "WebSocketParser_new h =
     (websocket_parser_init, \<lparr>wp_state = WS_FRAME_BEGIN, wp_opcode = WS_OP_CLOSE, wp_message = [], wp_onMessage = h, wp_delivered = []\<rparr>)"

definition MAX_PAYLOAD_LENGTH :: int where "MAX_PAYLOAD_LENGTH = 16777216"

text \<open>The length is cut to an \<open>int\<close>: \<open>length + 1\<close> overflows for \<open>INT_MAX\<close>, and a negative number is a size no string can reserve.\<close>

definition reserve_message :: "u64 \<Rightarrow> int option" where
  "reserve_message n =
     (let len = sint (ucast n :: u32) in
      if len = 2147483647 then None
      else
        let reserve_length = min (len + 1) MAX_PAYLOAD_LENGTH
        in if reserve_length < 0 then None else Some reserve_length)"

definition on_frame_header :: "WebSocketParser ws_cb" where
  "on_frame_header p wp = do {
     let opcode = ws_flags p AND WS_OP_MASK;
     let wp = (if opcode \<noteq> WS_OP_CONTINUE then wp\<lparr>wp_opcode := opcode\<rparr> else wp);
     reserve_length \<leftarrow> reserve_message (ws_length p);
     let wp = (if wp_state wp = WS_FRAME_BEGIN \<or> wp_state wp = WS_FRAME_FIN then wp\<lparr>wp_message := []\<rparr> else wp);
     Some (0, p, wp\<lparr>wp_state := WS_FRAME_HEADER\<rparr>) }"

definition on_frame_body :: "byte list \<Rightarrow> WebSocketParser ws_cb" where
  "on_frame_body at p wp =
     (let wp = wp\<lparr>wp_state := WS_FRAME_BODY\<rparr>;
          (at, p) = (if ws_flags p AND WS_HAS_MASK \<noteq> 0 then websocket_parser_decode at p else (at, p))
      in Some (0, p, wp\<lparr>wp_message := wp_message wp @ at\<rparr>))"

definition on_frame_end :: "WebSocketParser ws_cb" where
  "on_frame_end p wp =
     (if ws_flags p AND WS_FIN \<noteq> 0 then
        let wp = wp\<lparr>wp_state := WS_FRAME_FIN\<rparr>
        in Some (0, p, if wp_onMessage wp then wp\<lparr>wp_delivered := wp_delivered wp @ [(wp_opcode wp, wp_message wp)]\<rparr> else wp)
      else Some (0, p, wp\<lparr>wp_state := WS_FRAME_END\<rparr>))"

definition ws_cbs :: "WebSocketParser websocket_parser_settings" where
  "ws_cbs = \<lparr>cb_frame_header = on_frame_header, cb_frame_body = on_frame_body, cb_frame_end = on_frame_end\<rparr>"

definition FeedRecvData :: "websocket_parser \<times> WebSocketParser \<Rightarrow> u64 \<Rightarrow> byte list \<Rightarrow> (int \<times> websocket_parser \<times> WebSocketParser) option" where
  "FeedRecvData c base data = do {
     (n, c) \<leftarrow> websocket_parser_execute ws_cbs base (fst c) data (snd c);
     Some (sint (ucast n :: u32), c) }"

end
