(* ===== verification/Websocket_Stream.thy ===== *)
theory Websocket_Stream
  imports Websocket
begin

unbundle bit_operations_syntax

section \<open>The WebSocket parser as a machine on bytes\<close>

text \<open>
  \<open>ws_byte\<close> describes what a \<open>WebSocketParser\<close> does with one byte of the stream, without pointers, chunks or callbacks;
  \<open>ws_run\<close> feeds it a list of bytes.  \<open>websocket_parser_execute\<close>, which takes whole runs of length, mask and body bytes out of a
  buffer, is shown to compute \<open>ws_run\<close> on every buffer, so a stream may be cut anywhere.
\<close>

type_synonym ws_conn = "websocket_parser \<times> WebSocketParser"

subsection \<open>The callbacks\<close>

definition wp_header :: "u32 \<Rightarrow> WebSocketParser \<Rightarrow> WebSocketParser" where
  "wp_header flags wp =
     wp\<lparr>wp_opcode := (if flags AND WS_OP_MASK \<noteq> WS_OP_CONTINUE then flags AND WS_OP_MASK else wp_opcode wp),
        wp_message := (if wp_state wp = WS_FRAME_BEGIN \<or> wp_state wp = WS_FRAME_FIN then [] else wp_message wp),
        wp_state := WS_FRAME_HEADER\<rparr>"

definition wp_end :: "u32 \<Rightarrow> WebSocketParser \<Rightarrow> WebSocketParser" where
  "wp_end flags wp =
     (if flags AND WS_FIN \<noteq> 0 then
        wp\<lparr>wp_state := WS_FRAME_FIN,
           wp_delivered := (if wp_onMessage wp then wp_delivered wp @ [(wp_opcode wp, wp_message wp)] else wp_delivered wp)\<rparr>
      else wp\<lparr>wp_state := WS_FRAME_END\<rparr>)"

lemma on_frame_header_eq:
  "on_frame_header p wp = (if reserve_message (ws_length p) = None then None else Some (0, p, wp_header (ws_flags p) wp))"
  by (cases wp) (auto simp: on_frame_header_def wp_header_def Let_def)

lemma on_frame_end_eq: "on_frame_end p wp = Some (0, p, wp_end (ws_flags p) wp)"
  by (cases wp) (auto simp: on_frame_end_def wp_end_def Let_def)

lemma reserve_zero [simp]: "reserve_message 0 = Some 1"
  by (simp add: reserve_message_def MAX_PAYLOAD_LENGTH_def)

definition header_conn :: "websocket_parser \<Rightarrow> WebSocketParser \<Rightarrow> ws_conn" where
  "header_conn p wp =
     (if ws_length p \<noteq> 0 then (p\<lparr>ws_st := s_body, ws_require := ws_length p\<rparr>, wp_header (ws_flags p) wp)
      else (p\<lparr>ws_st := s_start\<rparr>, wp_end (ws_flags p) (wp_header (ws_flags p) wp)))"

definition mask_conn :: "websocket_parser \<Rightarrow> WebSocketParser \<Rightarrow> ws_conn option" where
  "mask_conn p wp = (if reserve_message (ws_length p) = None then None else Some (header_conn p wp))"

lemma header_done_eq: "header_done ws_cbs p wp = map_option (Pair False) (mask_conn p wp)"
  by (simp add: header_done_def ws_cbs_def NOTIFY_CB_def on_frame_header_eq on_frame_end_eq header_conn_def mask_conn_def)

definition length_conn :: "websocket_parser \<Rightarrow> WebSocketParser \<Rightarrow> ws_conn option" where
  "length_conn p wp =
     (if ws_flags p AND WS_HAS_MASK \<noteq> 0 then Some (p\<lparr>ws_st := s_mask, ws_require := 4\<rparr>, wp)
      else mask_conn p wp)"

lemma length_done_eq: "length_done ws_cbs p wp = map_option (Pair False) (length_conn p wp)"
  by (simp add: length_done_def length_conn_def header_done_eq)

definition head_conn :: "byte \<Rightarrow> websocket_parser \<Rightarrow> WebSocketParser \<Rightarrow> ws_conn option" where
  "head_conn b p wp =
     (let p = p\<lparr>ws_length := ucast b AND 0x7F, ws_flags := (if b AND 0x80 \<noteq> 0 then ws_flags p OR WS_HAS_MASK else ws_flags p)\<rparr> in
      if ws_length p \<ge> 126
      then Some (p\<lparr>ws_require := (if ws_length p = 127 then 8 else 2), ws_length := 0, ws_st := s_length\<rparr>, wp)
      else length_conn p wp)"

lemma head_byte_eq: "head_byte ws_cbs b p wp = map_option (Pair False) (head_conn b p wp)"
  by (simp add: head_byte_def head_conn_def length_done_eq Let_def)

lemma body_end_eq:
  "body_end ws_cbs q fo p wp = Some (False, q, fo, if ws_require p = 0 then (p\<lparr>ws_st := s_start\<rparr>, wp_end (ws_flags p) wp) else (p, wp))"
  by (simp add: body_end_def ws_cbs_def NOTIFY_CB_def on_frame_end_eq)

subsection \<open>One byte\<close>

definition body_step :: "byte list \<Rightarrow> ws_conn \<Rightarrow> ws_conn" where
  "body_step xs c =
     (let (p, wp) = c;
          (at, p) = (if ws_flags p AND WS_HAS_MASK \<noteq> 0 then websocket_parser_decode xs p else (xs, p))
      in (p\<lparr>ws_require := ws_require p - of_nat (length xs)\<rparr>, wp\<lparr>wp_state := WS_FRAME_BODY, wp_message := wp_message wp @ at\<rparr>))"

definition frame_over :: "ws_conn \<Rightarrow> ws_conn" where
  "frame_over c = (let (p, wp) = c in if ws_require p = 0 then (p\<lparr>ws_st := s_start\<rparr>, wp_end (ws_flags p) wp) else c)"

text \<open>A body of more than \<open>lim\<close> bytes is refused.\<close>

definition ws_byte :: "nat \<Rightarrow> byte \<Rightarrow> ws_conn \<Rightarrow> ws_conn option" where
  "ws_byte lim b c =
     (let (p, wp) = c in
      case ws_st p of
        s_start \<Rightarrow> Some (start_byte b p, wp)
      | s_head \<Rightarrow> head_conn b p wp
      | s_length \<Rightarrow>
          if ws_require p = 0 then None
          else let p = length_byte b p in if ws_require p = 0 then length_conn p wp else Some (p, wp)
      | s_mask \<Rightarrow>
          if ws_require p = 0 then None
          else do { p \<leftarrow> mask_byte b p; if ws_require p = 0 then mask_conn p wp else Some (p, wp) }
      | s_body \<Rightarrow> if ws_require p = 0 \<or> unat (ws_require p) > lim then None else Some (frame_over (body_step [b] c)))"

fun ws_run :: "nat \<Rightarrow> byte list \<Rightarrow> ws_conn \<Rightarrow> ws_conn option" where
  "ws_run lim [] c = Some c"
| "ws_run lim (b # bs) c = Option.bind (ws_byte lim b c) (ws_run lim bs)"

lemma ws_run_append: "ws_run lim (xs @ ys) c = Option.bind (ws_run lim xs c) (ws_run lim ys)"
  by (induction xs arbitrary: c) (simp_all split: bind_split)

lemma ws_run_take: "ws_run lim xs c = Some d \<Longrightarrow> \<exists>e. ws_run lim (take n xs) c = Some e"
  using ws_run_append [of lim "take n xs" "drop n xs" c] by (cases "ws_run lim (take n xs) c") simp_all

subsection \<open>The offset field\<close>

text \<open>\<open>parser->offset\<close> is written and never read: it does not influence the parser.\<close>

definition forget :: "ws_conn \<Rightarrow> ws_conn" where
  "forget c = ((fst c)\<lparr>ws_offset := 0\<rparr>, snd c)"

lemma forget_eq: "forget (p, wp) = forget (q, wp) \<longleftrightarrow> p\<lparr>ws_offset := 0\<rparr> = q\<lparr>ws_offset := 0\<rparr>"
  by (simp add: forget_def)

lemma forget_mask_conn: "map_option forget (mask_conn (p\<lparr>ws_offset := k\<rparr>) wp) = map_option forget (mask_conn p wp)"
  by (cases p) (simp add: mask_conn_def header_conn_def forget_eq del: not_None_eq)

lemma forget_length_conn: "map_option forget (length_conn (p\<lparr>ws_offset := k\<rparr>) wp) = map_option forget (length_conn p wp)"
  by (cases p) (simp add: length_conn_def mask_conn_def header_conn_def forget_eq del: not_None_eq)

lemma forget_head_conn: "map_option forget (head_conn b (p\<lparr>ws_offset := k\<rparr>) wp) = map_option forget (head_conn b p wp)"
  by (cases p) (simp add: head_conn_def length_conn_def mask_conn_def header_conn_def forget_eq Let_def del: not_None_eq)

lemma forget_body: "forget (frame_over (body_step xs (p\<lparr>ws_offset := k\<rparr>, wp))) = forget (frame_over (body_step xs (p, wp)))"
  by (cases p) (simp add: frame_over_def body_step_def websocket_parser_decode_def forget_eq Let_def)

lemma forget_mask_byte: "mask_byte b (p\<lparr>ws_offset := k\<rparr>) = map_option (\<lambda>p. p\<lparr>ws_offset := k\<rparr>) (mask_byte b p)"
  by (cases p) (simp add: mask_byte_def)

lemma forget_length_byte: "length_byte b (p\<lparr>ws_offset := k\<rparr>) = (length_byte b p)\<lparr>ws_offset := k\<rparr>"
  by (cases p) (simp add: length_byte_def)

lemma forget_start: "start_byte b (p\<lparr>ws_offset := k\<rparr>) = start_byte b p"
  by (cases p) (simp add: start_byte_def)

lemma forget_byte: "map_option forget (ws_byte lim b (p\<lparr>ws_offset := k\<rparr>, wp)) = map_option forget (ws_byte lim b (p, wp))"
proof (cases "ws_st p")
  case s_mask
  then show ?thesis by (cases "mask_byte b p") (simp_all add: ws_byte_def forget_mask_byte forget_mask_conn forget_eq)
qed (simp_all add: ws_byte_def Let_def forget_start forget_head_conn forget_length_byte forget_length_conn forget_eq forget_body)

lemma forget_run: "forget c = forget d \<Longrightarrow> map_option forget (ws_run lim bs c) = map_option forget (ws_run lim bs d)"
proof (induction bs arbitrary: c d)
  case (Cons b bs)
  obtain p wp q wq where c: "c = (p, wp)" and d: "d = (q, wq)" by (cases c, cases d)
  have e: "wq = wp" "q\<lparr>ws_offset := ws_offset p\<rparr> = p" using Cons.prems by (cases p, cases q, simp add: c d forget_def)+
  have "map_option forget (ws_byte lim b c) = map_option forget (ws_byte lim b d)"
    using forget_byte [of lim b "ws_offset p" q wp] by (simp only: e c d)
  then consider "ws_byte lim b c = None" "ws_byte lim b d = None"
    | c' d' where "ws_byte lim b c = Some c'" "ws_byte lim b d = Some d'" "forget c' = forget d'"
    by (cases "ws_byte lim b c"; cases "ws_byte lim b d") simp_all
  then show ?case
  proof cases
    case 2
    then show ?thesis using Cons.IH [OF 2(3)] by simp
  qed simp
qed simp

subsection \<open>Runs of bytes\<close>

lemma body_step_fields [simp]:
  "ws_st (fst (body_step xs c)) = ws_st (fst c)" "ws_require (fst (body_step xs c)) = ws_require (fst c) - of_nat (length xs)"
  "ws_flags (fst (body_step xs c)) = ws_flags (fst c)" "ws_length (fst (body_step xs c)) = ws_length (fst c)"
  "ws_mask (fst (body_step xs c)) = ws_mask (fst c)"
  by (simp_all add: body_step_def websocket_parser_decode_def split_beta)

text \<open>Unmasking a body piece by piece gives what unmasking all of it gives.\<close>

lemma decode_append:
  "websocket_parser_decode (xs @ ys) p =
     (let (a, p') = websocket_parser_decode xs p; (b, p'') = websocket_parser_decode ys p' in (a @ b, p''))"
proof -
  let ?o = "unat (ws_mask_offset p)"
  have w: "unat (of_nat ((length xs + ?o) mod 4) :: byte) = (length xs + ?o) mod 4"
    by (simp add: unat_of_nat)
  have l: "map (\<lambda>i. (xs @ ys) ! i XOR ws_mask p ! ((i + ?o) mod 4)) [0..<length xs + length ys] =
    map (\<lambda>i. xs ! i XOR ws_mask p ! ((i + ?o) mod 4)) [0..<length xs] @
    map (\<lambda>i. ys ! i XOR ws_mask p ! ((i + (length xs + ?o) mod 4) mod 4)) [0..<length ys]"
    by (rule nth_equalityI) (auto simp: nth_append mod_simps algebra_simps)
  show ?thesis by (simp add: websocket_parser_decode_def l w mod_simps algebra_simps)
qed

lemma body_step_append: "body_step (xs @ ys) c = body_step ys (body_step xs c)"
proof -
  obtain p wp where c: "c = (p, wp)" by (cases c)
  obtain a p1 where 1: "websocket_parser_decode xs p = (a, p1)" by (cases "websocket_parser_decode xs p")
  have p1: "p1 = p\<lparr>ws_mask_offset := ws_mask_offset p1\<rparr>" using 1 by (auto simp: websocket_parser_decode_def)
  obtain b p2 where 2: "websocket_parser_decode ys p1 = (b, p2)" by (cases "websocket_parser_decode ys p1")
  have 3: "websocket_parser_decode ys (p1\<lparr>ws_require := r\<rparr>) = (b, p2\<lparr>ws_require := r\<rparr>)" for r
    using 2 by (auto simp: websocket_parser_decode_def)
  have f: "ws_flags p1 = ws_flags p" "ws_require p1 = ws_require p" "ws_require p2 = ws_require p"
    using 1 2 by (auto simp: websocket_parser_decode_def)
  show ?thesis by (simp add: c body_step_def decode_append 1 2 3 f algebra_simps)
qed

lemma ws_run_body_part:
  assumes "ws_st (fst c) = s_body" "xs \<noteq> []" "length xs < unat (ws_require (fst c))" "unat (ws_require (fst c)) \<le> lim"
  shows "ws_run lim xs c = Some (body_step xs c)"
  using assms
proof (induction xs arbitrary: c)
  case (Cons x xs)
  have r: "ws_require (fst c) \<noteq> 0" "ws_require (fst c) - 1 \<noteq> 0" using Cons.prems(3) by (auto simp: unat_eq_zero unat_sub_if' )
  have u: "unat (ws_require (fst c) - 1) = unat (ws_require (fst c)) - 1" using r by (simp add: unat_minus_one)
  have s: "ws_byte lim x c = Some (body_step [x] c)"
    using Cons.prems r by (cases c) (simp add: ws_byte_def frame_over_def split_beta Let_def)
  show ?case
  proof (cases "xs = []")
    case False
    then have "ws_run lim xs (body_step [x] c) = Some (body_step xs (body_step [x] c))"
      using Cons.prems u by (intro Cons.IH) auto
    then show ?thesis using s body_step_append [of "[x]" xs c] by simp
  qed (simp add: s)
qed simp

lemma ws_run_body_all:
  assumes "ws_st (fst c) = s_body" "length xs = unat (ws_require (fst c))" "xs \<noteq> []" "length xs \<le> lim"
  shows "ws_run lim xs c = Some (frame_over (body_step xs c))"
proof -
  obtain ys y where xs: "xs = ys @ [y]" using assms(3) by (cases xs rule: rev_cases) auto
  have r: "ws_require (fst c) = of_nat (length xs)" using assms(2) by simp
  show ?thesis
  proof (cases "ys = []")
    case True
    then show ?thesis using assms r by (cases c) (auto simp: xs ws_byte_def)
  next
    case False
    have 1: "ws_run lim ys c = Some (body_step ys c)" using assms False by (intro ws_run_body_part) (auto simp: xs)
    have 2: "unat (ws_require (fst (body_step ys c))) = 1" using r by (simp add: xs)
    then have 3: "ws_byte lim y (body_step ys c) = Some (frame_over (body_step [y] (body_step ys c)))"
      using assms body_step_fields(1) [of ys c] by (cases "body_step ys c") (auto simp: ws_byte_def xs)
    show ?thesis using 1 3 by (simp add: xs ws_run_append body_step_append)
  qed
qed

lemma ws_run_length:
  assumes "ws_st p = s_length" "ws_require p \<noteq> 0" "xs \<noteq> []" "length_bytes p xs = (p', n)"
  shows "0 < n \<and> n \<le> length xs \<and> ws_run lim (take n xs) (p, wp) = (if ws_require p' = 0 then length_conn p' wp else Some (p', wp))"
  using assms
proof (induction xs arbitrary: p n)
  case (Cons x xs)
  let ?p = "length_byte x p"
  have st: "ws_st ?p = s_length" using Cons.prems(1) by (simp add: length_byte_def)
  have b: "ws_byte lim x (p, wp) = (if ws_require ?p = 0 then length_conn ?p wp else Some (?p, wp))"
    using Cons.prems by (simp add: ws_byte_def Let_def)
  show ?case
  proof (cases "ws_require ?p = 0 \<or> xs = []")
    case True
    then have "length_bytes ?p xs = (?p, 0)" by (cases xs) auto
    then show ?thesis using Cons.prems(2,4) b by (auto split: bind_split)
  next
    case False
    obtain m where m: "length_bytes ?p xs = (p', m)" "n = m + 1" using Cons.prems(2,4) by (auto split: prod.splits)
    show ?thesis using Cons.IH [OF st _ _ m(1)] False b m(2) by auto
  qed
qed simp

lemma ws_run_mask:
  assumes "ws_st p = s_mask" "ws_require p \<noteq> 0" "xs \<noteq> []" "mask_bytes p xs = Some (p', n)"
  shows "0 < n \<and> n \<le> length xs \<and> ws_run lim (take n xs) (p, wp) = (if ws_require p' = 0 then mask_conn p' wp else Some (p', wp))"
  using assms
proof (induction xs arbitrary: p n)
  case (Cons x xs)
  obtain q where q: "mask_byte x p = Some q" using Cons.prems(2,4) by (auto simp: bind_eq_Some_conv)
  have st: "ws_st q = s_mask" using Cons.prems(1) q by (auto simp: mask_byte_def split: if_splits)
  have b: "ws_byte lim x (p, wp) = (if ws_require q = 0 then mask_conn q wp else Some (q, wp))"
    using Cons.prems q by (simp add: ws_byte_def)
  show ?case
  proof (cases "ws_require q = 0 \<or> xs = []")
    case True
    then have "mask_bytes q xs = Some (q, 0)" by (cases xs) auto
    then show ?thesis using Cons.prems(2,4) b q by (auto split: bind_split)
  next
    case False
    obtain m where m: "mask_bytes q xs = Some (p', m)" "n = m + 1" using Cons.prems(2,4) q by (auto simp: bind_eq_Some_conv)
    show ?thesis using Cons.IH [OF st _ _ m(1)] False b m(2) by auto
  qed
qed simp

lemma mask_bytes_some:
  assumes "ws_require p \<noteq> 0" "ws_run lim xs (p, wp) = Some c" "ws_st p = s_mask"
  shows "\<exists>p' n. mask_bytes p xs = Some (p', n)"
proof (cases "ws_require p \<le> 4")
  case True
  have "ws_require p \<le> 4 \<Longrightarrow> \<exists>p' n. mask_bytes p xs = Some (p', n)"
  proof (induction xs arbitrary: p)
    case (Cons x xs)
    show ?case
    proof (cases "ws_require p = 0")
      case False
      have "ws_require p - 1 \<le> 4" using Cons.prems unat_minus_one [OF False] by (simp add: word_le_nat_alt)
      then show ?thesis using Cons.IH [of "p\<lparr>ws_mask := (ws_mask p)[unat (4 - ws_require p) := x], ws_require := ws_require p - 1\<rparr>"] Cons.prems False
        by (auto simp: mask_byte_def)
    qed simp
  qed simp
  from this [OF True] show ?thesis .
next
  case False
  then show ?thesis using assms by (cases xs) (auto simp: ws_byte_def mask_byte_def)
qed

lemma on_frame_body_eq:
  "on_frame_body xs p wp = (case body_step xs (p, wp) of (p', wp') \<Rightarrow> Some (0, p'\<lparr>ws_require := ws_require p\<rparr>, wp'))"
  by (simp add: on_frame_body_def body_step_def websocket_parser_decode_def Let_def split_beta)

lemma body_reaches_end:
  fixes base r :: u64
  assumes "unat base + n + lim < 2 ^ 64" "i \<le> n" "unat r \<le> lim"
  shows "base + of_nat i + r \<le> base + of_nat n \<longleftrightarrow> i + unat r \<le> n"
proof -
  have "base + of_nat i + r = of_nat (unat base + i + unat r)" by simp
  moreover have "base + of_nat n = of_nat (unat base + n)" by simp
  moreover have "unat (of_nat (unat base + i + unat r) :: u64) = unat base + i + unat r"
    "unat (of_nat (unat base + n) :: u64) = unat base + n"
    by (rule unat_of_nat64, use assms in simp)+
  ultimately show ?thesis by (simp only: word_le_nat_alt) simp
qed

subsection \<open>A round of the loop\<close>

text \<open>A round takes at least one byte, and the machine on bytes goes where the round goes.\<close>

definition round_ok :: "nat \<Rightarrow> byte list \<Rightarrow> nat \<Rightarrow> ws_conn \<Rightarrow> WebSocketParser ws_vars option \<Rightarrow> bool" where
  "round_ok lim data i c r \<longleftrightarrow>
     (\<exists>q fo p wp. r = Some (False, q, fo, p, wp) \<and> i < q \<and> q \<le> length data \<and>
        map_option forget (ws_run lim (drop q data) (p, wp)) = Some (forget c))"

lemma round_okI:
  assumes "ws_run lim (drop i data) c = Some c'" "ws_run lim (take n (drop i data)) c = Some d" "0 < n" "i + n \<le> length data"
    "r = Some (False, i + n, fo, d')" "forget d' = forget d"
  shows "round_ok lim data i c' r"
proof -
  have "drop i data = take n (drop i data) @ drop (i + n) data" by (metis append_take_drop_id drop_drop add.commute)
  then have "ws_run lim (drop (i + n) data) d = Some c'" using assms(1,2) by (metis ws_run_append bind.bind_lunit)
  then have "map_option forget (ws_run lim (drop (i + n) data) d') = Some (forget c')" using forget_run [OF assms(6), of lim "drop (i + n) data"] by simp
  then show ?thesis using assms(3-5) by (cases d') (auto simp: round_ok_def)
qed

lemma round_body:
  assumes "ws_run lim (drop i data) (p, wp) = Some c" "i < length data" "unat base + length data + lim < 2 ^ 64" "ws_st p = s_body"
  shows "round_ok lim data i c (body_bytes ws_cbs base data i fo p wp)"
proof -
  let ?n = "unat (ws_require p)" and ?c = "(p, wp)"
  obtain b bs where bs: "drop i data = b # bs" using assms(2) by (cases "drop i data") auto
  have r: "ws_require p \<noteq> 0" "?n \<le> lim" using assms(1,4) by (auto simp: bs ws_byte_def split: if_splits)
  note e = body_reaches_end [OF assms(3) less_imp_le [OF assms(2)] r(2)]
  show ?thesis
  proof (cases "i + ?n \<le> length data")
    case True
    let ?xs = "take ?n (drop i data)"
    have l: "length ?xs = ?n" "?xs \<noteq> []" using True r assms(2) by (auto simp: unat_eq_zero)
    have "ws_run lim ?xs ?c = Some (frame_over (body_step ?xs ?c))"
      using l r assms(4) by (intro ws_run_body_all) auto
    moreover obtain p1 wp1 where b: "body_step ?xs ?c = (p1, wp1)" by (cases "body_step ?xs ?c")
    moreover have "ws_require p1 = 0" using body_step_fields(2) [of ?xs ?c] l b by simp
    moreover have "p1\<lparr>ws_require := 0, ws_st := s_start\<rparr> = p1\<lparr>ws_st := s_start\<rparr>" using \<open>ws_require p1 = 0\<close> by (cases p1) simp
    ultimately show ?thesis using True r e l
      by (intro round_okI [OF assms(1), where n = ?n and fo = "i + ?n"])
        (simp_all add: Let_def body_bytes_def NOTIFY_CB_def ws_cbs_def on_frame_body_eq body_end_eq [unfolded ws_cbs_def] frame_over_def word_gt_0 unat_gt_0)
  next
    case False
    let ?xs = "drop i data"
    have l: "length ?xs = length data - i" "?xs \<noteq> []" "length ?xs < ?n" using False assms(2) by auto
    have "ws_run lim ?xs ?c = Some (body_step ?xs ?c)" using l r assms(4) by (intro ws_run_body_part) auto
    moreover obtain p1 wp1 where b: "body_step ?xs ?c = (p1, wp1)" by (cases "body_step ?xs ?c")
    moreover have q: "ws_require p1 = ws_require p - of_nat (length data - i)" using body_step_fields(2) [of ?xs ?c] l(1) b by simp
    moreover have "ws_require p - of_nat (length data - i) \<noteq> 0"
      using l unat_of_nat64 [of "length data - i"] assms(3) by auto
    moreover define k where "k = ws_offset p1 + (of_nat (length data) - of_nat fo)"
    moreover have "p1\<lparr>ws_require := ws_require p - of_nat (length data - i), ws_offset := k\<rparr> = p1\<lparr>ws_offset := k\<rparr>" using q by (cases p1) simp
    ultimately show ?thesis using False r e l assms(2)
      by (intro round_okI [OF assms(1), where n = "length data - i" and fo = 0 and d = "(p1, wp1)" and d' = "(p1\<lparr>ws_offset := k\<rparr>, wp1)"])
        (simp_all add: body_bytes_def NOTIFY_CB_def ws_cbs_def on_frame_body_eq body_end_eq [unfolded ws_cbs_def] forget_def)
  qed
qed

lemma round_ok_round:
  assumes "ws_run lim (drop i data) (p, wp) = Some c" "i < length data" "unat base + length data + lim < 2 ^ 64"
  shows "round_ok lim data i c (ws_round ws_cbs base data i fo p wp)"
proof -
  have t: "drop i data = data ! i # drop (i + 1) data" using assms(2) by (simp add: Cons_nth_drop_Suc)
  have i: "i + 1 \<le> length data" "drop i data \<noteq> []" using assms(2) by auto
  note I = round_okI [OF assms(1)]
  show ?thesis
  proof (cases "ws_st p")
    case s_start
    then show ?thesis using assms i by (intro I [where n = 1 and fo = "fo + 1"]) (simp_all add: t ws_byte_def ws_round_def)
  next
    case s_head
    then obtain d where "head_conn (data ! i) p wp = Some d" using assms(1) by (auto simp: t ws_byte_def bind_eq_Some_conv)
    then show ?thesis using s_head i
      by (intro I [where n = 1 and fo = "fo + 1" and d = d and d' = d]) (simp_all add: t ws_byte_def ws_round_def head_byte_eq split_beta)
  next
    case s_length
    obtain p' n where n: "length_bytes p (drop i data) = (p', n)" by (cases "length_bytes p (drop i data)")
    have "ws_require p \<noteq> 0" using assms(1) s_length by (auto simp: t ws_byte_def split: if_splits)
    note r = ws_run_length [OF s_length this i(2) n, of lim wp]
    obtain d where d: "ws_run lim (take n (drop i data)) (p, wp) = Some d" using ws_run_take [OF assms(1)] by blast
    then show ?thesis using s_length r n i
      by (intro I [where n = n and fo = "fo + n" and d = d and d' = d])
        (auto simp: ws_round_def length_done_eq split: if_splits)
  next
    case s_mask
    have q: "ws_require p \<noteq> 0" using assms(1) s_mask by (auto simp: t ws_byte_def split: if_splits)
    obtain p' n where n: "mask_bytes p (drop i data) = Some (p', n)" using mask_bytes_some [OF q assms(1) s_mask] by blast
    note r = ws_run_mask [OF s_mask q i(2) n, of lim wp]
    obtain d where d: "ws_run lim (take n (drop i data)) (p, wp) = Some d" using ws_run_take [OF assms(1)] by blast
    then show ?thesis using s_mask r n i
      by (intro I [where n = n and fo = "fo + n" and d = d and d' = d])
        (auto simp: ws_round_def header_done_eq split: if_splits)
  next
    case s_body
    then show ?thesis using round_body [OF assms s_body, of fo] by (simp add: ws_round_def)
  qed
qed

subsection \<open>The whole buffer\<close>

lemma ws_loop_run:
  assumes "ws_run lim (drop i data) (p, wp) = Some c" "i \<le> length data" "unat base + length data + lim < 2 ^ 64"
  shows "\<exists>p' wp'. ws_loop ws_cbs base data i fo p wp = Some (of_nat (length data), p', wp') \<and> forget (p', wp') = forget c"
  using assms
proof (induction "length data - i" arbitrary: i fo p wp c rule: less_induct)
  case less
  show ?case
  proof (cases "i = length data")
    case True
    then show ?thesis using less.prems(1) by (subst ws_loop.simps) auto
  next
    case False
    then have i: "i < length data" using less.prems(2) by simp
    obtain q fo' p1 wp1 d where r: "ws_round ws_cbs base data i fo p wp = Some (False, q, fo', p1, wp1)" "i < q" "q \<le> length data"
      and d: "ws_run lim (drop q data) (p1, wp1) = Some d" "forget d = forget c"
      using round_ok_round [OF less.prems(1) i less.prems(3), of fo] by (auto simp: round_ok_def simp del: split_paired_Ex)
    have "\<exists>p' wp'. ws_loop ws_cbs base data q fo' p1 wp1 = Some (of_nat (length data), p', wp') \<and> forget (p', wp') = forget d"
      using r i by (intro less.hyps [OF _ d(1) _ less.prems(3)]) auto
    then show ?thesis using i r d(2) by (subst ws_loop.simps) simp
  qed
qed

lemma FeedRecvData_run:
  assumes "ws_run lim data c = Some d" "unat base + length data + lim < 2 ^ 64"
  shows "\<exists>d'. FeedRecvData c base data = Some (sint (of_nat (length data) :: u32), d') \<and> forget d' = forget d"
proof -
  obtain p' wp' where "ws_loop ws_cbs base data 0 0 (fst c) (snd c) = Some (of_nat (length data), p', wp')" "forget (p', wp') = forget d"
    using ws_loop_run [of lim 0 data "fst c" "snd c" d base 0] assms by auto
  moreover have "ucast (of_nat (length data) :: u64) = (of_nat (length data) :: u32)"
    by (rule bit_word_eqI) (simp add: bit_simps)
  ultimately show ?thesis by (auto simp: FeedRecvData_def websocket_parser_execute_def)
qed

text \<open>A stream that arrives in several buffers, each with its address.\<close>

fun feed_chunks :: "(u64 \<times> byte list) list \<Rightarrow> ws_conn \<Rightarrow> ws_conn option" where
  "feed_chunks [] c = Some c"
| "feed_chunks ((base, data) # chunks) c = Option.bind (FeedRecvData c base data) (\<lambda>(n, c). feed_chunks chunks c)"

definition in_memory :: "nat \<Rightarrow> u64 \<times> byte list \<Rightarrow> bool" where
  "in_memory lim chunk \<longleftrightarrow> unat (fst chunk) + length (snd chunk) + lim < 2 ^ 64"

lemma feed_chunks_run:
  assumes "ws_run lim (concat (map snd chunks)) c = Some d" "list_all (in_memory lim) chunks"
  shows "\<exists>d'. feed_chunks chunks c = Some d' \<and> forget d' = forget d"
  using assms
proof (induction chunks arbitrary: c d)
  case (Cons ch chunks)
  obtain base data where ch: "ch = (base, data)" by (cases ch)
  obtain e where e: "ws_run lim data c = Some e" "ws_run lim (concat (map snd chunks)) e = Some d"
    using Cons.prems(1) by (auto simp: ch ws_run_append bind_eq_Some_conv simp del: split_paired_Ex)
  obtain n e' where e': "FeedRecvData c base data = Some (n, e')" "forget e' = forget e"
    using FeedRecvData_run [OF e(1), of base] Cons.prems(2) by (auto simp: ch in_memory_def simp del: split_paired_Ex)
  obtain d1 where d1: "ws_run lim (concat (map snd chunks)) e' = Some d1" "forget d1 = forget d"
    using forget_run [OF e'(2), of lim "concat (map snd chunks)"] e(2) by (auto simp del: split_paired_Ex)
  show ?case using Cons.IH [OF d1(1)] Cons.prems(2) d1(2) e'(1) by (simp add: ch)
qed auto

subsection \<open>Well-formed parsers\<close>

text \<open>What holds of a parser between two bytes; no payload is longer than \<open>lim\<close>.\<close>

definition ws_ok :: "nat \<Rightarrow> websocket_parser \<Rightarrow> bool" where
  "ws_ok lim p \<longleftrightarrow> length (ws_mask p) = 4 \<and>
     (case ws_st p of
        s_length \<Rightarrow> ws_require p \<noteq> 0 \<and> unat (ws_require p) \<le> 8
      | s_mask \<Rightarrow> ws_require p \<noteq> 0 \<and> unat (ws_require p) \<le> 4 \<and> unat (ws_length p) \<le> lim
      | s_body \<Rightarrow> ws_require p \<noteq> 0 \<and> unat (ws_require p) \<le> lim
      | _ \<Rightarrow> True)"

lemma ws_ok_offset: "ws_ok lim (p\<lparr>ws_offset := k\<rparr>) = ws_ok lim p"
  by (simp add: ws_ok_def cong: ws_state.case_cong)

text \<open>The payload length that is known once byte \<open>b\<close> is taken.\<close>

definition announces :: "byte \<Rightarrow> websocket_parser \<Rightarrow> u64 option" where
  "announces b p =
     (case ws_st p of
        s_head \<Rightarrow> if ucast b AND 0x7F < (126 :: u64) then Some (ucast b AND 0x7F) else None
      | s_length \<Rightarrow> if ws_require p = 1 then Some (push_bit 8 (ws_length p) OR ucast b) else None
      | _ \<Rightarrow> None)"

lemma reserve_small:
  assumes "unat n \<le> lim" "lim < 2 ^ 31 - 1"
  shows "reserve_message n \<noteq> None"
proof -
  obtain m where m: "uint n = int m" "m \<le> lim" using assms(1) by (metis int_nat_eq of_nat_unat)
  have "uint (ucast n :: u32) = int m" using m assms(2) by (simp add: unsigned_ucast_eq take_bit_int_eq_self)
  then have "sint (ucast n :: u32) = int m" using m assms(2) by (simp add: sint_uint signed_take_bit_int_eq_self)
  then show ?thesis using m assms by (simp add: reserve_message_def Let_def MAX_PAYLOAD_LENGTH_def)
qed

lemma ws_ok_header:
  assumes "length (ws_mask p) = 4" "unat (ws_length p) \<le> lim" "lim < 2 ^ 31 - 1"
  shows "\<exists>d. mask_conn p wp = Some d \<and> ws_ok lim (fst d)" "\<exists>d. length_conn p wp = Some d \<and> ws_ok lim (fst d)"
proof -
  show 1: "\<exists>d. mask_conn p wp = Some d \<and> ws_ok lim (fst d)"
    using assms reserve_small [OF assms(2,3)] by (auto simp: mask_conn_def header_conn_def ws_ok_def simp del: not_None_eq split_paired_Ex)
  show "\<exists>d. length_conn p wp = Some d \<and> ws_ok lim (fst d)"
    using assms 1 by (auto simp: length_conn_def ws_ok_def simp del: split_paired_Ex)
qed

lemma ws_head_ok:
  assumes "length (ws_mask p) = 4" "lim < 2 ^ 31 - 1" "ucast b AND 0x7F < (126 :: u64) \<Longrightarrow> unat (ucast b AND 0x7F :: u64) \<le> lim"
  shows "\<exists>d. head_conn b p wp = Some d \<and> ws_ok lim (fst d)"
proof (cases "ucast b AND 0x7F < (126 :: u64)")
  case True
  show ?thesis using ws_ok_header(2) [of "p\<lparr>ws_length := ucast b AND 0x7F, ws_flags := (if b AND 0x80 \<noteq> 0 then ws_flags p OR WS_HAS_MASK else ws_flags p)\<rparr>" lim wp] assms True
    by (simp add: head_conn_def Let_def not_le [symmetric] del: split_paired_Ex)
next
  case False
  then show ?thesis using assms(1) by (simp add: head_conn_def Let_def not_less ws_ok_def)
qed

lemma ws_byte_ok:
  assumes "ws_ok lim (fst c)" "lim < 2 ^ 31 - 1" "\<And>n. announces b (fst c) = Some n \<Longrightarrow> unat n \<le> lim"
  shows "\<exists>d. ws_byte lim b c = Some d \<and> ws_ok lim (fst d)"
proof -
  obtain p wp where c: "c = (p, wp)" by (cases c)
  have m: "length (ws_mask p) = 4" using assms(1) by (simp add: c ws_ok_def)
  have u: "unat (ws_require p - 1) \<le> unat (ws_require p)" if "ws_require p \<noteq> 0" using unat_minus_one [OF that] by simp
  show ?thesis
  proof (cases "ws_st p")
    case s_start
    then show ?thesis using m by (simp add: c ws_byte_def ws_ok_def start_byte_def)
  next
    case s_head
    then show ?thesis using ws_head_ok [OF m assms(2), of b wp] assms(3) by (simp add: c ws_byte_def announces_def del: split_paired_Ex)
  next
    case s_length
    then show ?thesis using assms m u ws_ok_header(2) [of "length_byte b p" lim wp]
      by (auto simp: c ws_byte_def ws_ok_def length_byte_def Let_def announces_def simp del: split_paired_Ex)
  next
    case s_mask
    let ?q = "p\<lparr>ws_mask := (ws_mask p)[unat (4 - ws_require p) := b], ws_require := ws_require p - 1\<rparr>"
    show ?thesis using s_mask assms m u ws_ok_header(1) [of ?q lim wp]
      by (auto simp: c ws_byte_def ws_ok_def mask_byte_def word_le_nat_alt simp del: split_paired_Ex)
  next
    case s_body
    then show ?thesis using assms m u body_step_fields [of "[b]" c]
      by (auto simp: c ws_byte_def ws_ok_def frame_over_def split_beta Let_def)
  qed
qed

text \<open>No header in the bytes announces more than \<open>lim\<close>.\<close>

definition modest :: "nat \<Rightarrow> byte list \<Rightarrow> ws_conn \<Rightarrow> bool" where
  "modest lim bs c =
     list_all (\<lambda>k. case Option.bind (ws_run lim (take k bs) c) (\<lambda>d. announces (bs ! k) (fst d)) of None \<Rightarrow> True | Some n \<Rightarrow> unat n \<le> lim)
       [0..<length bs]"

lemma ws_run_ok:
  assumes "ws_ok lim (fst c)" "lim < 2 ^ 31 - 1" "modest lim bs c"
  shows "\<exists>d. ws_run lim bs c = Some d \<and> ws_ok lim (fst d)"
  using assms
proof (induction bs arbitrary: c)
  case (Cons b bs)
  have m: "case Option.bind (ws_run lim (take k (b # bs)) c) (\<lambda>d. announces ((b # bs) ! k) (fst d)) of None \<Rightarrow> True | Some n \<Rightarrow> unat n \<le> lim"
    if "k < length (b # bs)" for k using Cons.prems(3) that by (simp only: modest_def list_all_iff set_upt atLeastLessThan_iff) simp
  obtain e where e: "ws_byte lim b c = Some e" "ws_ok lim (fst e)"
  proof -
    have "unat n \<le> lim" if "announces b (fst c) = Some n" for n using m [of 0] that by simp
    from ws_byte_ok [OF Cons.prems(1,2) this] show ?thesis using that by blast
  qed
  have "modest lim bs e" unfolding modest_def list_all_iff using m [of "Suc k" for k] e(1) by auto
  then show ?case using Cons.IH [OF e(2) Cons.prems(2)] e(1) by simp
qed simp

subsection \<open>Long headers\<close>

lemma length_bytes_done: "ws_require p = 0 \<Longrightarrow> length_bytes p bs = (p, 0)"
  by (cases bs) simp_all

lemma ws_loop_step:
  "i < length data \<Longrightarrow> ws_round st base data i fo p wp = Some (False, q, fo', p', wp') \<Longrightarrow>
     ws_loop st base data i fo p wp = ws_loop st base data q fo' p' wp'"
  by (subst ws_loop.simps) simp

text \<open>An unmasked binary frame with a 64-bit length field, up to the end of its header.\<close>

definition long_header :: "websocket_parser \<Rightarrow> byte list \<Rightarrow> websocket_parser" where
  "long_header p ext =
     p\<lparr>ws_offset := 0, ws_mask_offset := 0, ws_flags := 0x12, ws_length := foldl (\<lambda>a b. push_bit 8 a OR ucast b) 0 ext,
       ws_require := 0, ws_st := s_length\<rparr>"

lemma ws_long_header:
  assumes "ws_st p = s_start" "length ext = 8"
  shows "ws_loop ws_cbs base (0x82 # 0x7F # ext @ rest) 0 0 p wp =
    Option.bind (mask_conn (long_header p ext) wp) (\<lambda>d. ws_loop ws_cbs base (0x82 # 0x7F # ext @ rest) 10 10 (fst d) (snd d))"
proof -
  let ?D = "0x82 # 0x7F # ext @ rest"
  obtain a b c d e f g h where ext: "ext = [a, b, c, d, e, f, g, h]"
    using assms(2) by (auto simp: numeral_eq_Suc length_Suc_conv)
  let ?p1 = "p\<lparr>ws_offset := 0, ws_length := 0, ws_mask_offset := 0, ws_flags := 0x12, ws_st := s_head\<rparr>"
  let ?p2 = "?p1\<lparr>ws_require := 8, ws_st := s_length\<rparr>"
  have 1: "ws_loop ws_cbs base ?D 0 0 p wp = ws_loop ws_cbs base ?D 1 1 ?p1 wp"
    by (rule ws_loop_step) (use assms(1) in \<open>simp_all add: ws_round_def start_byte_def ws_flag_defs\<close>)
  have 2: "ws_loop ws_cbs base ?D 1 1 ?p1 wp = ws_loop ws_cbs base ?D 2 2 ?p2 wp"
    by (rule ws_loop_step) (cases p; simp add: ws_round_def head_byte_def Let_def)+
  have l: "length_bytes ?p2 (drop 2 ?D) = (long_header p ext, 8)"
    by (cases p) (simp add: ext long_header_def length_byte_def length_bytes_done)
  have f: "ws_require (long_header p ext) = 0" "ws_flags (long_header p ext) AND WS_HAS_MASK = 0" "ws_st ?p2 = s_length"
    by (simp_all add: long_header_def ws_flag_defs)
  have 3: "ws_loop ws_cbs base ?D 2 2 ?p2 wp =
    Option.bind (mask_conn (long_header p ext) wp) (\<lambda>d. ws_loop ws_cbs base ?D 10 10 (fst d) (snd d))"
    by (subst ws_loop.simps) (use l f in \<open>simp add: ext ws_round_def length_done_eq length_conn_def bind_map_option o_def split_beta del: length_bytes.simps\<close>)
  show ?thesis using 1 2 3 by simp
qed

subsection \<open>Properties\<close>

text \<open>
  C5: however the network cuts a stream into buffers, \<open>FeedRecvData\<close> on the buffers takes the parser and the messages where
  the machine on bytes goes (up to the statistics field \<open>offset\<close>), as long as no buffer is so close to the end of the address
  space that an accepted payload length would pass it.
\<close>
theorem ws_stream_cut:
  assumes "ws_run lim (concat (map snd chunks)) c = Some d" "list_all (in_memory lim) chunks"
  shows "\<exists>d'. feed_chunks chunks c = Some d' \<and> forget d' = forget d"
  by (rule feed_chunks_run [OF assms])

theorem ws_stream_cut_witness:
  "\<exists>d'. feed_chunks [(0x1000, [0x81, 0x82, 1]), (0x2000, [2, 3, 4, 0x69]), (0x1000, [0x6B])] (WebSocketParser_new True) = Some d' \<and>
     wp_delivered (snd d') = [(1, [0x68, 0x69])]"
proof -
  let ?d = "\<lparr>ws_st = s_start, ws_flags = 0x31, ws_mask = [1, 2, 3, 4], ws_mask_offset = 2, ws_length = 2, ws_require = 0, ws_offset = 0\<rparr>"
  let ?w = "\<lparr>wp_state = WS_FRAME_FIN, wp_opcode = 1, wp_message = [0x68, 0x69], wp_onMessage = True, wp_delivered = [(1, [0x68, 0x69])]\<rparr>"
  have "ws_run 100 (concat (map snd [(0x1000 :: u64, [0x81, 0x82, 1]), (0x2000, [2, 3, 4, 0x69]), (0x1000, [0x6B])])) (WebSocketParser_new True) = Some (?d, ?w)"
    by code_simp
  moreover have "list_all (in_memory 100) [(0x1000, [0x81, 0x82, 1]), (0x2000, [2, 3, 4, 0x69]), (0x1000, [0x6B])]"
    by (simp add: in_memory_def)
  ultimately show ?thesis using ws_stream_cut by (fastforce simp: forget_def)
qed

text \<open>
  C17: a well-formed parser stays well-formed and \<open>FeedRecvData\<close> takes all of a buffer of any bytes, as long as no header in it
  announces a payload of more than \<open>lim\<close> bytes.
\<close>
theorem ws_parser_well_formed:
  assumes "ws_ok lim (fst c)" "modest lim data c" "lim < 2 ^ 31 - 1" "in_memory lim (base, data)"
  shows "\<exists>d. FeedRecvData c base data = Some (sint (of_nat (length data) :: u32), d) \<and> ws_ok lim (fst d)"
proof -
  obtain d where d: "ws_run lim data c = Some d" "ws_ok lim (fst d)" using ws_run_ok [OF assms(1,3,2)] by blast
  obtain e where e: "FeedRecvData c base data = Some (sint (of_nat (length data) :: u32), e)" "forget e = forget d"
    using FeedRecvData_run [OF d(1), of base] assms(4) by (auto simp: in_memory_def simp del: split_paired_Ex)
  have "(fst e)\<lparr>ws_offset := 0\<rparr> = (fst d)\<lparr>ws_offset := 0\<rparr>" using e(2) by (simp add: forget_def)
  then have "ws_ok lim (fst e)" using d(2) by (metis ws_ok_offset)
  then show ?thesis using e(1) by blast
qed

theorem ws_parser_well_formed_witness:
  "\<exists>d. FeedRecvData (WebSocketParser_new True) 0x1000 [0x82, 0x83, 7, 8] = Some (4, d) \<and> ws_ok 200 (fst d)"
proof -
  have "modest 200 [0x82, 0x83, 7, 8] (WebSocketParser_new True)" "ws_ok 200 (fst (WebSocketParser_new True))" by code_simp+
  then show ?thesis
    using ws_parser_well_formed [of 200 "WebSocketParser_new True" "[0x82, 0x83, 7, 8]" "0x1000"] by (simp add: in_memory_def)
qed

text \<open>
  C32: a header that announces \<open>0xFFFFFFFF00000000\<close> bytes makes \<open>p + parser->require\<close> pass the end of the address space; the
  test \<open>p + parser->require <= end\<close> then holds, and the body callback is handed that many bytes of a buffer that has one.
\<close>
theorem ws_length_wraps:
  assumes "2 ^ 32 \<le> unat base" "unat base < 2 ^ 63"
  shows "FeedRecvData (WebSocketParser_new h) base [0x82, 0x7F, 0xFF, 0xFF, 0xFF, 0xFF, 0, 0, 0, 0, b] = None"
proof -
  let ?e = "[0xFF, 0xFF, 0xFF, 0xFF, 0, 0, 0, 0] :: byte list" and ?v = "0xFFFFFFFF00000000 :: u64"
  let ?D = "0x82 # 0x7F # ?e @ [b]"
  obtain p wp where c: "WebSocketParser_new h = (p, wp)" and p: "ws_st p = s_start"
    by (simp add: WebSocketParser_new_def websocket_parser_init_def)
  let ?q = "long_header p ?e" 
  have v: "ws_length ?q = ?v" by (simp add: long_header_def)
  have "reserve_message ?v = Some 1" by code_simp
  then have m: "mask_conn ?q wp = Some (?q\<lparr>ws_st := s_body, ws_require := ?v\<rparr>, wp_header (ws_flags ?q) wp)"
    by (simp add: mask_conn_def header_conn_def v)
  have "base + 10 + ?v = base - 4294967286" by simp
  moreover have "unat (base - 4294967286) = unat base - 4294967286" using assms(1) by (subst unat_sub) (simp_all add: word_le_nat_alt)
  moreover have "unat (base + 11) = unat base + 11" using assms(2) by (subst unat_add_lem [THEN iffD1]) simp_all
  ultimately have w: "base + 10 + ?v \<le> base + 11" by (simp only: word_le_nat_alt)
  have "body_bytes ws_cbs base ?D 10 10 (?q\<lparr>ws_st := s_body, ws_require := ?v\<rparr>) wp' = None" for wp'
    using w by (simp add: body_bytes_def)
  then have "ws_loop ws_cbs base ?D 10 10 (?q\<lparr>ws_st := s_body, ws_require := ?v\<rparr>) wp' = None" for wp'
    by (subst ws_loop.simps) (simp add: ws_round_def)
  then show ?thesis using ws_long_header [OF p, of ?e base "[b]" wp] m
    by (simp add: FeedRecvData_def websocket_parser_execute_def c)
qed

theorem ws_length_wraps_witness:
  "FeedRecvData (WebSocketParser_new True) 0x7F0000001000 [0x82, 0x7F, 0xFF, 0xFF, 0xFF, 0xFF, 0, 0, 0, 0, 1] = None"
  by (rule ws_length_wraps) simp_all



end
