(* ===== verification/Hv_Math.thy ===== *)
theory Hv_Math
  imports Prelude
begin

unbundle bit_operations_syntax

section \<open>Powers of two and variable-length integers (base/hmath.h)\<close>

text \<open>
  \<open>unsigned long\<close> and \<open>long long\<close> are 64-bit words, the latter read with \<open>sint\<close>.  A buffer is a list of bytes; a write or a read
  outside it, and a loop that does not end, is \<open>None\<close>.  The \<open>len\<close> argument of the decoders is a pointer that may be \<open>NULL\<close>
  (\<open>None\<close>); they return the value and what \<open>*len\<close> is afterwards.
\<close>

subsection \<open>Powers of two\<close>

function shift_count :: "u64 \<Rightarrow> nat \<Rightarrow> nat" where
  "shift_count n e = (let n = drop_bit 1 n in if n \<noteq> 0 then shift_count n (e + 1) else e)"
  by pat_completeness auto

lemma unat_half: "unat (drop_bit (Suc 0) (n :: u64)) = unat n div 2"
  by (simp add: drop_bit_eq_div unat_div_distrib)

lemma half_less: "drop_bit (Suc 0) n \<noteq> 0 \<Longrightarrow> unat (drop_bit (Suc 0) (n :: u64)) < unat n"
  using unat_half [of n] by (cases "n = 0") (simp_all add: unat_gt_0)

termination shift_count
  by (relation "measure (\<lambda>(n, e). unat n)") (auto dest: half_less)

primrec shift_up :: "nat \<Rightarrow> u64 \<Rightarrow> u64" where
  "shift_up 0 ret = ret"
| "shift_up (Suc e) ret = shift_up e (push_bit 1 ret)"

definition floor2e :: "u64 \<Rightarrow> u64" where
  "floor2e num = shift_up (shift_count num 0) 1"

definition ceil2e :: "u64 \<Rightarrow> u64" where
  "ceil2e num = (if num = 0 \<or> num = 1 then 1 else shift_up (shift_count (num - 1) 1) 1)"

subsection \<open>Little-endian groups of seven bits\<close>

partial_function (option) varint_encode_loop :: "u64 \<Rightarrow> byte list \<Rightarrow> nat \<Rightarrow> (byte list \<times> nat) option" where
  "varint_encode_loop value buf bytes =
     (let ch = ucast (value AND 0x7F) :: byte;
          value = signed_drop_bit 7 value in
      do {
        buf \<leftarrow> write_cell buf bytes (if value = 0 then ch else ch OR 0x80);
        if value \<noteq> 0 then varint_encode_loop value buf (bytes + 1) else Some (buf, bytes + 1) })"

declare varint_encode_loop.simps [code]

definition varint_encode :: "u64 \<Rightarrow> byte list \<Rightarrow> (byte list \<times> nat) option" where
  "varint_encode value buf = varint_encode_loop value buf 0"

function varint_decode_loop :: "byte list \<Rightarrow> int option \<Rightarrow> u64 \<Rightarrow> nat \<Rightarrow> (u64 \<times> int option) option" where
  "varint_decode_loop buf len ret bytes =
     (if len \<noteq> None \<and> len \<noteq> Some 0 \<and> len = Some (int bytes) then Some (0, Some 0)
      else if bytes \<ge> length buf then None
      else
        let b = buf ! bytes;
            ret = ret OR push_bit (7 * bytes) (ucast (b AND 0x7F));
            n = bytes + 1
        in if b AND 0x80 = 0 then Some (ret, map_option (\<lambda>_. int n) len)
           else if n < 10 then varint_decode_loop buf len ret n
           else Some (ret, map_option (\<lambda>_. - 1) len))"
  by pat_completeness auto

termination varint_decode_loop
  by (relation "measure (\<lambda>(buf, len, ret, bytes). 10 - bytes)") auto

declare shift_count.simps [simp del] varint_decode_loop.simps [simp del]

definition varint_decode :: "byte list \<Rightarrow> int option \<Rightarrow> (u64 \<times> int option) option" where
  "varint_decode buf len = varint_decode_loop buf len 0 0"

subsection \<open>ASN.1 lengths\<close>

text \<open>The bytes \<open>asn1_encode\<close> writes; then the write itself, with the number of bytes it returns.\<close>

definition asn1_bytes :: "u64 \<Rightarrow> byte list" where
  "asn1_bytes value =
     (if sint value < 128 then [ucast value]
      else if sint value < 256 then [0x81, ucast value]
      else if sint value < 65536 then [0x82, ucast (signed_drop_bit 8 value), ucast value]
      else if sint value < 16777126 then [0x83, ucast (signed_drop_bit 16 value), ucast (signed_drop_bit 8 value), ucast value]
      else [0x84, ucast (signed_drop_bit 24 value), ucast (signed_drop_bit 16 value), ucast (signed_drop_bit 8 value), ucast value])"

definition asn1_encode :: "u64 \<Rightarrow> byte list \<Rightarrow> (byte list \<times> nat) option" where
  "asn1_encode value buf =
     (let bs = asn1_bytes value
      in if length bs \<le> length buf then Some (bs @ drop (length bs) buf, length bs) else None)"

fun asn1_decode_loop :: "byte list \<Rightarrow> int option \<Rightarrow> nat \<Rightarrow> u64 \<Rightarrow> nat \<Rightarrow> (u64 \<times> int option) option" where
  "asn1_decode_loop buf len 0 ret bytes = Some (ret, map_option (\<lambda>_. int bytes) len)"
| "asn1_decode_loop buf len (Suc lenBytes) ret bytes =
     (if len \<noteq> None \<and> len \<noteq> Some 0 \<and> len = Some (int bytes) then Some (0, Some 0)
      else if bytes \<ge> length buf then None
      else asn1_decode_loop buf len lenBytes (push_bit 8 ret OR ucast (buf ! bytes)) (bytes + 1))"

definition asn1_decode :: "byte list \<Rightarrow> int option \<Rightarrow> (u64 \<times> int option) option" where
  "asn1_decode buf len =
     (if buf = [] then None
      else
        let tag = buf ! 0 in
        if tag < 128 then Some (ucast tag, map_option (\<lambda>_. 1) len)
        else if tag = 0x80 then Some (0, map_option (\<lambda>_. - 1) len)
        else asn1_decode_loop buf len (unat (tag AND 0x7F)) 0 1)"

section \<open>Lemmas\<close>

lemma half_bounds: "a \<le> n div 2 \<longleftrightarrow> 2 * a \<le> (n :: nat)" "n div 2 < a \<longleftrightarrow> n < 2 * a"
  by arith+

lemma shift_up_eq: "shift_up e ret = push_bit e ret"
  by (induction e arbitrary: ret) (simp_all add: push_bit_Suc)

lemma shift_count_eq: "n \<noteq> 0 \<Longrightarrow> \<exists>k. shift_count n e = e + k \<and> 2 ^ k \<le> unat n \<and> unat n < 2 ^ (k + 1)"
proof (induction n e rule: shift_count.induct)
  case (1 n e)
  let ?m = "drop_bit 1 n"
  show ?case
  proof (cases "?m = 0")
    case True
    then have "unat n div 2 = 0" by (simp add: unat_half [symmetric])
    moreover have "unat n \<noteq> 0" using 1(2) by (simp add: unat_eq_zero)
    ultimately have "unat n = 1" by simp
    moreover have "shift_count n e = e" using True by (subst shift_count.simps) simp
    ultimately show ?thesis by (intro exI [of _ 0]) simp
  next
    case False
    obtain k where k: "shift_count ?m (e + 1) = e + 1 + k" "2 ^ k \<le> unat ?m" "unat ?m < 2 ^ (k + 1)"
      using 1(1) [OF refl False False] by blast
    have "shift_count n e = shift_count ?m (e + 1)" using False by (subst shift_count.simps) simp
    then show ?thesis using k by (intro exI [of _ "k + 1"]) (simp add: unat_half half_bounds)
  qed
qed

lemma floor2e_bounds:
  assumes "num \<noteq> 0"
  shows "\<exists>k. unat (floor2e num) = 2 ^ k \<and> 2 ^ k \<le> unat num \<and> unat num < 2 ^ (k + 1)"
proof -
  obtain k where k: "shift_count num 0 = k" "2 ^ k \<le> unat num" "unat num < 2 ^ (k + 1)"
    using shift_count_eq [OF assms, of 0] by auto
  have "(2 :: nat) ^ k < 2 ^ 64" using k(2) unat_lt64 [of num] by (rule le_less_trans)
  then have "k < 64" by (rule power_less_imp_less_exp [rotated]) simp
  then have "unat (push_bit k 1 :: u64) = 2 ^ k" by (simp add: push_bit_eq_mult unat_power64)
  then show ?thesis using k by (intro exI [of _ k]) (simp add: floor2e_def shift_up_eq)
qed

lemma ceil2e_bounds:
  assumes "1 < unat num" "unat num \<le> 2 ^ 63"
  shows "\<exists>k. unat (ceil2e num) = 2 ^ k \<and> unat num \<le> 2 ^ k \<and> 2 ^ k < 2 * unat num"
proof -
  have n: "num \<noteq> 0" "num \<noteq> 1" using assms(1) by auto
  have m: "unat (num - 1) = unat num - 1" using unat_minus_one [OF n(1)] .
  have "num - 1 \<noteq> 0" using n by simp
  then obtain k where k: "shift_count (num - 1) 1 = k + 1" "2 ^ k \<le> unat num - 1" "unat num - 1 < 2 ^ (k + 1)"
    using shift_count_eq [of "num - 1" 1] m by auto
  have "(2 :: nat) ^ k < 2 ^ 63" using k(2) assms by simp
  then have "k < 63" by (rule power_less_imp_less_exp [rotated]) simp
  then have "unat (push_bit (k + 1) 1 :: u64) = 2 ^ (k + 1)" using unat_power64 [of "k + 1"] by (simp add: push_bit_eq_mult)
  then show ?thesis using k n assms by (intro exI [of _ "k + 1"]) (auto simp: ceil2e_def shift_up_eq)
qed

subsection \<open>Groups of seven bits\<close>

text \<open>The encoding of a number, byte by byte.\<close>

fun varint_spec :: "nat \<Rightarrow> byte list" where
  "varint_spec n = (if n < 128 then [of_nat n] else of_nat (n mod 128 + 128) # varint_spec (n div 128))"

declare varint_spec.simps [simp del]

lemma and_mask7: "(x :: 'a :: len word) AND 0x7F = take_bit 7 x"
  by (simp add: take_bit_eq_mask mask_eq_exp_minus_1)

lemma sint_small: "n < 2 ^ 63 \<Longrightarrow> sint (of_nat n :: u64) = int n"
  by (simp add: sint_uint unsigned_of_nat take_bit_nat_eq_self signed_take_bit_int_eq_self)

lemma signed_shift: "n < 2 ^ 63 \<Longrightarrow> signed_drop_bit k (of_nat n :: u64) = of_nat (n div 2 ^ k)"
proof -
  assume n: "n < 2 ^ 63"
  have "sint (signed_drop_bit k (of_nat n :: u64)) = sint (of_nat (n div 2 ^ k) :: u64)"
    using n sint_small [OF n] sint_small [OF order_le_less_trans [OF div_le_dividend n], of "2 ^ k"]
    by (simp only: sint_signed_drop_bit_eq drop_bit_eq_div) (simp add: zdiv_int)
  then show ?thesis by (rule signed_word_eqI)
qed

lemma ucast_of_nat: "m < 2 ^ 64 \<Longrightarrow> (ucast (of_nat m :: u64) :: byte) = of_nat m"
  by (simp add: unsigned_of_nat take_bit_nat_eq_self)

lemma or_disjoint:
  assumes "r < 2 ^ m"
  shows "of_nat r OR push_bit m x = (of_nat r + push_bit m x :: 'a :: len word)"
proof -
  have "of_nat r AND push_bit m x = (0 :: 'a word)"
  proof (rule bit_word_eqI)
    fix i
    have "bit r i \<Longrightarrow> i < m" using assms by (metis bit_take_bit_iff take_bit_nat_eq_self)
    then show "bit (of_nat r AND push_bit m x) i = bit (0 :: 'a word) i" by (auto simp: bit_simps)
  qed
  from disjunctive_add_eq_or [OF this] show ?thesis by simp
qed

lemma low7: "ucast ((of_nat n :: u64) AND 0x7F) = (of_nat (n mod 128) :: byte)"
proof -
  have "(of_nat n :: u64) AND 0x7F = of_nat (n mod 128)"
    by (simp add: and_mask7 take_bit_of_nat) (simp add: take_bit_eq_mod)
  then show ?thesis by (simp only:) (rule ucast_of_nat, simp add: order_less_trans [OF mod_less_divisor])
qed

lemma shift7: "n < 2 ^ 63 \<Longrightarrow> signed_drop_bit 7 (of_nat n :: u64) = of_nat (n div 128)"
  using signed_shift [of n 7] by simp

lemma high_bit: "k < 128 \<Longrightarrow> (of_nat k :: byte) OR 0x80 = of_nat (k + 128)"
  using or_disjoint [of k 7 "1 :: byte"] by simp

lemma varint_encode_loop_spec:
  assumes "n < 2 ^ 63" "length pre = bytes" "length (varint_spec n) \<le> length post"
  shows "varint_encode_loop (of_nat n) (pre @ post) bytes =
    Some (pre @ varint_spec n @ drop (length (varint_spec n)) post, bytes + length (varint_spec n))"
  using assms
proof (induction n arbitrary: pre post bytes rule: varint_spec.induct)
  case (1 n)
  have z: "(of_nat (n div 128) :: u64) = 0 \<longleftrightarrow> n < 128"
    using 1(2) by (simp add: word_unat_eq_iff unat_of_nat64 order_le_less_trans [OF div_le_dividend] div_eq_0_iff)
  obtain y ys where p: "post = y # ys" using 1(4) by (cases post) (auto simp: varint_spec.simps split: if_splits)
  show ?case
  proof (cases "n < 128")
    case True
    then show ?thesis using 1 z by (subst varint_encode_loop.simps) (simp add: low7 shift7 p write_cell_def varint_spec.simps [of n] list_update_append)
  next
    case False
    have "varint_encode_loop (of_nat (n div 128)) ((pre @ [of_nat (n mod 128 + 128)]) @ ys) (bytes + 1) =
      Some ((pre @ [of_nat (n mod 128 + 128)]) @ varint_spec (n div 128) @ drop (length (varint_spec (n div 128))) ys, bytes + 1 + length (varint_spec (n div 128)))"
      by (rule 1(1) [OF False]) (use 1 False p in \<open>simp_all add: varint_spec.simps [of n]\<close>)
    then show ?thesis using 1 False z
      by (subst varint_encode_loop.simps) (simp add: low7 shift7 high_bit p write_cell_def varint_spec.simps [of n] list_update_append)
  qed
qed

text \<open>The \<open>len\<close> argument of a decoder does not stop it before \<open>m\<close> bytes.\<close>

definition len_allows :: "int option \<Rightarrow> nat \<Rightarrow> bool" where
  "len_allows len m = (case len of None \<Rightarrow> True | Some l \<Rightarrow> l \<le> 0 \<or> int m \<le> l)"

lemma len_allows_less: "len_allows len m \<Longrightarrow> k < m \<Longrightarrow> \<not> (len \<noteq> None \<and> len \<noteq> Some 0 \<and> len = Some (int k))"
  by (auto simp: len_allows_def)

lemma group_bits:
  assumes "k < 128"
  shows "(of_nat k :: byte) AND 0x7F = of_nat k" "(of_nat k :: byte) AND 0x80 = 0"
    "(of_nat (k + 128) :: byte) AND 0x7F = of_nat k" "(of_nat (k + 128) :: byte) AND 0x80 \<noteq> 0"
proof -
  have *: "list_all (\<lambda>k. (word_of_int k :: byte) AND 0x7F = word_of_int k \<and> (word_of_int k :: byte) AND 0x80 = 0 \<and>
    (word_of_int (k + 128) :: byte) AND 0x7F = word_of_int k \<and> (word_of_int (k + 128) :: byte) AND 0x80 \<noteq> 0) (map int [0..<128])"
    by code_simp
  have "int k \<in> set (map int [0..<128])" using assms by simp
  from * [unfolded list_all_iff, rule_format, OF this] show
    "(of_nat k :: byte) AND 0x7F = of_nat k" "(of_nat k :: byte) AND 0x80 = 0"
    "(of_nat (k + 128) :: byte) AND 0x7F = of_nat k" "(of_nat (k + 128) :: byte) AND 0x80 \<noteq> 0"
    by simp_all
qed

lemma add_group:
  assumes "r < 2 ^ (7 * k)" "m < 128"
  shows "of_nat r OR push_bit (7 * k) (ucast (of_nat m :: byte)) = (of_nat (r + m * 2 ^ (7 * k)) :: u64)"
proof -
  have "ucast (of_nat m :: byte) = (of_nat m :: u64)" using assms(2) by (simp add: unsigned_of_nat take_bit_nat_eq_self)
  then show ?thesis using or_disjoint [OF assms(1), of "of_nat m :: u64"] by (simp add: push_bit_eq_mult)
qed

lemma varint_decode_loop_spec:
  assumes "r < 2 ^ (7 * k)" "r + n * 2 ^ (7 * k) < 2 ^ 63" "length pre = k" "len_allows len (k + length (varint_spec n))"
  shows "varint_decode_loop (pre @ varint_spec n @ post) len (of_nat r) k =
    Some (of_nat (r + n * 2 ^ (7 * k)), map_option (\<lambda>_. int (k + length (varint_spec n))) len)"
  using assms
proof (induction n arbitrary: r k pre rule: varint_spec.induct)
  case (1 n)
  note l = len_allows_less [OF 1(5), of k]
  show ?case
  proof (cases "n < 128")
    case True
    then show ?thesis using 1(4) l add_group [OF 1(2) True] group_bits [OF True]
      by (subst varint_decode_loop.simps) (simp add: varint_spec.simps [of n] nth_append Let_def)
  next
    case False
    let ?m = "n mod 128"
    have m: "?m < 128" by simp
    have k: "k < 8"
    proof (rule ccontr)
      assume "\<not> k < 8"
      then have "(2 :: nat) ^ 56 \<le> 2 ^ (7 * k)" by (intro power_increasing) auto
      then have "128 * 2 ^ 56 \<le> n * 2 ^ (7 * k)" using False by (intro mult_le_mono) auto
      then show False using 1(3) by simp
    qed
    have e: "r + n * 2 ^ (7 * k) = r + ?m * 2 ^ (7 * k) + n div 128 * 2 ^ (7 * (k + 1))"
    proof -
      have x: "(2 :: nat) ^ (7 * (k + 1)) = 128 * 2 ^ (7 * k)" by (simp add: power_add)
      have "n * 2 ^ (7 * k) = (?m + 128 * (n div 128)) * 2 ^ (7 * k)" by simp
      then show ?thesis unfolding x by (simp only: distrib_right mult.assoc mult.left_commute)
    qed
    have "?m * 2 ^ (7 * k) \<le> 127 * 2 ^ (7 * k)" by (rule mult_le_mono1) simp
    moreover have "(2 :: nat) ^ (7 * (k + 1)) = 128 * 2 ^ (7 * k)" by (simp add: power_add)
    ultimately have r: "r + ?m * 2 ^ (7 * k) < 2 ^ (7 * (k + 1))" using 1(2) by linarith
    have "varint_decode_loop ((pre @ [of_nat (?m + 128)]) @ varint_spec (n div 128) @ post) len (of_nat (r + ?m * 2 ^ (7 * k))) (k + 1) =
      Some (of_nat (r + ?m * 2 ^ (7 * k) + n div 128 * 2 ^ (7 * (k + 1))), map_option (\<lambda>_. int (k + 1 + length (varint_spec (n div 128)))) len)"
      by (rule 1(1) [OF False r]) (use 1(3-5) False e in \<open>simp_all add: varint_spec.simps [of n]\<close>)
    then show ?thesis unfolding e using 1(4) l k False add_group [OF 1(2) m] group_bits(3,4) [OF m]
      by (subst varint_decode_loop.simps) (simp add: varint_spec.simps [of n] nth_append Let_def)
  qed
qed

lemma varint_spec_length: "n < 128 ^ (j + 1) \<Longrightarrow> length (varint_spec n) \<le> j + 1"
proof (induction j arbitrary: n)
  case 0
  then show ?case by (simp add: varint_spec.simps)
next
  case (Suc j)
  have "n div 128 < 128 ^ (j + 1)" using Suc.prems by (simp add: less_mult_imp_div_less mult.commute)
  then show ?case using Suc.IH [of "n div 128"] by (subst varint_spec.simps) simp
qed

lemma varint_encode_negative: "sint v < 0 \<Longrightarrow> varint_encode_loop v buf bytes = None"
proof (induction "length buf - bytes" arbitrary: v buf bytes rule: less_induct)
  case less
  have s: "sint (signed_drop_bit 7 v) < 0" using less.prems by (simp add: sint_signed_drop_bit_eq)
  then have n: "signed_drop_bit 7 v \<noteq> 0" by auto
  have "varint_encode_loop (signed_drop_bit 7 v) (buf[bytes := x]) (bytes + 1) = None" if "bytes < length buf" for x
    using that by (intro less.hyps s) simp
  then show ?case using n by (subst varint_encode_loop.simps) (simp add: write_cell_def Let_def)
qed

subsection \<open>ASN.1 lengths\<close>

lemma asn1_decode_loop_spec:
  assumes "length pre = k" "len_allows len (k + length bs)"
  shows "asn1_decode_loop (pre @ bs @ post) len (length bs) ret k =
    Some (foldl (\<lambda>a b. push_bit 8 a OR ucast b) ret bs, map_option (\<lambda>_. int (k + length bs)) len)"
  using assms
proof (induction bs arbitrary: pre k ret)
  case (Cons b bs)
  have "asn1_decode_loop ((pre @ [b]) @ bs @ post) len (length bs) (push_bit 8 ret OR ucast b) (k + 1) =
    Some (foldl (\<lambda>a b. push_bit 8 a OR ucast b) (push_bit 8 ret OR ucast b) bs, map_option (\<lambda>_. int (k + 1 + length bs)) len)"
    using Cons.prems by (intro Cons.IH) simp_all
  then show ?case using Cons.prems(1) len_allows_less [OF Cons.prems(2), of k] by (simp add: nth_append)
qed simp

lemma be_join: "push_bit 8 (of_nat (n div 256) :: u64) OR ucast (of_nat n :: byte) = of_nat n"
proof (rule bit_word_eqI)
  fix i assume "i < LENGTH(64)"
  moreover have "n div 256 = drop_bit 8 n" by (simp add: drop_bit_eq_div)
  ultimately show "bit (push_bit 8 (of_nat (n div 256) :: u64) OR ucast (of_nat n :: byte)) i = bit (of_nat n :: u64) i"
    by (simp only:) (auto simp: bit_simps)
qed

lemma be_first: "m < 256 \<Longrightarrow> ucast (of_nat m :: byte) = (of_nat m :: u64)"
  by (simp add: unsigned_of_nat take_bit_nat_eq_self)

lemma be_joins:
  "push_bit 8 (of_nat (n div 65536) :: u64) OR ucast (of_nat (n div 256) :: byte) = of_nat (n div 256)"
  "push_bit 8 (of_nat (n div 16777216) :: u64) OR ucast (of_nat (n div 65536) :: byte) = of_nat (n div 65536)"
  using be_join [of "n div 256"] be_join [of "n div 65536"] by (simp_all flip: div_mult2_eq)

text \<open>The digits of a number in base 256, most significant first.\<close>

definition be_digits :: "nat \<Rightarrow> nat \<Rightarrow> byte list" where
  "be_digits k n = map (\<lambda>i. of_nat (n div 256 ^ (k - 1 - i))) [0..<k]"

lemma be_digits_value:
  assumes "n < 256 ^ k" "k \<in> {1, 2, 3, 4}"
  shows "foldl (\<lambda>a b. push_bit 8 a OR ucast b) (0 :: u64) (be_digits k n) = of_nat n"
proof -
  consider "k = 1" | "k = 2" | "k = 3" | "k = 4" using assms(2) by auto
  then show ?thesis
    using assms(1) be_join [of n] be_joins [of n] be_first [of n] be_first [of "n div 256"] be_first [of "n div 65536"] be_first [of "n div 16777216"]
    by cases (simp_all add: be_digits_def upt_rec less_mult_imp_div_less)
qed

lemma asn1_bytes_eq:
  assumes "n < 2 ^ 32"
  shows "asn1_bytes (of_nat n) =
    (if n < 128 then [of_nat n]
     else if n < 256 then 0x81 # be_digits 1 n
     else if n < 65536 then 0x82 # be_digits 2 n
     else if n < 16777126 then 0x83 # be_digits 3 n
     else 0x84 # be_digits 4 n)"
proof -
  have n: "n < 2 ^ 63" using assms by simp
  have u: "(ucast (of_nat (n div m) :: u64) :: byte) = of_nat (n div m)" for m
    using assms order_le_less_trans [OF div_le_dividend [of n m], of "2 ^ 64"] by (intro ucast_of_nat) simp
  show ?thesis using u [of 1] u [of 256] u [of 65536] u [of 16777216] signed_shift [OF n, of 8] signed_shift [OF n, of 16] signed_shift [OF n, of 24]
    by (simp add: asn1_bytes_def sint_small [OF n] be_digits_def upt_rec)
qed

lemma asn1_decode_long:
  assumes "k \<in> {1, 2, 3, 4}" "n < 256 ^ k" "len_allows len (k + 1)"
  shows "asn1_decode ((0x80 + of_nat k) # be_digits k n @ buf) len = Some (of_nat n, map_option (\<lambda>_. int (k + 1)) len)"
proof -
  have l: "length (be_digits k n) = k" by (simp add: be_digits_def)
  have t: "\<not> (0x80 + of_nat k :: byte) < 128" "(0x80 + of_nat k :: byte) \<noteq> 0x80" "unat ((0x80 + of_nat k :: byte) AND 0x7F) = k"
    using assms(1) by auto
  have "asn1_decode_loop ([0x80 + of_nat k] @ be_digits k n @ buf) len (length (be_digits k n)) 0 1 = Some (of_nat n, map_option (\<lambda>_. int (k + 1)) len)"
    using asn1_decode_loop_spec [of "[0x80 + of_nat k]" 1 len "be_digits k n" buf 0] be_digits_value [OF assms(2,1)] assms(3) l by simp
  then show ?thesis using t l by (simp add: asn1_decode_def Let_def)
qed

lemma asn1_value:
  assumes "n < 2 ^ 32" "len_allows len (length (asn1_bytes (of_nat n)))"
  shows "asn1_decode (asn1_bytes (of_nat n) @ buf) len = Some (of_nat n, map_option (\<lambda>_. int (length (asn1_bytes (of_nat n)))) len)"
proof -
  note e = asn1_bytes_eq [OF assms(1)]
  have l: "length (be_digits k n) = k" for k by (simp add: be_digits_def)
  consider "n < 128" | "128 \<le> n" "n < 256" | "256 \<le> n" "n < 65536" | "65536 \<le> n" "n < 16777126" | "16777126 \<le> n" by linarith
  then show ?thesis
  proof cases
    case 1
    then show ?thesis using e by (simp add: asn1_decode_def word_less_nat_alt unat_of_nat be_first)
  next
    case 2
    then show ?thesis using e l assms asn1_decode_long [of 1 n len buf] by simp
  next
    case 3
    then show ?thesis using e l assms asn1_decode_long [of 2 n len buf] by simp
  next
    case 4
    then show ?thesis using e l assms asn1_decode_long [of 3 n len buf] by simp
  next
    case 5
    then show ?thesis using e l assms asn1_decode_long [of 4 n len buf] by simp
  qed
qed

subsection \<open>Properties\<close>

text \<open>
  C21: \<open>varint_encode\<close> of a value that is not negative writes at most nine bytes, leaves the rest of the buffer alone, and
  \<open>varint_decode\<close> reads the value back and reports that number of bytes, for every \<open>len\<close> argument that does not cut the data short.
\<close>
theorem varint_roundtrip:
  assumes "0 \<le> sint v" "9 \<le> length buf"
  shows "\<exists>buf' n. varint_encode v buf = Some (buf', n) \<and> n \<le> 9 \<and> length buf' = length buf \<and> drop n buf' = drop n buf \<and>
    (\<forall>len. len_allows len n \<longrightarrow> varint_decode buf' len = Some (v, map_option (\<lambda>_. int n) len))"
proof -
  obtain m where m: "v = of_nat m" "m < 2 ^ 63"
  proof
    show "v = of_nat (nat (sint v))" using assms(1) by simp
    show "nat (sint v) < 2 ^ 63" using sint_lt [of v] assms(1) by simp
  qed
  have "m < 128 ^ (8 + 1)" using m(2) by simp
  then have l: "length (varint_spec m) \<le> 9" using varint_spec_length [of m 8] by simp
  let ?b = "varint_spec m @ drop (length (varint_spec m)) buf"
  have "varint_encode v buf = Some (?b, length (varint_spec m))"
    using varint_encode_loop_spec [OF m(2), of "[]" 0 buf] l assms(2) by (simp add: varint_encode_def m(1))
  moreover have "varint_decode ?b len = Some (v, map_option (\<lambda>_. int (length (varint_spec m))) len)" if "len_allows len (length (varint_spec m))" for len
    using varint_decode_loop_spec [of 0 0 m "[]" len "drop (length (varint_spec m)) buf"] that m by (simp add: varint_decode_def)
  ultimately show ?thesis using l assms(2) by (intro exI [of _ ?b] exI [of _ "length (varint_spec m)"]) simp
qed

theorem varint_roundtrip_witness:
  "\<exists>buf' n. varint_encode 300 (replicate 9 0) = Some (buf', n) \<and> varint_decode buf' (Some (int n)) = Some (300, Some (int n))"
  using varint_roundtrip [of 300 "replicate 9 0"] by (fastforce simp: len_allows_def)

text \<open>
  C38: for a negative value \<open>varint_encode\<close> never stops, since the arithmetic shift never reaches 0: it writes past the end of
  every buffer.
\<close>
theorem varint_negative_overruns: "sint v < 0 \<Longrightarrow> varint_encode v buf = None"
  by (simp add: varint_encode_def varint_encode_negative)

theorem varint_negative_overruns_witness: "varint_encode (- 1) (replicate 64 0) = None"
  by (rule varint_negative_overruns) simp

text \<open>
  C22: \<open>asn1_encode\<close> of a value below \<open>2 ^ 32\<close> writes between one and five bytes, leaves the rest of the buffer alone, and
  \<open>asn1_decode\<close> reads the value back.
\<close>
theorem asn1_roundtrip:
  assumes "unat v < 2 ^ 32" "5 \<le> length buf"
  shows "\<exists>buf' n. asn1_encode v buf = Some (buf', n) \<and> 1 \<le> n \<and> n \<le> 5 \<and> length buf' = length buf \<and> drop n buf' = drop n buf \<and>
    (\<forall>len. len_allows len n \<longrightarrow> asn1_decode buf' len = Some (v, map_option (\<lambda>_. int n) len))"
proof -
  let ?bs = "asn1_bytes v"
  have v: "of_nat (unat v) = v" by simp
  have l: "1 \<le> length ?bs" "length ?bs \<le> 5" by (simp_all add: asn1_bytes_def)
  have "asn1_decode (?bs @ drop (length ?bs) buf) len = Some (v, map_option (\<lambda>_. int (length ?bs)) len)" if "len_allows len (length ?bs)" for len
    using asn1_value [OF assms(1), of len "drop (length ?bs) buf"] that by (simp only: v)
  then show ?thesis using l assms(2)
    by (intro exI [of _ "?bs @ drop (length ?bs) buf"] exI [of _ "length ?bs"]) (simp add: asn1_encode_def Let_def)
qed

theorem asn1_roundtrip_witness:
  "\<exists>buf' n. asn1_encode 16777126 (replicate 5 0) = Some (buf', n) \<and> asn1_decode buf' None = Some (16777126, None)"
  using asn1_roundtrip [of 16777126 "replicate 5 0"] by (fastforce simp: len_allows_def)

end
