(* ===== verification/Websocket_Frame.thy ===== *)
theory Websocket_Frame
  imports Websocket_Stream Hv_Math
begin

unbundle bit_operations_syntax

section \<open>Frames that are built are frames that are understood\<close>

text \<open>
  What the machine on bytes of \<open>Websocket_Stream\<close> does with a frame that \<open>websocket_build_frame\<close> has written: it ends where a frame
  begins, and the payload has been added to the message.
\<close>

subsection \<open>The bytes of a frame\<close>

definition frame_bytes :: "u32 \<Rightarrow> byte list \<Rightarrow> byte list \<Rightarrow> byte list" where
  "frame_bytes flags key data =
     (let (l, ext) = length_field (of_nat (length data)) in
      ((if flags AND WS_FIN \<noteq> 0 then 0x80 else 0) OR ucast (flags AND WS_OP_MASK)) #
      ((if flags AND WS_HAS_MASK \<noteq> 0 then 0x80 else 0) OR l) # ext @
      (if flags AND WS_HAS_MASK \<noteq> 0 then key @ fst (websocket_decode data key 0) else data))"

lemma websocket_build_frame_eq:
  assumes "length key = 4" "length (frame_bytes flags key data) \<le> length frame"
  shows "websocket_build_frame frame flags (Some key) data =
    Some (frame_bytes flags key data @ drop (length (frame_bytes flags key data)) frame, length (frame_bytes flags key data))"
  using assms by (cases "length_field (of_nat (length data))") (simp add: websocket_build_frame_def frame_bytes_def Let_def)

lemma length_field_length:
  "length (snd (length_field n)) = (if n < 126 then 0 else if n \<le> 0xFFFF then 2 else 8)"
  by (simp add: length_field_def)

lemma length_decode [simp]: "length (fst (websocket_decode data key off)) = length data"
  by (simp add: websocket_decode_def)

lemma frame_bytes_length:
  assumes "length key = 4"
  shows "(of_nat (length (frame_bytes flags key data)) :: u64) = websocket_calc_frame_size flags (of_nat (length data))"
proof -
  let ?n = "of_nat (length data) :: u64"
  have "length (frame_bytes flags key data) =
    2 + length (snd (length_field ?n)) + (if flags AND WS_HAS_MASK \<noteq> 0 then 4 else 0) + length data"
    using assms by (simp add: frame_bytes_def split_beta Let_def)
  then show ?thesis by (simp add: length_field_length websocket_calc_frame_size_def Let_def not_less not_le)
qed

subsection \<open>Masking\<close>

lemma decode_twice:
  assumes "length key = 4"
  shows "fst (websocket_decode (fst (websocket_decode data key off)) key off) = data"
  by (rule nth_equalityI) (simp_all add: websocket_decode_def xor.assoc)

lemma parser_decode_eq: "websocket_parser_decode xs p =
  (fst (websocket_decode xs (ws_mask p) (ws_mask_offset p)), p\<lparr>ws_mask_offset := snd (websocket_decode xs (ws_mask p) (ws_mask_offset p))\<rparr>)"
  by (simp add: websocket_parser_decode_def websocket_decode_def)

subsection \<open>The header\<close>

lemma be_word: "push_bit 8 (drop_bit (j + 8) n) OR ucast (ucast (drop_bit j n AND 0xFF) :: byte) = drop_bit j (n :: u64)"
proof (rule bit_word_eqI)
  fix i assume "i < LENGTH(64)"
  moreover have "drop_bit j n AND 0xFF = take_bit 8 (drop_bit j n)" by (simp add: take_bit_eq_mask mask_eq_exp_minus_1)
  ultimately show "bit (push_bit 8 (drop_bit (j + 8) n) OR ucast (ucast (drop_bit j n AND 0xFF) :: byte)) i = bit (drop_bit j n) i"
    by (simp only:) (auto simp: bit_simps)
qed

lemma ucast_low_byte: "(ucast (w AND 0xFF) :: byte) = ucast (w :: u64)"
proof (rule bit_word_eqI)
  fix i assume "i < LENGTH(8)"
  moreover have "w AND 0xFF = take_bit 8 w" by (simp add: take_bit_eq_mask mask_eq_exp_minus_1)
  ultimately show "bit (ucast (w AND 0xFF) :: byte) i = bit (ucast w :: byte) i" by (simp only:) (auto simp: bit_simps)
qed

lemma length_field_value:
  assumes "126 \<le> n"
  shows "foldl (\<lambda>a b. push_bit 8 a OR ucast b) 0 (snd (length_field n)) = n"
proof (cases "n \<le> 0xFFFF")
  case True
  then have "unat n \<le> 65535" by (simp add: word_le_nat_alt)
  then have "drop_bit 16 n = 0" by (simp add: drop_bit_eq_div word_unat_eq_iff unat_div_distrib)
  then show ?thesis using be_word [of 8 n] be_word [of 0 n] True assms
    by (simp add: length_field_def ucast_low_byte not_less [symmetric])
next
  case False
  have "drop_bit 64 n = 0" by (rule bit_word_eqI) (auto simp: bit_simps)
  moreover have "\<not> n < 126" using assms by simp
  ultimately show ?thesis using be_word [of 56 n] be_word [of 48 n] be_word [of 40 n] be_word [of 32 n] be_word [of 24 n]
      be_word [of 16 n] be_word [of 8 n] be_word [of 0 n] False
    by (simp add: length_field_def)
qed

lemma of_nat_small: "0 < k \<Longrightarrow> k \<le> 8 \<Longrightarrow> (of_nat k :: u64) \<noteq> 0"
  using unat_of_nat64 [of k] by auto

lemma bind_run_nil [simp]: "Option.bind r (ws_run lim []) = r"
  by (cases r) simp_all

lemma ws_run_ext:
  assumes "ws_st p = s_length" "ws_require p = of_nat (length ext)" "ext \<noteq> []" "length ext \<le> 8"
  shows "ws_run lim ext (p, wp) = length_conn (p\<lparr>ws_length := foldl (\<lambda>a b. push_bit 8 a OR ucast b) (ws_length p) ext, ws_require := 0\<rparr>) wp"
  using assms
proof (induction ext arbitrary: p)
  case (Cons b ext)
  have r: "ws_require p \<noteq> 0" using Cons.prems of_nat_small [of "length (b # ext)"] by simp
  show ?case
  proof (cases "ext = []")
    case True
    then show ?thesis using Cons.prems by (cases p) (simp add: ws_byte_def length_byte_def)
  next
    case False
    have r1: "ws_require (length_byte b p) \<noteq> 0" using False Cons.prems of_nat_small [of "length ext"] by (simp add: length_byte_def)
    have "ws_run lim ext (length_byte b p, wp) = length_conn ((length_byte b p)\<lparr>ws_length := foldl (\<lambda>a b. push_bit 8 a OR ucast b) (ws_length (length_byte b p)) ext, ws_require := 0\<rparr>) wp"
      using Cons.prems False by (intro Cons.IH) (simp_all add: length_byte_def)
    then show ?thesis using Cons.prems(1) r r1 by (cases p) (simp add: ws_byte_def length_byte_def)
  qed
qed simp

lemma ws_run_key:
  assumes "ws_st p = s_mask" "ws_require p = 4" "length (ws_mask p) = 4" "length key = 4"
  shows "ws_run lim key (p, wp) = mask_conn (p\<lparr>ws_mask := key, ws_require := 0\<rparr>) wp"
proof -
  obtain a b c d where k: "key = [a, b, c, d]" using assms(4) by (auto simp: numeral_eq_Suc length_Suc_conv)
  obtain x y z w where m: "ws_mask p = [x, y, z, w]" using assms(3) by (auto simp: numeral_eq_Suc length_Suc_conv)
  show ?thesis using assms m by (cases p) (simp add: k ws_byte_def mask_byte_def)
qed

text \<open>The two fixed bytes.\<close>

lemma opcode_cases:
  obtains k where "flags AND WS_OP_MASK = of_nat k" "k < 16"
proof
  have "flags AND WS_OP_MASK = take_bit 4 flags" by (simp add: WS_OP_MASK_def take_bit_eq_mask mask_eq_exp_minus_1)
  moreover have "unat (take_bit 4 flags) < 16" using take_bit_nat_less_exp [of 4 "unat flags"] by (simp add: unsigned_take_bit_eq)
  ultimately show "unat (flags AND WS_OP_MASK) < 16" by simp
  show "flags AND WS_OP_MASK = of_nat (unat (flags AND WS_OP_MASK))" by simp
qed

lemma first_byte:
  assumes "k < 16"
  shows "((if F then 0x80 else 0) OR ucast (of_nat k :: u32) :: byte) AND 0x80 \<noteq> 0 \<longleftrightarrow> F"
    "ucast ((if F then 0x80 else 0) OR ucast (of_nat k :: u32) :: byte) AND WS_OP_MASK = (of_nat k :: u32)"
proof -
  have "k \<in> {0, 1, 2, 3, 4, 5, 6, 7, 8, 9, 10, 11, 12, 13, 14, 15}" using assms by (simp, presburger)
  then show "((if F then 0x80 else 0) OR ucast (of_nat k :: u32) :: byte) AND 0x80 \<noteq> 0 \<longleftrightarrow> F"
    "ucast ((if F then 0x80 else 0) OR ucast (of_nat k :: u32) :: byte) AND WS_OP_MASK = (of_nat k :: u32)"
    by (auto simp: WS_OP_MASK_def)
qed

lemma second_byte:
  assumes "k < 128"
  shows "((if M then 0x80 else 0) OR of_nat k :: byte) AND 0x80 \<noteq> 0 \<longleftrightarrow> M"
    "ucast ((if M then 0x80 else 0) OR of_nat k :: byte) AND 0x7F = (of_nat k :: u64)"
proof -
  let ?b = "(if M then 0x80 else 0) OR of_nat k :: byte"
  have h: "0x80 OR of_nat k = (of_nat (k + 128) :: byte)" by (subst or.commute) (rule high_bit [OF assms])
  have b: "?b AND 0x80 \<noteq> 0 \<longleftrightarrow> M" "?b AND 0x7F = of_nat k"
    by (simp_all add: h group_bits [OF assms, simplified])
  show "?b AND 0x80 \<noteq> 0 \<longleftrightarrow> M" by (rule b(1))
  have "ucast ?b AND 0x7F = (ucast (?b AND 0x7F) :: u64)" by (simp add: unsigned_and_eq)
  then show "ucast ?b AND 0x7F = (of_nat k :: u64)" using b(2) be_first [of k] assms by simp
qed

subsection \<open>A frame\<close>

text \<open>The parser's flags after the header: the known bits of what the frame was built with.\<close>

definition known_flags :: "u32 \<Rightarrow> u32" where
  "known_flags flags =
     (let op = flags AND WS_OP_MASK; f = (if flags AND WS_FIN \<noteq> 0 then op OR WS_FIN else op)
      in if flags AND WS_HAS_MASK \<noteq> 0 then f OR WS_HAS_MASK else f)"

lemma known_flags_bits:
  "known_flags flags AND WS_OP_MASK = flags AND WS_OP_MASK"
  "known_flags flags AND WS_FIN \<noteq> 0 \<longleftrightarrow> flags AND WS_FIN \<noteq> 0"
  "known_flags flags AND WS_HAS_MASK \<noteq> 0 \<longleftrightarrow> flags AND WS_HAS_MASK \<noteq> 0"
  by (simp_all add: known_flags_def Let_def and.assoc bit.conj_disj_distrib2 ws_flag_defs)

text \<open>What a frame does to the message that is being put together.\<close>

definition frame_effect :: "u32 \<Rightarrow> byte list \<Rightarrow> WebSocketParser \<Rightarrow> WebSocketParser" where
  "frame_effect flags data wp =
     (let wp = wp_header flags wp in wp_end flags (wp\<lparr>wp_message := wp_message wp @ data\<rparr>))"

lemma known_flags_effect: "frame_effect (known_flags flags) data wp = frame_effect flags data wp"
  by (simp add: frame_effect_def wp_header_def wp_end_def known_flags_bits)

lemma head_conn_eq:
  assumes "ucast b AND 0x7F = (of_nat l :: u64)" "l < 128" "b AND 0x80 \<noteq> 0 \<longleftrightarrow> M"
  shows "head_conn b p wp =
    (let q = p\<lparr>ws_length := of_nat l, ws_flags := (if M then ws_flags p OR WS_HAS_MASK else ws_flags p)\<rparr> in
     if 126 \<le> l then Some (q\<lparr>ws_require := (if l = 127 then 8 else 2), ws_length := 0, ws_st := s_length\<rparr>, wp)
     else length_conn q wp)"
proof -
  have "(126 :: u64) \<le> of_nat l \<longleftrightarrow> 126 \<le> l" "(of_nat l :: u64) = 127 \<longleftrightarrow> l = 127"
    using assms(2) unat_of_nat64 [of l] by (simp_all add: word_le_nat_alt word_unat_eq_iff)
  then show ?thesis using assms(1,3) by (simp add: head_conn_def Let_def)
qed

text \<open>The parser after the header of a frame of \<open>n\<close> bytes.\<close>

lemma ws_run_head:
  assumes "ws_st p = s_start" "n < 2 ^ 63"
  shows "\<exists>q. ws_run lim (((if flags AND WS_FIN \<noteq> 0 then 0x80 else 0) OR ucast (flags AND WS_OP_MASK)) #
      ((if flags AND WS_HAS_MASK \<noteq> 0 then 0x80 else 0) OR fst (length_field (of_nat n))) # snd (length_field (of_nat n))) (p, wp) =
      length_conn q wp \<and>
    ws_flags q = known_flags flags \<and> ws_length q = of_nat n \<and> ws_mask_offset q = 0 \<and> ws_mask q = ws_mask p"
proof -
  let ?b0 = "(if flags AND WS_FIN \<noteq> 0 then 0x80 else 0) OR ucast (flags AND WS_OP_MASK) :: byte"
  let ?b1 = "\<lambda>l. (if flags AND WS_HAS_MASK \<noteq> 0 then 0x80 else 0) OR l :: byte"
  obtain k where k: "flags AND WS_OP_MASK = of_nat k" "k < 16" by (rule opcode_cases)
  define P where "P = start_byte ?b0 p"
  let ?p = P
  have p: "ws_byte lim ?b0 (p, wp) = Some (?p, wp)" "ws_st ?p = s_head" "ws_mask_offset ?p = 0" "ws_mask ?p = ws_mask p"
    using assms(1) by (simp_all add: ws_byte_def P_def start_byte_def)
  have f: "ws_flags ?p = (if flags AND WS_FIN \<noteq> 0 then (flags AND WS_OP_MASK) OR WS_FIN else flags AND WS_OP_MASK)"
    using first_byte [OF k(2), of True] first_byte [OF k(2), of False] by (simp add: P_def start_byte_def k(1))
  let ?q = "\<lambda>l. ?p\<lparr>ws_length := l, ws_flags := known_flags flags\<rparr>"
  have h: "ws_byte lim (?b1 (of_nat l)) (?p, wp) =
    (if 126 \<le> l then Some ((?q (of_nat l))\<lparr>ws_require := (if l = 127 then 8 else 2), ws_length := 0, ws_st := s_length\<rparr>, wp)
     else length_conn (?q (of_nat l)) wp)" if "l < 128" for l
    using head_conn_eq [OF second_byte(2) [OF that] that second_byte(1) [OF that], of "flags AND WS_HAS_MASK \<noteq> 0" ?p wp] p(2) f
    by (simp add: ws_byte_def known_flags_def Let_def)
  show ?thesis
  proof (cases "n < 126")
    case True
    then have l: "length_field (of_nat n) = (of_nat n, [])" using unat_of_nat64 [of n] by (simp add: length_field_def word_less_nat_alt ucast_of_nat)
    show ?thesis using h [of n] True p
      by (intro exI [of _ "?q (of_nat n)"]) (simp add: l)
  next
    case False
    have "126 \<le> (of_nat n :: u64)" using False unat_of_nat64 [of n] assms(2) by (simp add: word_le_nat_alt)
    note v = length_field_value [OF this]
    let ?l = "if n \<le> 65535 then 126 else 127 :: nat" and ?r = "if n \<le> 65535 then 2 else 8 :: nat"
    have l: "fst (length_field (of_nat n)) = of_nat ?l" "length (snd (length_field (of_nat n))) = ?r"
      using False unat_of_nat64 [of n] assms(2) by (simp_all add: length_field_def word_less_nat_alt word_le_nat_alt)
    have ne: "snd (length_field (of_nat n)) \<noteq> []" using l(2) by (auto split: if_splits)
    let ?q1 = "(?q (of_nat ?l))\<lparr>ws_require := (if ?l = 127 then 8 else 2), ws_length := 0, ws_st := s_length\<rparr>"
    let ?q2 = "?q1\<lparr>ws_length := of_nat n, ws_require := 0\<rparr>"
    have "ws_run lim (snd (length_field (of_nat n))) (?q1, wp) = length_conn ?q2 wp"
      using ws_run_ext [of ?q1 "snd (length_field (of_nat n))" lim wp] l(2) ne v by auto
    then show ?thesis using h [of ?l] p by (intro exI [of _ ?q2]) (simp add: l(1))
  qed
qed

lemma wp_end_state: "wp_end f (wp\<lparr>wp_state := s, wp_message := m\<rparr>) = wp_end f (wp\<lparr>wp_message := m\<rparr>)"
  by (cases wp) (simp add: wp_end_def)

lemma ws_run_payload:
  assumes "ws_flags q = known_flags flags" "ws_length q = of_nat (length data)" "length data \<le> lim" "lim < 2 ^ 31 - 1"
    and masked: "if flags AND WS_HAS_MASK \<noteq> 0 then xs = fst (websocket_decode data (ws_mask q) 0) else xs = data"
    and "ws_mask_offset q = 0" "length (ws_mask q) = 4"
  shows "\<exists>q'. Option.bind (mask_conn q wp) (ws_run lim xs) = Some (q', frame_effect flags data wp) \<and> ws_st q' = s_start \<and> ws_mask q' = ws_mask q"
proof -
  have n: "unat (ws_length q) = length data" using assms(2-4) unat_of_nat64 [of "length data"] by simp
  have x: "length xs = length data" using masked by (auto split: if_splits)
  have m: "mask_conn q wp = Some (header_conn q wp)" using reserve_small [of "ws_length q" lim] n assms(3,4) by (simp add: mask_conn_def del: not_None_eq)
  show ?thesis
  proof (cases "data = []")
    case True
    then show ?thesis using m x assms(2) known_flags_effect [of flags "[]" wp]
      by (simp add: header_conn_def frame_effect_def assms(1) Let_def)
  next
    case False
    let ?c = "(q\<lparr>ws_st := s_body, ws_require := ws_length q\<rparr>, wp_header (known_flags flags) wp)"
    have z: "ws_length q \<noteq> 0" using n False by (metis length_0_conv unsigned_0)
    have h: "header_conn q wp = ?c" using z by (simp add: header_conn_def assms(1))
    have r: "ws_run lim xs ?c = Some (frame_over (body_step xs ?c))" using n x False assms(3) by (intro ws_run_body_all) auto
    have b: "body_step xs ?c = (q', (snd ?c)\<lparr>wp_state := WS_FRAME_BODY, wp_message := wp_message (snd ?c) @ data\<rparr>) \<and> ws_require q' = 0 \<and> ws_flags q' = known_flags flags \<and> ws_mask q' = ws_mask q"
      if "q' = fst (body_step xs ?c)" for q'
      using masked that body_step_fields [of xs ?c] x assms(2)
      by (auto simp: body_step_def parser_decode_eq assms(1,6) known_flags_bits decode_twice [OF assms(7)] split: if_splits)
    obtain q' where q': "body_step xs ?c = (q', (snd ?c)\<lparr>wp_state := WS_FRAME_BODY, wp_message := wp_message (snd ?c) @ data\<rparr>)"
      "ws_require q' = 0" "ws_flags q' = known_flags flags" "ws_mask q' = ws_mask q" using b [OF refl] by blast
    have "frame_over (body_step xs ?c) = (q'\<lparr>ws_st := s_start\<rparr>, frame_effect (known_flags flags) data wp)"
      using q' by (simp add: frame_over_def frame_effect_def Let_def wp_end_state)
    then show ?thesis using m h r q'(4) by (simp add: known_flags_effect)
  qed
qed

lemma ws_run_frame:
  assumes "ws_st p = s_start" "length (ws_mask p) = 4" "length key = 4" "length data \<le> lim" "lim < 2 ^ 31 - 1"
  shows "\<exists>p'. ws_run lim (frame_bytes flags key data) (p, wp) = Some (p', frame_effect flags data wp) \<and> ws_st p' = s_start \<and> length (ws_mask p') = 4"
proof -
  let ?n = "of_nat (length data) :: u64"
  define h where "h = ((if flags AND WS_FIN \<noteq> 0 then 0x80 else 0) OR ucast (flags AND WS_OP_MASK)) #
      ((if flags AND WS_HAS_MASK \<noteq> 0 then 0x80 else 0) OR fst (length_field ?n)) # snd (length_field ?n)"
  let ?h = h
  let ?x = "if flags AND WS_HAS_MASK \<noteq> 0 then fst (websocket_decode data key 0) else data"
  have f: "frame_bytes flags key data = ?h @ (if flags AND WS_HAS_MASK \<noteq> 0 then key else []) @ ?x"
    by (simp add: h_def frame_bytes_def split_beta Let_def)
  have "length data < 2 ^ 63" using assms(4,5) by simp
  then obtain q where q: "ws_run lim ?h (p, wp) = length_conn q wp" "ws_flags q = known_flags flags" "ws_length q = ?n"
    "ws_mask_offset q = 0" "ws_mask q = ws_mask p"
    using ws_run_head [OF assms(1), of "length data" lim flags wp] unfolding h_def by blast
  show ?thesis
  proof (cases "flags AND WS_HAS_MASK = 0")
    case True
    then have "length_conn q wp = mask_conn q wp" using known_flags_bits(3) [of flags] by (simp add: length_conn_def q(2))
    then show ?thesis using True q assms ws_run_payload [OF q(2,3) assms(4,5), of data wp] by (auto simp: f ws_run_append)
  next
    case False
    let ?q = "q\<lparr>ws_st := s_mask, ws_require := 4\<rparr>" and ?r = "q\<lparr>ws_st := s_mask, ws_mask := key, ws_require := 0\<rparr>"
    have "length_conn q wp = Some (?q, wp)" using False known_flags_bits(3) [of flags] by (simp add: length_conn_def q(2))
    moreover have "ws_run lim key (?q, wp) = mask_conn ?r wp"
      using ws_run_key [of ?q key lim wp] assms(2,3) q(5) by simp
    moreover have "\<exists>q'. Option.bind (mask_conn ?r wp) (ws_run lim ?x) = Some (q', frame_effect flags data wp) \<and> ws_st q' = s_start \<and> ws_mask q' = ws_mask ?r"
      by (rule ws_run_payload) (use False q assms in auto)
    ultimately show ?thesis using False q(1) assms(3) by (auto simp: f ws_run_append)
  qed
qed

end
