(* ===== verification/Hv_Buf.thy ===== *)
theory Hv_Buf
  imports Prelude
begin

section \<open>Byte buffers (base/hbuf.h)\<close>

text \<open>
  \<open>HBuf\<close> owns a block of memory or wraps one of the caller, \<open>HVLBuf\<close> keeps a run of bytes in it that grows and shrinks at both
  ends, \<open>HRingBuf\<close> hands out pieces of it in turn.  The block is \<open>hb_mem\<close>, of length \<open>len\<close>; \<open>hb_null\<close> says that \<open>base\<close> is \<open>NULL\<close>,
  and \<open>hb_cleanup\<close> is \<open>cleanup_\<close>.  Sizes are natural numbers (no block reaches \<open>2 ^ 63\<close> bytes).  A read or write outside the
  block, and a \<open>realloc\<close> of memory that was not allocated, is \<open>None\<close>.
\<close>

subsection \<open>HBuf\<close>

record HBuf =
  hb_null :: bool
  hb_mem :: "byte list"
  hb_cleanup :: bool

definition HBuf_new :: HBuf where
  "HBuf_new = \<lparr>hb_null = True, hb_mem = [], hb_cleanup = False\<rparr>"

definition HBuf_wrap :: "byte list \<Rightarrow> HBuf" where
  "HBuf_wrap data = \<lparr>hb_null = False, hb_mem = data, hb_cleanup = False\<rparr>"

definition HBuf_isNull :: "'a HBuf_scheme \<Rightarrow> bool" where
  "HBuf_isNull b \<longleftrightarrow> hb_null b \<or> hb_mem b = []"

definition HBuf_cleanup :: "'a HBuf_scheme \<Rightarrow> 'a HBuf_scheme" where
  "HBuf_cleanup b = (if hb_cleanup b then b\<lparr>hb_null := True, hb_mem := [], hb_cleanup := False\<rparr> else b)"

definition HBuf_resize :: "nat \<Rightarrow> 'a HBuf_scheme \<Rightarrow> 'a HBuf_scheme option" where
  "HBuf_resize cap b =
     (if cap = length (hb_mem b) then Some b
      else if hb_null b then Some (b\<lparr>hb_null := False, hb_mem := replicate cap 0, hb_cleanup := True\<rparr>)
      else if hb_cleanup b then Some (b\<lparr>hb_mem := resize_cells 0 (hb_mem b) cap, hb_cleanup := True\<rparr>)
      else None)"

definition HBuf_copy :: "byte list \<Rightarrow> 'a HBuf_scheme \<Rightarrow> 'a HBuf_scheme option" where
  "HBuf_copy data b = do {
     b \<leftarrow> HBuf_resize (length data) b;
     mem \<leftarrow> put_cells (hb_mem b) 0 data;
     Some (b\<lparr>hb_mem := mem\<rparr>) }"

text \<open>The constructor from a capacity leaves \<open>cleanup_\<close> as memory has it (\<open>g\<close>) before it resizes.\<close>

definition HBuf_cap :: "bool \<Rightarrow> nat \<Rightarrow> HBuf option" where
  "HBuf_cap g cap = HBuf_resize cap \<lparr>hb_null = True, hb_mem = [], hb_cleanup = g\<rparr>"

subsection \<open>HVLBuf\<close>

record HVLBuf = HBuf +
  vl_offset :: nat
  vl_size :: nat

definition HVLBuf_new :: HVLBuf where
  "HVLBuf_new = \<lparr>hb_null = True, hb_mem = [], hb_cleanup = False, vl_offset = 0, vl_size = 0\<rparr>"

definition HVLBuf_wrap :: "byte list \<Rightarrow> HVLBuf" where
  "HVLBuf_wrap data = \<lparr>hb_null = False, hb_mem = data, hb_cleanup = False, vl_offset = 0, vl_size = length data\<rparr>"

text \<open>Making room for \<open>n\<close> bytes before or after the run.\<close>

definition room_front :: "nat \<Rightarrow> HVLBuf \<Rightarrow> HVLBuf option" where
  "room_front n b = do {
     b \<leftarrow> (if n > length (hb_mem b) - vl_size b then HBuf_resize (max (length (hb_mem b)) n * 2) b else Some b);
     if vl_offset b < n then do {
       let e = length (hb_mem b) - vl_size b;
       mem \<leftarrow> move_cells (hb_mem b) e (vl_offset b) (vl_size b);
       Some (b\<lparr>hb_mem := mem, vl_offset := e\<rparr>) }
     else Some b }"

definition HVLBuf_push_front :: "byte list \<Rightarrow> HVLBuf \<Rightarrow> HVLBuf option" where
  "HVLBuf_push_front xs b = do {
     let n = length xs;
     b \<leftarrow> room_front n b;
     if vl_offset b < n then None
     else do {
       mem \<leftarrow> put_cells (hb_mem b) (vl_offset b - n) xs;
       Some (b\<lparr>hb_mem := mem, vl_offset := vl_offset b - n, vl_size := vl_size b + n\<rparr>) } }"

definition room_back :: "nat \<Rightarrow> HVLBuf \<Rightarrow> HVLBuf option" where
  "room_back n b =
     (if n > length (hb_mem b) - vl_size b then HBuf_resize (max (length (hb_mem b)) n * 2) b
      else if n > length (hb_mem b) - vl_offset b - vl_size b then do {
        mem \<leftarrow> move_cells (hb_mem b) 0 (vl_offset b) (vl_size b);
        Some (b\<lparr>hb_mem := mem, vl_offset := 0\<rparr>) }
      else Some b)"

definition HVLBuf_push_back :: "byte list \<Rightarrow> HVLBuf \<Rightarrow> HVLBuf option" where
  "HVLBuf_push_back xs b = do {
     b \<leftarrow> room_back (length xs) b;
     mem \<leftarrow> put_cells (hb_mem b) (vl_offset b + vl_size b) xs;
     Some (b\<lparr>hb_mem := mem, vl_size := vl_size b + length xs\<rparr>) }"

text \<open>The bytes copied to \<open>ptr\<close> (none when there are fewer than \<open>n\<close>) and the buffer.\<close>

definition HVLBuf_pop_front :: "nat \<Rightarrow> HVLBuf \<Rightarrow> (byte list \<times> HVLBuf) option" where
  "HVLBuf_pop_front n b =
     (if n \<le> vl_size b then
        if vl_offset b + n \<le> length (hb_mem b) then
          Some (take n (drop (vl_offset b) (hb_mem b)),
            b\<lparr>vl_offset := (if vl_offset b + n \<ge> length (hb_mem b) then 0 else vl_offset b + n), vl_size := vl_size b - n\<rparr>)
        else None
      else Some ([], b))"

definition HVLBuf_pop_back :: "nat \<Rightarrow> HVLBuf \<Rightarrow> (byte list \<times> HVLBuf) option" where
  "HVLBuf_pop_back n b =
     (if n \<le> vl_size b then
        if vl_offset b + vl_size b \<le> length (hb_mem b) then
          Some (take n (drop (vl_offset b + vl_size b - n) (hb_mem b)), b\<lparr>vl_size := vl_size b - n\<rparr>)
        else None
      else Some ([], b))"

definition HVLBuf_clear :: "HVLBuf \<Rightarrow> HVLBuf" where
  "HVLBuf_clear b = b\<lparr>vl_offset := 0, vl_size := 0\<rparr>"

definition HVLBuf_prepend :: "byte list \<Rightarrow> HVLBuf \<Rightarrow> HVLBuf option" where
  "HVLBuf_prepend xs b = HVLBuf_push_front xs b"

definition HVLBuf_append :: "byte list \<Rightarrow> HVLBuf \<Rightarrow> HVLBuf option" where
  "HVLBuf_append xs b = HVLBuf_push_back xs b"

definition HVLBuf_insert :: "byte list \<Rightarrow> HVLBuf \<Rightarrow> HVLBuf option" where
  "HVLBuf_insert xs b = HVLBuf_push_back xs b"

definition HVLBuf_remove :: "nat \<Rightarrow> HVLBuf \<Rightarrow> HVLBuf option" where
  "HVLBuf_remove n b = map_option snd (HVLBuf_pop_front n b)"

subsection \<open>HRingBuf\<close>

record HRingBuf = HBuf +
  rb_head :: nat
  rb_tail :: nat
  rb_size :: nat

definition HRingBuf_new :: "nat \<Rightarrow> HRingBuf" where
  "HRingBuf_new cap = \<lparr>hb_null = cap = 0, hb_mem = replicate cap 0, hb_cleanup = cap \<noteq> 0, rb_head = 0, rb_tail = 0, rb_size = 0\<rparr>"

text \<open>The index of the piece handed out, or \<open>None\<close> for \<open>NULL\<close>.\<close>

definition HRingBuf_alloc :: "nat \<Rightarrow> HRingBuf \<Rightarrow> nat option \<times> HRingBuf" where
  "HRingBuf_alloc n b =
     (let l = length (hb_mem b);
          (ret, b) =
            (if rb_head b < rb_tail b \<or> rb_size b = 0 then
               if l - rb_tail b \<ge> n then
                 let t = rb_tail b + n in (Some (rb_tail b), b\<lparr>rb_tail := (if t = l then 0 else t)\<rparr>)
               else if rb_head b \<ge> n then (Some 0, b\<lparr>rb_tail := n\<rparr>)
               else (None, b)
             else if rb_head b - rb_tail b \<ge> n then (Some (rb_tail b), b\<lparr>rb_tail := rb_tail b + n\<rparr>)
             else (None, b))
      in (ret, b\<lparr>rb_size := rb_size b + (if ret \<noteq> None then n else 0)\<rparr>))"

definition HRingBuf_free :: "nat \<Rightarrow> HRingBuf \<Rightarrow> HRingBuf" where
  "HRingBuf_free n b =
     (let b = b\<lparr>rb_size := rb_size b - n\<rparr>; l = length (hb_mem b) in
      if n \<le> l - rb_head b then let h = rb_head b + n in b\<lparr>rb_head := (if h = l then 0 else h)\<rparr>
      else b\<lparr>rb_head := n\<rparr>)"

definition HRingBuf_clear :: "HRingBuf \<Rightarrow> HRingBuf" where
  "HRingBuf_clear b = b\<lparr>rb_head := 0, rb_tail := 0, rb_size := 0\<rparr>"

section \<open>The variable-length buffer as a deque\<close>

definition vl_content :: "HVLBuf \<Rightarrow> byte list" where
  "vl_content b = take (vl_size b) (drop (vl_offset b) (hb_mem b))"

text \<open>The run lies in the block, and the block may be enlarged.\<close>

definition vl_ok :: "HVLBuf \<Rightarrow> bool" where
  "vl_ok b \<longleftrightarrow> vl_offset b + vl_size b \<le> length (hb_mem b) \<and> (hb_null b \<or> hb_cleanup b) \<and> (hb_null b \<longrightarrow> length (hb_mem b) = 0)"

lemma vl_content_upd:
  "vl_content (b\<lparr>hb_mem := m, vl_size := k\<rparr>) = take k (drop (vl_offset b) m)"
  "vl_content (b\<lparr>hb_mem := m, vl_offset := i\<rparr>) = take (vl_size b) (drop i m)"
  "vl_content (b\<lparr>hb_mem := m, vl_offset := i, vl_size := k\<rparr>) = take k (drop i m)"
  "vl_content (b\<lparr>vl_offset := i, vl_size := k\<rparr>) = take k (drop i (hb_mem b))"
  "vl_content (b\<lparr>vl_size := k\<rparr>) = take k (drop (vl_offset b) (hb_mem b))"
  by (simp_all add: vl_content_def)

lemma vl_content_length: "vl_ok b \<Longrightarrow> length (vl_content b) = vl_size b"
  by (auto simp: vl_ok_def vl_content_def)

lemma resize_ok:
  assumes "vl_ok b" "length (hb_mem b) \<le> cap"
  shows "\<exists>b'. HBuf_resize cap b = Some b' \<and> vl_ok b' \<and> length (hb_mem b') = cap \<and> vl_offset b' = vl_offset b \<and> vl_size b' = vl_size b \<and>
    vl_content b' = vl_content b"
  using assms by (auto simp: HBuf_resize_def vl_ok_def vl_content_def drop_take_resize_cells)

lemma move_ok:
  assumes "vl_ok b" "e + vl_size b \<le> length (hb_mem b)"
  shows "\<exists>m. move_cells (hb_mem b) e (vl_offset b) (vl_size b) = Some m \<and> length m = length (hb_mem b) \<and> take (vl_size b) (drop e m) = vl_content b"
  using assms by (auto simp: move_cells_def vl_ok_def vl_content_def)

lemma grow_ok:
  assumes "vl_ok b"
  shows "\<exists>c. HBuf_resize (max (length (hb_mem b)) n * 2) b = Some c \<and> vl_ok c \<and> vl_content c = vl_content b \<and> vl_offset c = vl_offset b \<and>
    vl_size c = vl_size b \<and> vl_offset c + vl_size c + n \<le> length (hb_mem c)"
proof -
  have "length (hb_mem b) \<le> max (length (hb_mem b)) n * 2" "length (hb_mem b) + n \<le> max (length (hb_mem b)) n * 2" by simp_all
  then show ?thesis using resize_ok [OF assms, of "max (length (hb_mem b)) n * 2"] assms by (auto simp: vl_ok_def)
qed

lemma room_back_ok:
  assumes "vl_ok b"
  shows "\<exists>c. room_back n b = Some c \<and> vl_ok c \<and> vl_content c = vl_content b \<and> vl_offset c + vl_size c + n \<le> length (hb_mem c)"
proof -
  let ?l = "length (hb_mem b)"
  consider "n > ?l - vl_size b" | "n \<le> ?l - vl_size b" "n > ?l - vl_offset b - vl_size b" | "n \<le> ?l - vl_size b" "n \<le> ?l - vl_offset b - vl_size b"
    by linarith
  then show ?thesis
  proof cases
    case 1
    then show ?thesis using grow_ok [OF assms, of n] by (auto simp: room_back_def)
  next
    case 2
    obtain m where "move_cells (hb_mem b) 0 (vl_offset b) (vl_size b) = Some m" "length m = ?l" "take (vl_size b) m = vl_content b"
      using move_ok [OF assms, of 0] assms by (auto simp: vl_ok_def)
    then show ?thesis using 2 assms by (auto simp: room_back_def vl_ok_def vl_content_upd)
  next
    case 3
    then show ?thesis using assms by (auto simp: room_back_def vl_ok_def)
  qed
qed

lemma push_back_ok:
  assumes "vl_ok b"
  shows "\<exists>b'. HVLBuf_push_back xs b = Some b' \<and> vl_ok b' \<and> vl_content b' = vl_content b @ xs"
proof -
  obtain c where c: "room_back (length xs) b = Some c" "vl_ok c" "vl_content c = vl_content b" "vl_offset c + vl_size c + length xs \<le> length (hb_mem c)"
    using room_back_ok [OF assms] by blast
  define m where "m = take (vl_offset c + vl_size c) (hb_mem c) @ xs @ drop (vl_offset c + vl_size c + length xs) (hb_mem c)"
  have p: "put_cells (hb_mem c) (vl_offset c + vl_size c) xs = Some m" "length m = length (hb_mem c)" using c(4) by (simp_all add: put_cells_def m_def)
  have "take (vl_size c + length xs) (drop (vl_offset c) m) = vl_content c @ xs"
    using c(4) by (simp add: m_def vl_content_def drop_take)
  then show ?thesis using c p by (auto simp: HVLBuf_push_back_def vl_ok_def vl_content_upd)
qed

lemma room_front_ok:
  assumes "vl_ok b"
  shows "\<exists>c. room_front n b = Some c \<and> vl_ok c \<and> vl_content c = vl_content b \<and> n \<le> vl_offset c"
proof -
  obtain c where c: "(if n > length (hb_mem b) - vl_size b then HBuf_resize (max (length (hb_mem b)) n * 2) b else Some b) = Some c" "vl_ok c"
    "vl_content c = vl_content b" "vl_size c + n \<le> length (hb_mem c)"
    using grow_ok [OF assms, of n] assms by (cases "n > length (hb_mem b) - vl_size b") (auto simp: vl_ok_def)
  show ?thesis
  proof (cases "vl_offset c < n")
    case True
    let ?e = "length (hb_mem c) - vl_size c"
    obtain m where "move_cells (hb_mem c) ?e (vl_offset c) (vl_size c) = Some m" "length m = length (hb_mem c)" "take (vl_size c) (drop ?e m) = vl_content c"
      using move_ok [OF c(2), of ?e] c(4) by auto
    then show ?thesis using True c vl_content_length [OF c(2)] by (auto simp: room_front_def vl_ok_def vl_content_upd)
  next
    case False
    then show ?thesis using c by (simp add: room_front_def)
  qed
qed

lemma push_front_ok:
  assumes "vl_ok b"
  shows "\<exists>b'. HVLBuf_push_front xs b = Some b' \<and> vl_ok b' \<and> vl_content b' = xs @ vl_content b"
proof -
  obtain c where c: "room_front (length xs) b = Some c" "vl_ok c" "vl_content c = vl_content b" "length xs \<le> vl_offset c"
    using room_front_ok [OF assms] by blast
  define m where "m = take (vl_offset c - length xs) (hb_mem c) @ xs @ drop (vl_offset c) (hb_mem c)"
  have o: "vl_offset c \<le> length (hb_mem c)" using c(2) by (simp add: vl_ok_def)
  have p: "put_cells (hb_mem c) (vl_offset c - length xs) xs = Some m" "length m = length (hb_mem c)" using c(4) o by (simp_all add: put_cells_def m_def)
  have "take (vl_size c + length xs) (drop (vl_offset c - length xs) m) = xs @ vl_content c"
    using c(4) o by (simp add: m_def vl_content_def)
  then show ?thesis using c p by (auto simp: HVLBuf_push_front_def Let_def vl_ok_def vl_content_upd)
qed

lemma pop_front_ok:
  assumes "vl_ok b" "n \<le> length (vl_content b)"
  shows "\<exists>b'. HVLBuf_pop_front n b = Some (take n (vl_content b), b') \<and> vl_ok b' \<and> vl_content b' = drop n (vl_content b)"
proof -
  have n: "n \<le> vl_size b" "vl_offset b + vl_size b \<le> length (hb_mem b)" using assms vl_content_length [OF assms(1)] by (simp_all add: vl_ok_def)
  have t: "take n (vl_content b) = take n (drop (vl_offset b) (hb_mem b))" using n by (simp add: vl_content_def min_def)
  have d: "drop n (vl_content b) = take (vl_size b - n) (drop (vl_offset b + n) (hb_mem b))" by (simp add: vl_content_def drop_take add.commute)
  show ?thesis using n t d assms(1) by (auto simp: HVLBuf_pop_front_def vl_ok_def vl_content_upd)
qed

lemma pop_back_ok:
  assumes "vl_ok b" "n \<le> length (vl_content b)"
  shows "\<exists>b'. HVLBuf_pop_back n b = Some (drop (length (vl_content b) - n) (vl_content b), b') \<and> vl_ok b' \<and>
    vl_content b' = take (length (vl_content b) - n) (vl_content b)"
proof -
  have l: "length (vl_content b) = vl_size b" by (rule vl_content_length [OF assms(1)])
  have n: "n \<le> vl_size b" "vl_offset b + vl_size b \<le> length (hb_mem b)" using assms l by (simp_all add: vl_ok_def)
  have t: "take (vl_size b - n) (vl_content b) = take (vl_size b - n) (drop (vl_offset b) (hb_mem b))" by (simp add: vl_content_def min_def)
  have d: "drop (vl_size b - n) (vl_content b) = take n (drop (vl_offset b + vl_size b - n) (hb_mem b))" using n(1) by (simp add: vl_content_def drop_take add.commute)
  show ?thesis using n t d assms(1) l by (auto simp: HVLBuf_pop_back_def vl_ok_def vl_content_upd)
qed

lemma pop_short:
  assumes "vl_ok b" "length (vl_content b) < n"
  shows "HVLBuf_pop_front n b = Some ([], b)" "HVLBuf_pop_back n b = Some ([], b)"
  using assms vl_content_length [OF assms(1)] by (simp_all add: HVLBuf_pop_front_def HVLBuf_pop_back_def)

section \<open>The ring buffer\<close>

text \<open>
  The pieces handed out and not yet given back, oldest first, as pairs of start and length.  They follow one another from \<open>head\<close>;
  when the end of the block has been passed, the pieces after it follow one another from index 0.
\<close>

fun chain :: "nat \<Rightarrow> (nat \<times> nat) list \<Rightarrow> nat \<Rightarrow> bool" where
  "chain i [] e \<longleftrightarrow> e = i"
| "chain i ((s, n) # ps) e \<longleftrightarrow> s = i \<and> 0 < n \<and> chain (i + n) ps e"

definition wrap_at :: "nat \<Rightarrow> nat \<Rightarrow> nat" where
  "wrap_at l i = (if i = l then 0 else i)"

definition in_order :: "nat \<Rightarrow> nat \<Rightarrow> nat \<Rightarrow> (nat \<times> nat) list \<Rightarrow> bool" where
  "in_order l head tail ps \<longleftrightarrow> (\<exists>e. chain head ps e \<and> e \<le> l \<and> tail = wrap_at l e)"

definition wrapped :: "nat \<Rightarrow> nat \<Rightarrow> nat \<Rightarrow> (nat \<times> nat) list \<Rightarrow> bool" where
  "wrapped l head tail ps \<longleftrightarrow>
     (\<exists>ps1 n ps2 e. ps = ps1 @ (0, n) # ps2 \<and> chain head ps1 e \<and> (e < l \<and> l - e < n \<or> e = l) \<and>
        chain 0 ((0, n) # ps2) tail \<and> tail \<le> head)"

definition rb_inv :: "HRingBuf \<Rightarrow> (nat \<times> nat) list \<Rightarrow> bool" where
  "rb_inv b ps \<longleftrightarrow> rb_size b = sum_list (map snd ps) \<and> rb_head b < length (hb_mem b) \<and>
     (in_order (length (hb_mem b)) (rb_head b) (rb_tail b) ps \<or> wrapped (length (hb_mem b)) (rb_head b) (rb_tail b) ps)"

definition piece_free :: "nat \<Rightarrow> (nat \<times> nat) list \<Rightarrow> nat \<times> nat \<Rightarrow> bool" where
  "piece_free l ps p \<longleftrightarrow> fst p + snd p \<le> l \<and> list_all (\<lambda>q. fst p + snd p \<le> fst q \<or> fst q + snd q \<le> fst p) ps"

lemma chain_append: "chain i (ps @ qs) e \<longleftrightarrow> (\<exists>m. chain i ps m \<and> chain m qs e)"
  by (induction i ps e rule: chain.induct) auto

lemma chain_bounds: "chain i ps e \<Longrightarrow> i \<le> e \<and> list_all (\<lambda>q. i \<le> fst q \<and> fst q + snd q \<le> e) ps"
  by (induction ps arbitrary: i) (fastforce simp: list_all_iff)+

lemma chain_sum: "chain i ps e \<Longrightarrow> e = i + sum_list (map snd ps)"
  by (induction i ps e rule: chain.induct) auto

lemma wrapped_size: "wrapped l h t ps \<Longrightarrow> sum_list (map snd ps) \<noteq> 0"
  by (auto simp: wrapped_def)

lemma free_wrapped:
  assumes "wrapped l h t ps" "t + n \<le> h" "h < l"
  shows "piece_free l ps (t, n)"
  using assms chain_bounds unfolding wrapped_def piece_free_def list_all_iff by fastforce

lemma free_in_order:
  assumes "chain h ps e" "e + n \<le> l"
  shows "piece_free l ps (e, n)"
  using assms chain_bounds [OF assms(1)] by (auto simp: piece_free_def list_all_iff)

lemma free_before:
  assumes "chain h ps e" "n \<le> h" "h < l"
  shows "piece_free l ps (0, n)"
  using assms chain_bounds [OF assms(1)] by (fastforce simp: piece_free_def list_all_iff)

lemma HRingBuf_alloc_ok:
  assumes "rb_inv b ps" "0 < n" "HRingBuf_alloc n b = (Some i, b')"
  shows "piece_free (length (hb_mem b)) ps (i, n) \<and> rb_inv b' (ps @ [(i, n)]) \<and> hb_mem b' = hb_mem b"
proof -
  let ?l = "length (hb_mem b)" and ?h = "rb_head b" and ?t = "rb_tail b"
  have sz: "rb_size b = sum_list (map snd ps)" and h: "?h < ?l" using assms(1) by (simp_all add: rb_inv_def)
  consider (order) e where "chain ?h ps e" "e < ?l" "?t = e" | (full) "chain ?h ps ?l" "?t = 0" "rb_size b \<noteq> 0" | (wrap) "wrapped ?l ?h ?t ps"
    using assms(1) h chain_sum [of ?h ps ?l] by (auto simp: rb_inv_def in_order_def wrap_at_def split: if_splits)
  then show ?thesis
  proof cases
    case order
    have s: "rb_size b = 0 \<or> ?h < ?t" using chain_sum [OF order(1)] order(3) sz by linarith
    show ?thesis
    proof (cases "n \<le> ?l - ?t")
      case True
      have "in_order ?l ?h (wrap_at ?l (?t + n)) (ps @ [(?t, n)])"
        using order True assms(2) by (auto simp: in_order_def chain_append)
      then show ?thesis using True s assms(2,3) sz h free_in_order [OF order(1), of n ?l] order
        by (auto simp: HRingBuf_alloc_def Let_def rb_inv_def wrap_at_def split: if_splits)
    next
      case False
      then have "n \<le> ?h" "i = 0" "b' = b\<lparr>rb_tail := n, rb_size := rb_size b + n\<rparr>"
        using s assms(3) by (auto simp: HRingBuf_alloc_def Let_def split: if_splits)
      moreover have "wrapped ?l ?h n (ps @ [(0, n)])" if "n \<le> ?h"
        unfolding wrapped_def using order False assms(2) that by (intro exI [of _ ps] exI [of _ n] exI [of _ "[]"] exI [of _ e]) auto
      ultimately show ?thesis using sz h free_before [OF order(1), of n ?l] by (simp add: rb_inv_def)
    qed
  next
    case full
    have b: "n \<le> ?h" "i = 0" "b' = b\<lparr>rb_tail := n, rb_size := rb_size b + n\<rparr>"
      using full(2,3) assms(3) by (auto simp: HRingBuf_alloc_def Let_def split: if_splits)
    moreover have "wrapped ?l ?h n (ps @ [(0, n)])"
      unfolding wrapped_def using full b(1) assms(2) by (intro exI [of _ ps] exI [of _ n] exI [of _ "[]"] exI [of _ ?l]) auto
    ultimately show ?thesis using sz h free_before [OF full(1), of n ?l] by (simp add: rb_inv_def)
  next
    case wrap
    have t: "?t \<le> ?h" using wrap by (auto simp: wrapped_def)
    have b: "?t + n \<le> ?h" "i = ?t" "b' = b\<lparr>rb_tail := ?t + n, rb_size := rb_size b + n\<rparr>"
      using wrapped_size [OF wrap] sz t assms(3) by (auto simp: HRingBuf_alloc_def Let_def split: if_splits)
    moreover have "wrapped ?l ?h (?t + n) (ps @ [(?t, n)])"
    proof -
      obtain ps1 m ps2 e where w: "ps = ps1 @ (0, m) # ps2" "chain ?h ps1 e" "e < ?l \<and> ?l - e < m \<or> e = ?l" "chain 0 ((0, m) # ps2) ?t"
        using wrap by (auto simp: wrapped_def)
      have "chain 0 ((0, m) # ps2 @ [(?t, n)]) (?t + n)" using w(4) assms(2) by (simp add: chain_append)
      then show ?thesis unfolding wrapped_def using w b(1)
        by (intro exI [of _ ps1] exI [of _ m] exI [of _ "ps2 @ [(?t, n)]"] exI [of _ e]) simp
    qed
    ultimately show ?thesis using sz h free_wrapped [OF wrap b(1) h] by (simp add: rb_inv_def)
  qed
qed

lemma HRingBuf_free_ok:
  assumes "rb_inv b ((s, n) # ps)"
  shows "rb_inv (HRingBuf_free n b) ps \<and> hb_mem (HRingBuf_free n b) = hb_mem b"
proof -
  let ?l = "length (hb_mem b)" and ?h = "rb_head b" and ?t = "rb_tail b"
  have sz: "rb_size b - n = sum_list (map snd ps)" and h: "?h < ?l" using assms by (simp_all add: rb_inv_def)
  let ?b = "b\<lparr>rb_size := rb_size b - n\<rparr>"
  consider (order) e where "chain (?h + n) ps e" "e \<le> ?l" "?t = wrap_at ?l e" "0 < n"
    | (wrap) ps1 m ps2 e where "ps = ps1 @ (0, m) # ps2" "chain (?h + n) ps1 e" "e < ?l \<and> ?l - e < m \<or> e = ?l" "chain 0 ((0, m) # ps2) ?t" "?t \<le> ?h" "0 < n"
    | (skip) "?l - ?h < n" "chain n ps ?t" "?t \<le> ?h" "0 < n"
  proof -
    from assms consider "in_order ?l ?h ?t ((s, n) # ps)" | "wrapped ?l ?h ?t ((s, n) # ps)" by (auto simp: rb_inv_def)
    then show ?thesis
    proof cases
      case 1
      then show ?thesis using that(1) by (auto simp: in_order_def)
    next
      case 2
      then obtain ps1 m ps2 e where w: "(s, n) # ps = ps1 @ (0, m) # ps2" "chain ?h ps1 e" "e < ?l \<and> ?l - e < m \<or> e = ?l" "chain 0 ((0, m) # ps2) ?t" "?t \<le> ?h"
        unfolding wrapped_def by blast
      then show ?thesis using that(2,3) h by (cases ps1) auto
    qed
  qed
  then show ?thesis
  proof cases
    case order
    have n: "n \<le> ?l - ?h" using chain_bounds [OF order(1)] order(2) h by auto
    have "in_order ?l (wrap_at ?l (?h + n)) ?t ps"
    proof (cases "?h + n = ?l")
      case True
      then have "ps = []" "e = ?l" using order(1,2) chain_bounds by (cases ps; fastforce)+
      then show ?thesis using True order(3) by (simp add: in_order_def wrap_at_def)
    qed (use order in \<open>auto simp: in_order_def wrap_at_def\<close>)
    then show ?thesis using n sz h order(4) by (auto simp: HRingBuf_free_def Let_def rb_inv_def wrap_at_def)
  next
    case wrap
    have n: "n \<le> ?l - ?h" using chain_bounds [OF wrap(2)] wrap(3) h by auto
    have "in_order ?l 0 ?t ps \<and> ?h + n = ?l \<or> wrapped ?l (?h + n) ?t ps \<and> ?h + n < ?l"
    proof (cases "?h + n = ?l")
      case True
      then have "ps1 = []" using wrap(2,3) chain_bounds [OF wrap(2)] by (cases ps1) auto
      then have "in_order ?l 0 ?t ps" unfolding in_order_def using wrap(1,4,5) h by (intro exI [of _ ?t]) (simp add: wrap_at_def)
      then show ?thesis using True by simp
    next
      case False
      then show ?thesis using wrap n unfolding wrapped_def by fastforce
    qed
    then show ?thesis using n sz h by (auto simp: HRingBuf_free_def Let_def rb_inv_def)
  next
    case skip
    then have "in_order ?l n ?t ps" unfolding in_order_def using h by (intro exI [of _ ?t]) (simp add: wrap_at_def)
    moreover have "n < ?l" using chain_bounds [OF skip(2)] skip(3) h by auto
    ultimately show ?thesis using skip sz by (auto simp: HRingBuf_free_def Let_def rb_inv_def)
  qed
qed

text \<open>A client of the ring buffer: it asks for pieces and gives them back in the order in which it got them.\<close>

datatype ring_op = Alloc nat | Free

fun ring_step :: "ring_op \<Rightarrow> HRingBuf \<times> (nat \<times> nat) list \<Rightarrow> HRingBuf \<times> (nat \<times> nat) list" where
  "ring_step (Alloc n) (b, ps) = (case HRingBuf_alloc n b of (Some i, b) \<Rightarrow> (b, ps @ [(i, n)]) | (None, b) \<Rightarrow> (b, ps))"
| "ring_step Free (b, []) = (b, [])"
| "ring_step Free (b, (s, n) # ps) = (HRingBuf_free n b, ps)"

definition op_ok :: "ring_op \<Rightarrow> bool" where
  "op_ok r = (case r of Alloc n \<Rightarrow> 0 < n | Free \<Rightarrow> True)"

definition pieces_ok :: "nat \<Rightarrow> (nat \<times> nat) list \<Rightarrow> bool" where
  "pieces_ok l ps \<longleftrightarrow> list_all (\<lambda>p. fst p + snd p \<le> l) ps \<and> sorted_wrt (\<lambda>q p. fst p + snd p \<le> fst q \<or> fst q + snd q \<le> fst p) ps"

lemma HRingBuf_alloc_null: "HRingBuf_alloc n b = (None, b') \<Longrightarrow> b' = b"
  by (auto simp: HRingBuf_alloc_def Let_def split: if_splits)

lemma ring_step_ok:
  assumes "rb_inv b ps" "pieces_ok (length (hb_mem b)) ps" "op_ok r" "ring_step r (b, ps) = (b', ps')"
  shows "rb_inv b' ps' \<and> pieces_ok (length (hb_mem b')) ps' \<and> length (hb_mem b') = length (hb_mem b)"
proof (cases r)
  case (Alloc n)
  show ?thesis
  proof (cases "HRingBuf_alloc n b")
    case (Pair i c)
    then show ?thesis using assms Alloc HRingBuf_alloc_ok [OF assms(1), of n] HRingBuf_alloc_null
      by (cases i) (auto simp: op_ok_def pieces_ok_def piece_free_def sorted_wrt_append list_all_iff)
  qed
next
  case Free
  then show ?thesis using assms HRingBuf_free_ok [of b "fst (hd ps)" "snd (hd ps)" "tl ps"]
    by (cases ps) (auto simp: pieces_ok_def)
qed

lemma ring_steps_ok:
  assumes "rb_inv b ps" "pieces_ok (length (hb_mem b)) ps" "list_all op_ok rs" "fold ring_step rs (b, ps) = (b', ps')"
  shows "rb_inv b' ps' \<and> pieces_ok (length (hb_mem b)) ps'"
  using assms
proof (induction rs arbitrary: b ps)
  case (Cons r rs)
  obtain c qs where c: "ring_step r (b, ps) = (c, qs)" by (cases "ring_step r (b, ps)")
  have "op_ok r" using Cons.prems(3) by simp
  note o = ring_step_ok [OF Cons.prems(1,2) this c]
  show ?case using Cons.IH [of c qs] o Cons.prems(3,4) c by auto
qed simp

section \<open>Properties\<close>

text \<open>
  C14: \<open>HVLBuf\<close> is a deque of bytes: on a buffer whose run lies in its block, both pushes succeed and add the bytes at their end,
  both pops take them from their end when there are enough and change nothing otherwise, and the run stays in the block.
\<close>
theorem hvlbuf_deque:
  assumes "vl_ok b"
  shows "(\<exists>b'. HVLBuf_push_back xs b = Some b' \<and> vl_ok b' \<and> vl_content b' = vl_content b @ xs) \<and>
    (\<exists>b'. HVLBuf_push_front xs b = Some b' \<and> vl_ok b' \<and> vl_content b' = xs @ vl_content b) \<and>
    (\<exists>b'. HVLBuf_pop_front n b = Some (if n \<le> length (vl_content b) then take n (vl_content b) else [], b') \<and> vl_ok b' \<and>
       vl_content b' = (if n \<le> length (vl_content b) then drop n (vl_content b) else vl_content b)) \<and>
    (\<exists>b'. HVLBuf_pop_back n b = Some (if n \<le> length (vl_content b) then drop (length (vl_content b) - n) (vl_content b) else [], b') \<and> vl_ok b' \<and>
       vl_content b' = (if n \<le> length (vl_content b) then take (length (vl_content b) - n) (vl_content b) else vl_content b)) \<and>
    vl_ok (HVLBuf_clear b) \<and> vl_content (HVLBuf_clear b) = []"
proof -
  have "vl_ok (HVLBuf_clear b)" "vl_content (HVLBuf_clear b) = []" using assms by (simp_all add: vl_ok_def HVLBuf_clear_def vl_content_def)
  then show ?thesis using push_back_ok [OF assms] push_front_ok [OF assms] pop_front_ok [OF assms] pop_back_ok [OF assms] pop_short [OF assms] assms
    by (cases "n \<le> length (vl_content b)") simp_all
qed

theorem hvlbuf_deque_witness:
  "\<exists>b c. HVLBuf_push_back [1, 2] HVLBuf_new = Some b \<and> vl_content b = [1, 2] \<and> HVLBuf_push_front [7] b = Some c \<and> vl_content c = [7, 1, 2]"
proof -
  have n: "vl_ok HVLBuf_new" "vl_content HVLBuf_new = []" by (simp_all add: vl_ok_def HVLBuf_new_def vl_content_def)
  show ?thesis using hvlbuf_deque [OF n(1), of "[1, 2]" 0] hvlbuf_deque [of _ "[7]" 0] n(2) by fastforce
qed

text \<open>
  A buffer that wraps memory of the caller cannot grow: the first push that needs room passes that memory to \<open>realloc\<close>.
\<close>
lemma hvlbuf_wrapped_push_fails: "xs \<noteq> [] \<Longrightarrow> HVLBuf_push_back xs (HVLBuf_wrap data) = None"
proof -
  assume "xs \<noteq> []"
  moreover have "max (length data) (length xs) * 2 \<noteq> length data" if "xs \<noteq> []" using that by (cases xs) (auto simp: max_def)
  ultimately show ?thesis by (simp add: HVLBuf_push_back_def room_back_def HVLBuf_wrap_def HBuf_resize_def)
qed

lemma hvlbuf_wrapped_push_fails_witness: "HVLBuf_push_back [1] (HVLBuf_wrap [5, 6, 7]) = None"
  by (rule hvlbuf_wrapped_push_fails) simp

text \<open>
  C13: as long as the pieces of a ring buffer are given back in the order in which they were handed out, the pieces in use lie in
  the block, no two of them overlap, and \<open>size()\<close> is the sum of their lengths.
\<close>
theorem ring_pieces_disjoint:
  assumes "0 < cap" "list_all op_ok rs" "fold ring_step rs (HRingBuf_new cap, []) = (b, ps)"
  shows "pieces_ok cap ps \<and> rb_size b = sum_list (map snd ps)"
proof -
  have "rb_inv (HRingBuf_new cap) []" using assms(1) by (simp add: rb_inv_def HRingBuf_new_def in_order_def wrap_at_def)
  moreover have "length (hb_mem (HRingBuf_new cap)) = cap" "pieces_ok cap []" by (simp_all add: HRingBuf_new_def pieces_ok_def)
  ultimately show ?thesis using ring_steps_ok [of "HRingBuf_new cap" "[]" rs b ps] assms(2,3) by (simp add: rb_inv_def)
qed

theorem ring_pieces_disjoint_witness:
  "snd (fold ring_step [Alloc 4, Alloc 3, Free, Alloc 2, Alloc 3] (HRingBuf_new 8, [])) = [(4, 3), (0, 2)] \<and> pieces_ok 8 [(4, 3), (0, 2)]"
proof -
  have e: "snd (fold ring_step [Alloc 4, Alloc 3, Free, Alloc 2, Alloc 3] (HRingBuf_new 8, [])) = [(4, 3), (0, 2)]" by code_simp
  moreover have "list_all op_ok [Alloc 4, Alloc 3, Free, Alloc 2, Alloc 3]" by (simp add: op_ok_def)
  ultimately show ?thesis
    using ring_pieces_disjoint [of 8 "[Alloc 4, Alloc 3, Free, Alloc 2, Alloc 3]"] by (metis prod.collapse zero_less_numeral)
qed

end
