(* ===== verification/Hv_Sha1.thy ===== *)
theory Hv_Sha1
  imports Hv_Digest
begin

unbundle bit_operations_syntax

section \<open>SHA-1 (util/sha1.c)\<close>

text \<open>
  The transform with its unrolled sequence of 80 macro calls, which is kept as it is in the code: a list of calls over
  five registers.  The context and its operations, on a little-endian machine.  A \<open>memcpy\<close> past the end of the
  buffer and a read past the end of the data are failures.
\<close>

definition rol :: "u32 \<Rightarrow> nat \<Rightarrow> u32" where
  "rol value bits = push_bit bits value OR drop_bit (32 - bits) value"

text \<open>\<open>blk0\<close> and \<open>blk\<close> assign to a word of the block; its value is read after that.\<close>

definition blk0 :: "u32 list \<Rightarrow> nat \<Rightarrow> u32 list" where
  "blk0 l i = l[i := (rol (l ! i) 24 AND 0xFF00FF00) OR (rol (l ! i) 8 AND 0x00FF00FF)]"

definition blk :: "u32 list \<Rightarrow> nat \<Rightarrow> u32 list" where
  "blk l i = l[i mod 16 := rol (l ! ((i + 13) mod 16) XOR l ! ((i + 8) mod 16) XOR l ! ((i + 2) mod 16) XOR l ! (i mod 16)) 1]"

datatype sha1_reg = RA | RB | RC | RD | RE
datatype sha1_macro = R0 | R1 | R2 | R3 | R4

type_synonym sha1_call = "sha1_macro \<times> sha1_reg \<times> sha1_reg \<times> sha1_reg \<times> sha1_reg \<times> sha1_reg \<times> nat"
type_synonym sha1_vars = "(sha1_reg \<Rightarrow> u32) \<times> u32 list"

definition sha1_mix :: "sha1_macro \<Rightarrow> u32 \<Rightarrow> u32 \<Rightarrow> u32 \<Rightarrow> u32" where
  "sha1_mix m w x y =
     (case m of
        R0 \<Rightarrow> (w AND (x XOR y)) XOR y
      | R1 \<Rightarrow> (w AND (x XOR y)) XOR y
      | R2 \<Rightarrow> w XOR x XOR y
      | R3 \<Rightarrow> ((w OR x) AND y) OR (w AND x)
      | R4 \<Rightarrow> w XOR x XOR y)"

definition sha1_const :: "sha1_macro \<Rightarrow> u32" where
  "sha1_const m =
     (case m of R0 \<Rightarrow> 0x5A827999 | R1 \<Rightarrow> 0x5A827999 | R2 \<Rightarrow> 0x6ED9EBA1 | R3 \<Rightarrow> 0x8F1BBCDC | R4 \<Rightarrow> 0xCA62C1D6)"

definition sha1_exec :: "sha1_call \<Rightarrow> sha1_vars \<Rightarrow> sha1_vars" where
  "sha1_exec call vars =
     (case call of (m, v, w, x, y, z, i) \<Rightarrow>
        let (r, l) = vars;
            l = (if m = R0 then blk0 l i else blk l i);
            r = r(z := r z + (sha1_mix m (r w) (r x) (r y) + l ! (i mod 16) + sha1_const m + rol (r v) 5));
            r = r(w := rol (r w) 30)
        in (r, l))"

definition sha1_calls :: "sha1_call list" where
  "sha1_calls =
     [(R0, RA, RB, RC, RD, RE, 0), (R0, RE, RA, RB, RC, RD, 1), (R0, RD, RE, RA, RB, RC, 2), (R0, RC, RD, RE, RA, RB, 3),
      (R0, RB, RC, RD, RE, RA, 4), (R0, RA, RB, RC, RD, RE, 5), (R0, RE, RA, RB, RC, RD, 6), (R0, RD, RE, RA, RB, RC, 7),
      (R0, RC, RD, RE, RA, RB, 8), (R0, RB, RC, RD, RE, RA, 9), (R0, RA, RB, RC, RD, RE, 10), (R0, RE, RA, RB, RC, RD, 11),
      (R0, RD, RE, RA, RB, RC, 12), (R0, RC, RD, RE, RA, RB, 13), (R0, RB, RC, RD, RE, RA, 14), (R0, RA, RB, RC, RD, RE, 15),
      (R1, RE, RA, RB, RC, RD, 16), (R1, RD, RE, RA, RB, RC, 17), (R1, RC, RD, RE, RA, RB, 18), (R1, RB, RC, RD, RE, RA, 19),
      (R2, RA, RB, RC, RD, RE, 20), (R2, RE, RA, RB, RC, RD, 21), (R2, RD, RE, RA, RB, RC, 22), (R2, RC, RD, RE, RA, RB, 23),
      (R2, RB, RC, RD, RE, RA, 24), (R2, RA, RB, RC, RD, RE, 25), (R2, RE, RA, RB, RC, RD, 26), (R2, RD, RE, RA, RB, RC, 27),
      (R2, RC, RD, RE, RA, RB, 28), (R2, RB, RC, RD, RE, RA, 29), (R2, RA, RB, RC, RD, RE, 30), (R2, RE, RA, RB, RC, RD, 31),
      (R2, RD, RE, RA, RB, RC, 32), (R2, RC, RD, RE, RA, RB, 33), (R2, RB, RC, RD, RE, RA, 34), (R2, RA, RB, RC, RD, RE, 35),
      (R2, RE, RA, RB, RC, RD, 36), (R2, RD, RE, RA, RB, RC, 37), (R2, RC, RD, RE, RA, RB, 38), (R2, RB, RC, RD, RE, RA, 39),
      (R3, RA, RB, RC, RD, RE, 40), (R3, RE, RA, RB, RC, RD, 41), (R3, RD, RE, RA, RB, RC, 42), (R3, RC, RD, RE, RA, RB, 43),
      (R3, RB, RC, RD, RE, RA, 44), (R3, RA, RB, RC, RD, RE, 45), (R3, RE, RA, RB, RC, RD, 46), (R3, RD, RE, RA, RB, RC, 47),
      (R3, RC, RD, RE, RA, RB, 48), (R3, RB, RC, RD, RE, RA, 49), (R3, RA, RB, RC, RD, RE, 50), (R3, RE, RA, RB, RC, RD, 51),
      (R3, RD, RE, RA, RB, RC, 52), (R3, RC, RD, RE, RA, RB, 53), (R3, RB, RC, RD, RE, RA, 54), (R3, RA, RB, RC, RD, RE, 55),
      (R3, RE, RA, RB, RC, RD, 56), (R3, RD, RE, RA, RB, RC, 57), (R3, RC, RD, RE, RA, RB, 58), (R3, RB, RC, RD, RE, RA, 59),
      (R4, RA, RB, RC, RD, RE, 60), (R4, RE, RA, RB, RC, RD, 61), (R4, RD, RE, RA, RB, RC, 62), (R4, RC, RD, RE, RA, RB, 63),
      (R4, RB, RC, RD, RE, RA, 64), (R4, RA, RB, RC, RD, RE, 65), (R4, RE, RA, RB, RC, RD, 66), (R4, RD, RE, RA, RB, RC, 67),
      (R4, RC, RD, RE, RA, RB, 68), (R4, RB, RC, RD, RE, RA, 69), (R4, RA, RB, RC, RD, RE, 70), (R4, RE, RA, RB, RC, RD, 71),
      (R4, RD, RE, RA, RB, RC, 72), (R4, RC, RD, RE, RA, RB, 73), (R4, RB, RC, RD, RE, RA, 74), (R4, RA, RB, RC, RD, RE, 75),
      (R4, RE, RA, RB, RC, RD, 76), (R4, RD, RE, RA, RB, RC, 77), (R4, RC, RD, RE, RA, RB, 78), (R4, RB, RC, RD, RE, RA, 79)]"

text \<open>The 64 bytes of a block as the sixteen words of the union, on a little-endian machine.\<close>

definition le_word :: "byte \<Rightarrow> byte \<Rightarrow> byte \<Rightarrow> byte \<Rightarrow> u32" where
  "le_word a b c d = ucast a OR push_bit 8 (ucast b) OR push_bit 16 (ucast c) OR push_bit 24 (ucast d)"

fun le_words :: "byte list \<Rightarrow> u32 list" where
  "le_words (a # b # c # d # bs) = le_word a b c d # le_words bs"
| "le_words _ = []"

definition HV_SHA1Transform :: "u32 list \<Rightarrow> byte list \<Rightarrow> u32 list" where
  "HV_SHA1Transform state buffer =
     (let r = (\<lambda>q. case q of RA \<Rightarrow> state ! 0 | RB \<Rightarrow> state ! 1 | RC \<Rightarrow> state ! 2 | RD \<Rightarrow> state ! 3 | RE \<Rightarrow> state ! 4);
          (r, l) = fold sha1_exec sha1_calls (r, le_words buffer)
      in [state ! 0 + r RA, state ! 1 + r RB, state ! 2 + r RC, state ! 3 + r RD, state ! 4 + r RE])"

record HV_SHA1_CTX =
  sha_state :: "u32 list"
  sha_count0 :: u32
  sha_count1 :: u32
  sha_buffer :: "byte list"

text \<open>The buffer of a new context is whatever the caller's memory holds.\<close>

definition HV_SHA1Init :: "byte list \<Rightarrow> HV_SHA1_CTX" where
  "HV_SHA1Init mem = \<lparr>sha_state = [0x67452301, 0xEFCDAB89, 0x98BADCFE, 0x10325476, 0xC3D2E1F0], sha_count0 = 0, sha_count1 = 0,
     sha_buffer = mem\<rparr>"

text \<open>The loop of \<open>HV_SHA1Update\<close> over the whole blocks of the data; a read past the data is a failure.\<close>

partial_function (option) sha1_blocks :: "u32 list \<Rightarrow> byte list \<Rightarrow> u32 \<Rightarrow> u32 \<Rightarrow> (u32 list \<times> u32) option" where
  "sha1_blocks state data i len =
     (if i + 63 < len then
        if unat i + 64 \<le> length data then sha1_blocks (HV_SHA1Transform state (take 64 (drop (unat i) data))) data (i + 64) len
        else None
      else Some (state, i))"

text \<open>The bit count, and its carry.\<close>

definition sha1_count :: "HV_SHA1_CTX \<Rightarrow> u32 \<Rightarrow> HV_SHA1_CTX" where
  "sha1_count context len =
     (let j = sha_count0 context;
          count0 = j + push_bit 3 len;
          count1 = (if count0 < j then sha_count1 context + 1 else sha_count1 context) + drop_bit 29 len
      in context\<lparr>sha_count0 := count0, sha_count1 := count1\<rparr>)"

definition HV_SHA1Update :: "HV_SHA1_CTX \<Rightarrow> byte list \<Rightarrow> HV_SHA1_CTX option" where
  "HV_SHA1Update context data = do {
     let len = of_nat (length data);
     let j = drop_bit 3 (sha_count0 context) AND 63;
     let context = sha1_count context len;
     (context, i, j) \<leftarrow>
       (if j + len > 63 then do {
          let i = 64 - j;
          buffer \<leftarrow> copy_into (sha_buffer context) (unat j) (take (unat i) data);
          (state, i) \<leftarrow> sha1_blocks (HV_SHA1Transform (sha_state context) buffer) data i len;
          Some (context\<lparr>sha_state := state, sha_buffer := buffer\<rparr>, i, 0) }
        else Some (context, 0, j));
     buffer \<leftarrow> copy_into (sha_buffer context) (unat j) (drop (unat i) data);
     Some (context\<lparr>sha_buffer := buffer\<rparr>) }"

text \<open>The padding loop of \<open>HV_SHA1Final\<close>.\<close>

partial_function (option) sha1_pad :: "HV_SHA1_CTX \<Rightarrow> HV_SHA1_CTX option" where
  "sha1_pad context =
     (if sha_count0 context AND 504 \<noteq> 448 then Option.bind (HV_SHA1Update context [0]) sha1_pad else Some context)"

declare sha1_pad.simps [code] sha1_blocks.simps [code]

definition be_bytes :: "u32 \<Rightarrow> byte list" where
  "be_bytes w = map (\<lambda>i. ucast (drop_bit ((3 - i) * 8) w AND 255)) [0, 1, 2, 3]"

definition HV_SHA1Final :: "HV_SHA1_CTX \<Rightarrow> byte list option" where
  "HV_SHA1Final context = do {
     let finalcount = be_bytes (sha_count1 context) @ be_bytes (sha_count0 context);
     context \<leftarrow> HV_SHA1Update context [0x80];
     context \<leftarrow> sha1_pad context;
     context \<leftarrow> HV_SHA1Update context finalcount;
     Some (concat (map be_bytes (sha_state context))) }"

definition HV_SHA1 :: "byte list \<Rightarrow> byte list \<Rightarrow> byte list option" where
  "HV_SHA1 mem str = do {
     ctx \<leftarrow> feed HV_SHA1Update (HV_SHA1Init mem) (map (\<lambda>c. [c]) str);
     hash \<leftarrow> HV_SHA1Final ctx;
     Some (hash @ [0]) }"

definition hv_sha1 :: "byte list \<Rightarrow> byte list \<Rightarrow> byte list option" where
  "hv_sha1 mem input = do {
     ctx \<leftarrow> HV_SHA1Update (HV_SHA1Init mem) input;
     HV_SHA1Final ctx }"

definition i2hex :: "byte \<Rightarrow> byte" where
  "i2hex i = (if i < 10 then i + 48 else i - 10 + 97)"

text \<open>The bytes \<open>hv_sha1_hex\<close> writes.\<close>

definition hv_sha1_hex :: "byte list \<Rightarrow> byte list \<Rightarrow> nat \<Rightarrow> byte list option" where
  "hv_sha1_hex mem input outputlen =
     (if outputlen < 40 then Some []
      else do {
        digest \<leftarrow> hv_sha1 mem input;
        let output = concat (map (\<lambda>d. [i2hex (drop_bit 4 d), i2hex (d AND 0x0F)]) digest);
        Some (if outputlen > 40 then output @ [0] else output) })"

end
