(* ===== verification/Sha1_Rounds.thy ===== *)
theory Sha1_Rounds
  imports Hv_Sha1
begin

unbundle bit_operations_syntax

section \<open>The unrolled SHA-1 rounds are the standard's loop\<close>

text \<open>
  The reference compression function in the words of FIPS 180, with its schedule of 80 words, and that the
  80 macro calls of \<open>HV_SHA1Transform\<close>, with sixteen words used as a ring and five rotating registers, compute it.
\<close>

subsection \<open>Bits\<close>

lemma byte_bit: "bit (a :: byte) n \<Longrightarrow> n < 8"
  by (drule bit_imp_le_length) simp

lemma masks: "(0xFF00FF00 :: u32) = push_bit 24 (mask 8) OR push_bit 8 (mask 8)" "(0x00FF00FF :: u32) = push_bit 16 (mask 8) OR mask 8"
  by code_simp+

lemma bit_le_word: "bit (le_word a b c d) n \<longleftrightarrow> n < 32 \<and> (if n < 8 then bit a n else if n < 16 then bit b (n - 8) else if n < 24 then bit c (n - 16) else bit d (n - 24))"
  by (auto simp: le_word_def bit_simps dest: byte_bit)

lemma swap_bytes: "(rol (le_word a b c d) 24 AND 0xFF00FF00) OR (rol (le_word a b c d) 8 AND 0x00FF00FF) = le_word d c b a"
proof (rule bit_word_eqI)
  fix n assume n: "n < LENGTH(32)"
  then have n: "n < 32" by simp
  have "n < 8 \<or> (\<exists>k < 8. n = 8 + k) \<or> (\<exists>k < 8. n = 16 + k) \<or> (\<exists>k < 8. n = 24 + k)" using n by presburger
  then show "bit ((rol (le_word a b c d) 24 AND 0xFF00FF00) OR (rol (le_word a b c d) 8 AND 0x00FF00FF)) n = bit (le_word d c b a) n"
    unfolding masks by (elim disjE exE conjE) (simp_all add: rol_def bit_simps bit_le_word)
qed

lemma sha1_mix_ch: "(w AND (x XOR y)) XOR y = (w AND x) OR (NOT w AND y)" for w x y :: u32
  by (rule bit_word_eqI) (auto simp: bit_simps)

lemma sha1_mix_maj: "((w OR x) AND y) OR (w AND x) = (w AND x) OR (w AND y) OR (x AND y)" for w x y :: u32
  by (rule bit_word_eqI) (auto simp: bit_simps)


subsection \<open>The reference\<close>

fun be_words :: "byte list \<Rightarrow> u32 list" where
  "be_words (a # b # c # d # bs) = le_word d c b a # be_words bs"
| "be_words _ = []"

primrec sha1_schedule :: "u32 list \<Rightarrow> nat \<Rightarrow> u32 list" where
  "sha1_schedule ws 0 = ws"
| "sha1_schedule ws (Suc n) =
     (let l = sha1_schedule ws n in l @ [rol (l ! (n + 13) XOR l ! (n + 8) XOR l ! (n + 2) XOR l ! n) 1])"

definition sha1_f :: "nat \<Rightarrow> u32 \<Rightarrow> u32 \<Rightarrow> u32 \<Rightarrow> u32" where
  "sha1_f t b c d =
     (if t < 20 then (b AND c) OR (NOT b AND d)
      else if t < 40 then b XOR c XOR d
      else if t < 60 then (b AND c) OR (b AND d) OR (c AND d)
      else b XOR c XOR d)"

definition sha1_k :: "nat \<Rightarrow> u32" where
  "sha1_k t = (if t < 20 then 0x5A827999 else if t < 40 then 0x6ED9EBA1 else if t < 60 then 0x8F1BBCDC else 0xCA62C1D6)"

definition sha1_round :: "u32 list \<Rightarrow> nat \<Rightarrow> u32 \<times> u32 \<times> u32 \<times> u32 \<times> u32 \<Rightarrow> u32 \<times> u32 \<times> u32 \<times> u32 \<times> u32" where
  "sha1_round ws t = (\<lambda>(a, b, c, d, e). (rol a 5 + sha1_f t b c d + e + sha1_k t + ws ! t, a, rol b 30, c, d))"

definition sha1_compress :: "u32 list \<Rightarrow> byte list \<Rightarrow> u32 list" where
  "sha1_compress state block =
     (let ws = sha1_schedule (be_words block) 64;
          (a, b, c, d, e) = fold (sha1_round ws) [0..<80] (state ! 0, state ! 1, state ! 2, state ! 3, state ! 4)
      in [state ! 0 + a, state ! 1 + b, state ! 2 + c, state ! 3 + d, state ! 4 + e])"

text \<open>The pattern of the unrolled calls.\<close>

definition sha1_regs :: "sha1_reg list" where
  "sha1_regs = [RA, RE, RD, RC, RB]"

definition rg :: "nat \<Rightarrow> sha1_reg" where
  "rg i = sha1_regs ! (i mod 5)"

definition sha1_call_at :: "nat \<Rightarrow> sha1_call" where
  "sha1_call_at i =
     ((if i < 16 then R0 else if i < 20 then R1 else if i < 40 then R2 else if i < 60 then R3 else R4),
      rg i, rg (i + 4), rg (i + 3), rg (i + 2), rg (i + 1), i)"

lemma sha1_calls_at: "sha1_calls = map sha1_call_at [0..<80]"
  by code_simp

lemma schedule_length [simp]: "length (sha1_schedule ws n) = length ws + n"
  by (induction n) (simp_all add: Let_def)

lemma schedule_prefix: "i < length ws + n \<Longrightarrow> n \<le> m \<Longrightarrow> sha1_schedule ws m ! i = sha1_schedule ws n ! i"
proof (induction m)
  case (Suc m)
  then show ?case by (cases "n \<le> m") (auto simp: Let_def nth_append le_Suc_eq)
qed simp

lemma schedule_step:
  assumes "length ws = 16" "16 \<le> t" "t < 80"
  shows "sha1_schedule ws 64 ! t = rol (sha1_schedule ws 64 ! (t - 3) XOR sha1_schedule ws 64 ! (t - 8) XOR
    sha1_schedule ws 64 ! (t - 14) XOR sha1_schedule ws 64 ! (t - 16)) 1"
proof -
  define n where "n = t - 16"
  have n: "t = n + 16" "n < 64" using assms(2,3) by (simp_all add: n_def)
  have e: "sha1_schedule ws 64 ! i = sha1_schedule ws n ! i" if "i < n + 16" for i
    using schedule_prefix [of i ws n 64] that assms(1) n by simp
  have "sha1_schedule ws 64 ! t = sha1_schedule ws (Suc n) ! (n + 16)" using schedule_prefix [of t ws "Suc n" 64] assms(1) n by simp
  also have "\<dots> = rol (sha1_schedule ws n ! (n + 13) XOR sha1_schedule ws n ! (n + 8) XOR sha1_schedule ws n ! (n + 2) XOR sha1_schedule ws n ! n) 1"
    using assms(1) by (simp add: Let_def nth_append)
  finally show ?thesis using e n by (simp add: add.commute)
qed


lemma rg_distinct: "distinct [rg i, rg (i + 1), rg (i + 2), rg (i + 3), rg (i + 4)]"
proof -
  have "list_all (\<lambda>q. distinct (map (\<lambda>k. sha1_regs ! ((q + k) mod 5)) [0, 1, 2, 3, 4])) [0..<5]" by code_simp
  moreover have "i mod 5 \<in> set [0..<5]" by simp
  ultimately have "distinct (map (\<lambda>k. sha1_regs ! ((i mod 5 + k) mod 5)) [0, 1, 2, 3, 4])" by (simp only: list_all_iff)
  thus ?thesis by (simp only: mod_add_left_eq rg_def list.map add_0_right)
qed

lemma rg_cycle: "rg (i + 5) = rg i"
  by (simp add: rg_def)

lemma words_length: "length bs = 4 * n \<Longrightarrow> length (le_words bs) = n \<and> length (be_words bs) = n"
proof (induction n arbitrary: bs)
  case (Suc n)
  then obtain a b c d cs where "bs = a # b # c # d # cs" "length cs = 4 * n"
    by (cases bs; cases "tl bs"; cases "tl (tl bs)"; cases "tl (tl (tl bs))") auto
  then show ?case using Suc.IH by simp
qed simp

lemma words_swap: "i < length (le_words bs) \<Longrightarrow> (rol (le_words bs ! i) 24 AND 0xFF00FF00) OR (rol (le_words bs ! i) 8 AND 0x00FF00FF) = be_words bs ! i"
  by (induction bs arbitrary: i rule: le_words.induct) (auto simp: nth_Cons swap_bytes split: nat.split)

subsection \<open>The ring of words\<close>

definition block_inv :: "byte list \<Rightarrow> nat \<Rightarrow> u32 list \<Rightarrow> bool" where
  "block_inv bs i l \<longleftrightarrow> length l = 16 \<and> (\<forall>k. i \<le> k \<longrightarrow> k < 16 \<longrightarrow> l ! k = le_words bs ! k) \<and>
     (\<forall>k. k < i \<longrightarrow> i \<le> k + 16 \<longrightarrow> l ! (k mod 16) = sha1_schedule (be_words bs) 64 ! k)"

lemma block_inv_blk0:
  assumes "length bs = 64" "block_inv bs i l" "i < 16"
  shows "block_inv bs (Suc i) (blk0 l i) \<and> blk0 l i ! (i mod 16) = sha1_schedule (be_words bs) 64 ! i"
proof -
  have w: "length (le_words bs) = 16" "length (be_words bs) = 16" using words_length [of bs 16] assms(1) by simp_all
  have "sha1_schedule (be_words bs) 64 ! i = be_words bs ! i" using schedule_prefix [of i "be_words bs" 0 64] w assms(3) by simp
  also have "\<dots> = (rol (l ! i) 24 AND 0xFF00FF00) OR (rol (l ! i) 8 AND 0x00FF00FF)"
    using words_swap [of i bs] w assms(2,3) by (simp add: block_inv_def)
  finally show ?thesis using assms(2,3) by (auto simp: block_inv_def blk0_def nth_list_update less_Suc_eq)
qed

lemma block_inv_blk:
  assumes "length bs = 64" "block_inv bs i l" "16 \<le> i" "i < 80"
  shows "block_inv bs (Suc i) (blk l i) \<and> blk l i ! (i mod 16) = sha1_schedule (be_words bs) 64 ! i"
proof -
  let ?W = "sha1_schedule (be_words bs) 64"
  have w: "length (be_words bs) = 16" using words_length [of bs 16] assms(1) by simp
  have k: "l ! (k mod 16) = ?W ! k" if "k < i" "i \<le> k + 16" for k using assms(2) that by (simp add: block_inv_def)
  define n where "n = i - 16"
  have n: "i = n + 16" using assms(3) by (simp add: n_def)
  have m: "(i + 13) mod 16 = (i - 3) mod 16" "(i + 8) mod 16 = (i - 8) mod 16" "(i + 2) mod 16 = (i - 14) mod 16" "i mod 16 = (i - 16) mod 16"
    using mod_add_self2 [of "n + 13" 16] mod_add_self2 [of "n + 8" 16] mod_add_self2 [of "n + 2" 16] n by (simp_all add: add.commute)
  have v: "rol (l ! ((i + 13) mod 16) XOR l ! ((i + 8) mod 16) XOR l ! ((i + 2) mod 16) XOR l ! (i mod 16)) 1 = ?W ! i"
    unfolding m(1,2,3) using k [of "i - 3"] k [of "i - 8"] k [of "i - 14"] k [of "i - 16"] m(4) schedule_step [OF w assms(3,4)] assms(3) by simp
  have ne: "k mod 16 \<noteq> i mod 16" if "k < i" "Suc i \<le> k + 16" for k 
    using that mod_eq_dvd_iff_nat [of k i 16] by (auto dest: dvd_imp_le)
  have b: "blk l i = l[i mod 16 := ?W ! i]" unfolding blk_def v ..
  have l: "length l = 16" using assms(2) by (simp add: block_inv_def)
  have "blk l i ! (k mod 16) = ?W ! k" if "k < Suc i" "Suc i \<le> k + 16" for k
    using that ne [of k] k [of k] l by (cases "k = i") (simp_all add: b)
  then show ?thesis using l assms(3) by (simp add: block_inv_def b)
qed

subsection \<open>The registers\<close>

definition reg_tuple :: "nat \<Rightarrow> (sha1_reg \<Rightarrow> u32) \<Rightarrow> u32 \<times> u32 \<times> u32 \<times> u32 \<times> u32" where
  "reg_tuple i r = (r (rg i), r (rg (i + 4)), r (rg (i + 3)), r (rg (i + 2)), r (rg (i + 1)))"

lemma sha1_exec_round:
  assumes "length bs = 64" "block_inv bs i l" "i < 80" "sha1_exec (sha1_call_at i) (r, l) = (r', l')"
  shows "block_inv bs (Suc i) l' \<and> reg_tuple (Suc i) r' = sha1_round (sha1_schedule (be_words bs) 64) i (reg_tuple i r)"
proof -
  let ?W = "sha1_schedule (be_words bs) 64"
  define m where "m = (if i < 16 then R0 else if i < 20 then R1 else if i < 40 then R2 else if i < 60 then R3 else R4)"
  define l1 where "l1 = (if m = R0 then blk0 l i else blk l i)"
  have l1: "block_inv bs (Suc i) l1 \<and> l1 ! (i mod 16) = ?W ! i"
    using block_inv_blk0 [OF assms(1,2)] block_inv_blk [OF assms(1,2) _ assms(3)] by (cases "i < 16") (simp_all add: l1_def m_def)
  have mx: "sha1_mix m w x y = sha1_f i w x y" "sha1_const m = sha1_k i" for w x y
    by (simp_all add: m_def sha1_mix_def sha1_f_def sha1_const_def sha1_k_def sha1_mix_ch sha1_mix_maj)
  have c: "rg (Suc i + 4) = rg i" "Suc i + 3 = i + 4" "Suc i + 2 = i + 3" "Suc i + 1 = i + 2" using rg_cycle [of i] by (simp_all add: add.commute)
  have t: "reg_tuple (Suc i) r' = (r' (rg (i + 1)), r' (rg i), r' (rg (i + 4)), r' (rg (i + 3)), r' (rg (i + 2)))"
    unfolding reg_tuple_def c unfolding Suc_eq_plus1 ..
  have r': "l' = l1" "r' = (r(rg (i + 1) := r (rg (i + 1)) + (sha1_f i (r (rg (i + 4))) (r (rg (i + 3))) (r (rg (i + 2))) + ?W ! i + sha1_k i + rol (r (rg i)) 5)))
      (rg (i + 4) := rol (r (rg (i + 4))) 30)"
    using assms(4) rg_distinct [of i] l1 by (auto simp: sha1_exec_def sha1_call_at_def Let_def mx simp flip: m_def l1_def)
  show ?thesis using l1 rg_distinct [of i] unfolding t unfolding r' reg_tuple_def by (auto simp: sha1_round_def ac_simps)
qed


lemma sha1_exec_rounds:
  assumes "length bs = 64" "n \<le> 80" "fold sha1_exec (map sha1_call_at [0..<n]) (r, le_words bs) = (r', l')"
  shows "block_inv bs n l' \<and> reg_tuple n r' = fold (sha1_round (sha1_schedule (be_words bs) 64)) [0..<n] (reg_tuple 0 r)"
  using assms(2,3)
proof (induction n arbitrary: r' l')
  case 0
  then show ?case using words_length [of bs 16] assms(1) by (simp add: block_inv_def)
next
  case (Suc n)
  obtain r1 l1 where f: "fold sha1_exec (map sha1_call_at [0..<n]) (r, le_words bs) = (r1, l1)" by fastforce
  have ih: "block_inv bs n l1" "reg_tuple n r1 = fold (sha1_round (sha1_schedule (be_words bs) 64)) [0..<n] (reg_tuple 0 r)"
    using Suc.IH [OF _ f] Suc.prems(1) by simp_all
  have "sha1_exec (sha1_call_at n) (r1, l1) = (r', l')" using Suc.prems(2) f by simp
  from sha1_exec_round [OF assms(1) ih(1) _ this] Suc.prems(1) ih(2) show ?case by simp
qed

lemma transform_compress: "length buffer = 64 \<Longrightarrow> HV_SHA1Transform state buffer = sha1_compress state buffer"
proof -
  assume b: "length buffer = 64"
  define r0 where "r0 = (\<lambda>q. case q of RA \<Rightarrow> state ! 0 | RB \<Rightarrow> state ! 1 | RC \<Rightarrow> state ! 2 | RD \<Rightarrow> state ! 3 | RE \<Rightarrow> state ! 4)"
  obtain r l where f: "fold sha1_exec sha1_calls (r0, le_words buffer) = (r, l)" by fastforce
  have e: "HV_SHA1Transform state buffer = (let (r, l) = fold sha1_exec sha1_calls (r0, le_words buffer) in
      [state ! 0 + r RA, state ! 1 + r RB, state ! 2 + r RC, state ! 3 + r RD, state ! 4 + r RE])"
    by (simp only: HV_SHA1Transform_def r0_def Let_def)
  have "reg_tuple 80 r = fold (sha1_round (sha1_schedule (be_words buffer) 64)) [0..<80] (reg_tuple 0 r0)"
    using sha1_exec_rounds [OF b le_refl f [unfolded sha1_calls_at]] by blast
  moreover have "reg_tuple 80 r = (r RA, r RB, r RC, r RD, r RE)" "reg_tuple 0 r0 = (state ! 0, state ! 1, state ! 2, state ! 3, state ! 4)"
    by (simp_all add: reg_tuple_def rg_def sha1_regs_def r0_def)
  ultimately have "fold (sha1_round (sha1_schedule (be_words buffer) 64)) [0..<80] (state ! 0, state ! 1, state ! 2, state ! 3, state ! 4)
      = (r RA, r RB, r RC, r RD, r RE)" by simp
  thus ?thesis unfolding e f sha1_compress_def by (simp add: Let_def)
qed

end
