(* ===== verification/Sha1_Correct.thy ===== *)
theory Sha1_Correct
  imports Sha1_Rounds
begin

unbundle bit_operations_syntax

section \<open>SHA-1 contexts compute SHA-1\<close>

text \<open>
  The context of \<open>sha1.c\<close> meets the contract of \<open>digest\<close>; \<open>HV_SHA1Final\<close> pads as the standard says; so both entry points,
  in one update or byte by byte, return the reference digest.
\<close>

subsection \<open>Updates\<close>

definition sha_rep :: "HV_SHA1_CTX \<Rightarrow> u32 list \<Rightarrow> byte list \<Rightarrow> nat \<Rightarrow> bool" where
  "sha_rep ctx s p n \<longleftrightarrow> sha_state ctx = s \<and> length (sha_buffer ctx) = 64 \<and> p = take (n mod 64) (sha_buffer ctx) \<and>
     sha_count0 ctx = bits_lo n \<and> sha_count1 ctx = bits_hi n"

lemma sha1_count_rep:
  assumes "sha_rep ctx s p n" "L < 2 ^ 32"
  shows "sha1_count ctx (of_nat L) = ctx\<lparr>sha_count0 := bits_lo (n + L), sha_count1 := bits_hi (n + L)\<rparr>"
  using assms(1) count_carry [OF assms(2), of n] unfolding sha_rep_def sha1_count_def by (simp add: Let_def bits_lo_add split: if_splits)

lemma sha1_blocks_ok:
  assumes "length data < 2 ^ 32 - 64" "i \<le> length data"
  shows "sha1_blocks s data (of_nat i) (of_nat (length data)) =
    Some (fst (absorb HV_SHA1Transform s (drop i data)), of_nat (length data - (length data - i) mod 64))"
  using assms
proof (induction "length data - i" arbitrary: i s rule: less_induct)
  case less
  have c: "(of_nat i + 63 :: u32) < of_nat (length data) \<longleftrightarrow> i + 63 < length data"
  proof -
    have "of_nat i + 63 = (of_nat (i + 63) :: u32)" by simp
    moreover have "unat (of_nat (i + 63) :: u32) = i + 63" "unat (of_nat (length data) :: u32) = length data"
      using less.prems by (intro unat_of_nat32; simp)+
    ultimately show ?thesis by (simp only: word_less_nat_alt)
  qed
  show ?case
  proof (cases "i + 63 < length data")
    case True
    have u: "unat (of_nat i :: u32) = i" using less.prems True by (simp add: unat_of_nat32)
    have e: "of_nat i + 64 = (of_nat (i + 64) :: u32)" by simp
    have "sha1_blocks s data (of_nat i) (of_nat (length data)) =
        sha1_blocks (HV_SHA1Transform s (take 64 (drop i data))) data (of_nat (i + 64)) (of_nat (length data))"
      using c True u e by (subst sha1_blocks.simps) simp
    also have "\<dots> = Some (fst (absorb HV_SHA1Transform (HV_SHA1Transform s (take 64 (drop i data))) (drop (i + 64) data)),
        of_nat (length data - (length data - (i + 64)) mod 64))"
      using less.prems True by (intro less.hyps) simp_all
    also have "absorb HV_SHA1Transform (HV_SHA1Transform s (take 64 (drop i data))) (drop (i + 64) data) = absorb HV_SHA1Transform s (drop i data)"
      using True by (auto simp: absorb.simps [of _ s "drop i data"] add.commute)
    also have "(length data - (i + 64)) mod 64 = (length data - i) mod 64" using True by (simp add: le_mod_geq [of 64 "length data - i"])
    finally show ?thesis .
  next
    case False
    then show ?thesis using c less.prems by (subst sha1_blocks.simps) simp
  qed
qed


lemma sha_rep_mod: "sha_rep ctx s p n \<Longrightarrow> length p = n mod 64"
  by (auto simp: sha_rep_def)

lemma of_nat_add_gt:
  assumes "j < 64" "L < 2 ^ 32 - 64"
  shows "(of_nat j + of_nat L > (63 :: u32)) = (63 < j + L)"
proof -
  have "unat (of_nat (j + L) :: u32) = j + L" using assms by (intro unat_of_nat32) simp
  thus ?thesis by (simp only: word_less_nat_alt of_nat_add [symmetric]) simp
qed

lemma HV_SHA1Update_short:
  assumes "sha_rep ctx s p n" "length data < 2 ^ 32 - 64" "n mod 64 + length data \<le> 63"
  shows "\<exists>ctx'. HV_SHA1Update ctx data = Some ctx' \<and> sha_rep ctx' s (p @ data) (n + length data)"
proof -
  let ?j = "n mod 64"
  have g: "\<not> (63 :: u32) < of_nat ?j + of_nat (length data)" using of_nat_add_gt [of ?j "length data"] assms by simp
  have u: "unat (of_nat ?j :: u32) = ?j" by (rule mod64_word)
  obtain b where b: "copy_into (sha_buffer ctx) ?j data = Some b" "length b = 64" "take (?j + length data) b = take ?j (sha_buffer ctx) @ data"
    using copy_into_ok [of ?j data "sha_buffer ctx"] assms by (auto simp: sha_rep_def)
  have L: "length data < 2 ^ 32" using assms(2) by simp
  have l: "(n + length data) mod 64 = ?j + length data" using assms(3) by (simp add: mod_add_left_eq [of n 64, symmetric])
  show ?thesis
    using assms(1) g u b l by (simp add: HV_SHA1Update_def Let_def count_index sha_rep_def sha1_count_rep [OF assms(1) L])
qed


lemma HV_SHA1Update_long:
  assumes "sha_rep ctx s p n" "length data < 2 ^ 32 - 64" "63 < n mod 64 + length data"
  shows "\<exists>ctx'. HV_SHA1Update ctx data = Some ctx' \<and>
    sha_rep ctx' (fst (absorb HV_SHA1Transform s (p @ data))) (snd (absorb HV_SHA1Transform s (p @ data))) (n + length data)"
proof -
  let ?j = "n mod 64" and ?L = "length data" and ?i = "64 - n mod 64" and ?f = HV_SHA1Transform
  have g: "(63 :: u32) < of_nat ?j + of_nat ?L" using of_nat_add_gt [of ?j ?L] assms by simp
  have L: "?L < 2 ^ 32" using assms(2) by simp
  have i: "?i \<le> ?L" using assms(3) by simp
  have c: "drop_bit 3 (sha_count0 ctx) AND 63 = of_nat ?j" "sha_state ctx = s" "p = take ?j (sha_buffer ctx)" "length (sha_buffer ctx) = 64"
    using assms(1) count_index by (simp_all add: sha_rep_def)
  define r where "r = ?L - (?L - ?i) mod 64"
  obtain b b2 where b: "copy_into (sha_buffer ctx) ?j (take ?i data) = Some b" "copy_into b 0 (drop r data) = Some b2" "length b2 = 64"
      "absorb ?f s (p @ data) = (fst (absorb ?f (?f s b) (drop ?i data)), take ((n + ?L) mod 64) b2)"
    using refill [OF c(4) refl i, of ?f s] c(3) by (auto simp: r_def)
  have bl: "sha1_blocks (?f s b) data (of_nat ?i) (of_nat ?L) = Some (fst (absorb ?f (?f s b) (drop ?i data)), of_nat r)"
    using sha1_blocks_ok [OF assms(2) i] by (simp only: r_def)
  have ur: "unat (of_nat r :: u32) = r" using assms(2) unfolding r_def by (intro unat_of_nat32) simp
  let ?k = "ctx\<lparr>sha_count0 := bits_lo (n + ?L), sha_count1 := bits_hi (n + ?L), sha_state := fst (absorb ?f s (p @ data)), sha_buffer := b2\<rparr>"
  have "HV_SHA1Update ctx data = Some ?k"
    using g b bl ur c(1,2) by (simp add: HV_SHA1Update_def Let_def sha1_count_rep [OF assms(1) L] mod64_word part_word del: of_nat_diff)
  moreover have "sha_rep ?k (fst (absorb ?f s (p @ data))) (snd (absorb ?f s (p @ data))) (n + ?L)"
    using b(3,4) by (simp add: sha_rep_def)
  ultimately show ?thesis by blast
qed

interpretation sha: digest HV_SHA1Transform HV_SHA1Update sha_rep "2 ^ 32 - 64"
proof
  show "\<exists>c'. HV_SHA1Update c xs = Some c' \<and> sha_rep c' (fst (absorb HV_SHA1Transform s (p @ xs))) (snd (absorb HV_SHA1Transform s (p @ xs))) (n + length xs)"
    if "sha_rep c s p n" "length xs < 2 ^ 32 - 64" for c s p n xs
    using HV_SHA1Update_short [OF that] HV_SHA1Update_long [OF that] sha_rep_mod [OF that(1)]
    by (cases "63 < n mod 64 + length xs") (auto simp: not_less)
qed simp


subsection \<open>Padding\<close>

definition sha1_padding :: "nat \<Rightarrow> byte list" where
  "sha1_padding n = 0x80 # replicate ((119 - n mod 64) mod 64) 0 @ be_bytes (bits_hi n) @ be_bytes (bits_lo n)"

text \<open>The reference digest of a message.\<close>

definition sha1_reference :: "byte list \<Rightarrow> byte list" where
  "sha1_reference msg =
     concat (map be_bytes (fst (absorb sha1_compress [0x67452301, 0xEFCDAB89, 0x98BADCFE, 0x10325476, 0xC3D2E1F0]
       (msg @ sha1_padding (length msg)))))"

lemma count_full: "(bits_lo n AND 504 \<noteq> 448) = (n mod 64 \<noteq> 56)"
proof -
  have e: "bits_lo n AND 504 = push_bit 3 (of_nat n AND 63)"
  proof -
    have "bits_lo n = push_bit 3 (of_nat n)" by (simp add: bits_lo_def push_bit_eq_mult)
    moreover have "(504 :: u32) = push_bit 3 63" by simp
    ultimately show ?thesis by (simp only: push_bit_and [symmetric])
  qed
  have m: "of_nat n AND 63 = (of_nat (n mod 64) :: u32)"
  proof -
    have "of_nat n AND 63 = take_bit 6 (of_nat n :: u32)" by (simp add: take_bit_eq_mask mask_eq_exp_minus_1)
    thus ?thesis by (simp only: take_bit_of_nat) (simp add: take_bit_eq_mod)
  qed
  have "push_bit 3 (of_nat (n mod 64) :: u32) = of_nat (8 * (n mod 64))" by (simp add: push_bit_eq_mult)
  moreover have "unat (of_nat (8 * (n mod 64)) :: u32) = 8 * (n mod 64)"
    using mod_less_divisor [of 64 n] by (intro unat_of_nat32) simp
  ultimately have "unat (bits_lo n AND 504) = 8 * (n mod 64)" unfolding e m by simp
  moreover have "unat (448 :: u32) = 448" by simp
  ultimately show ?thesis by (simp only: word_unat_eq_iff) simp
qed

lemma pad_next:
  fixes x y :: nat
  assumes "x < 64" "Suc k = (120 - x) mod 64" "y = (if Suc x = 64 then 0 else Suc x)"
  shows "k = (120 - y) mod 64"
proof -
  have k: "Suc k = (if x \<le> 56 then 56 - x else 120 - x)" using assms(1,2) pad_length by simp
  have "y < 64" using assms(1,3) by simp
  hence "(120 - y) mod 64 = (if y \<le> 56 then 56 - y else 120 - y)" by (rule pad_length)
  thus ?thesis using k assms(1,3) by (simp split: if_splits)
qed

lemma sha1_pad_ok:
  "k = (120 - n mod 64) mod 64 \<Longrightarrow> sha_rep ctx s p n \<Longrightarrow>
     \<exists>ctx'. sha1_pad ctx = Some ctx' \<and> sha_rep ctx' (fst (absorb HV_SHA1Transform s (p @ replicate k 0)))
       (snd (absorb HV_SHA1Transform s (p @ replicate k 0))) (n + k)"
proof (induction k arbitrary: ctx s p n)
  case 0
  have "n mod 64 < 64" by simp
  with 0(1) have "n mod 64 = 56" unfolding pad_length [OF \<open>n mod 64 < 64\<close>] by (simp split: if_splits)
  then show ?case using 0(2) sha_rep_mod [OF 0(2)] count_full [of n] by (subst sha1_pad.simps) (simp add: sha_rep_def)
next
  case (Suc k)
  have l: "n mod 64 < 64" by simp
  have ne: "n mod 64 \<noteq> 56" using Suc.prems(1) by auto
  have k: "k = (120 - (n + 1) mod 64) mod 64"
    by (rule pad_next [OF l Suc.prems(1)]) (simp add: mod_Suc)
  let ?a = "absorb HV_SHA1Transform s (p @ [0])"
  obtain c where c: "HV_SHA1Update ctx [0] = Some c" "sha_rep c (fst ?a) (snd ?a) (n + 1)" using sha.upd_ok [OF Suc.prems(2), of "[0]"] by auto
  obtain c' where c': "sha1_pad c = Some c'" "sha_rep c' (fst (absorb HV_SHA1Transform (fst ?a) (snd ?a @ replicate k 0)))
      (snd (absorb HV_SHA1Transform (fst ?a) (snd ?a @ replicate k 0))) (n + 1 + k)"
    using Suc.IH [OF k c(2)] by blast
  have "absorb HV_SHA1Transform (fst ?a) (snd ?a @ replicate k 0) = absorb HV_SHA1Transform s (p @ replicate (Suc k) 0)"
    using absorb_append [of HV_SHA1Transform s "p @ [0]" "replicate k 0"] by (simp add: case_prod_beta)
  moreover have "sha1_pad ctx = sha1_pad c"
    using Suc.prems(2) c(1) ne count_full [of n] by (subst sha1_pad.simps) (simp add: sha_rep_def)
  ultimately show ?case using c' by simp
qed


lemma HV_SHA1Final_ok:
  assumes "sha_rep ctx s p n"
  shows "HV_SHA1Final ctx = Some (concat (map be_bytes (fst (absorb HV_SHA1Transform s (p @ sha1_padding n)))))"
proof -
  let ?f = HV_SHA1Transform
  let ?k = "(119 - n mod 64) mod 64"
  let ?c = "be_bytes (bits_hi n) @ be_bytes (bits_lo n)"
  let ?a1 = "absorb ?f s (p @ [0x80])"
  obtain c1 where c1: "HV_SHA1Update ctx [0x80] = Some c1" "sha_rep c1 (fst ?a1) (snd ?a1) (n + 1)" using sha.upd_ok [OF assms, of "[0x80]"] by auto
  have k: "?k = (120 - (n + 1) mod 64) mod 64"
  proof -
    have l: "n mod 64 < 64" by simp
    show ?thesis
    proof (cases "n mod 64 = 63")
      case True
      then show ?thesis using mod_Suc [of n 64] by simp
    qed (use mod_Suc [of n 64] in simp)
  qed
  let ?a2 = "absorb ?f (fst ?a1) (snd ?a1 @ replicate ?k 0)"
  obtain c2 where c2: "sha1_pad c1 = Some c2" "sha_rep c2 (fst ?a2) (snd ?a2) (n + 1 + ?k)" using sha1_pad_ok [OF k c1(2)] by blast
  let ?a3 = "absorb ?f (fst ?a2) (snd ?a2 @ ?c)"
  obtain c3 where c3: "HV_SHA1Update c2 ?c = Some c3" "sha_rep c3 (fst ?a3) (snd ?a3) (n + 1 + ?k + length ?c)"
    using sha.upd_ok [OF c2(2), of ?c] by (auto simp: be_bytes_def)
  have "?a3 = absorb ?f s (p @ sha1_padding n)"
    using absorb_append [of ?f s "p @ [0x80]" "replicate ?k 0"] absorb_append [of ?f s "p @ 0x80 # replicate ?k 0" ?c]
    by (simp add: case_prod_beta sha1_padding_def)
  moreover have "be_bytes (sha_count1 ctx) @ be_bytes (sha_count0 ctx) = ?c" using assms by (simp add: sha_rep_def)
  ultimately show ?thesis using c1(1) c2(1) c3 by (simp add: HV_SHA1Final_def Let_def) (simp add: sha_rep_def)
qed

lemma sha_init_rep: "length mem = 64 \<Longrightarrow> sha_rep (HV_SHA1Init mem) [0x67452301, 0xEFCDAB89, 0x98BADCFE, 0x10325476, 0xC3D2E1F0] [] 0"
  by (simp add: sha_rep_def HV_SHA1Init_def bits_lo_def bits_hi_def)

lemma digest_of:
  assumes "sha_rep ctx (fst (absorb HV_SHA1Transform [0x67452301, 0xEFCDAB89, 0x98BADCFE, 0x10325476, 0xC3D2E1F0] msg))
      (snd (absorb HV_SHA1Transform [0x67452301, 0xEFCDAB89, 0x98BADCFE, 0x10325476, 0xC3D2E1F0] msg)) (length msg)"
  shows "HV_SHA1Final ctx = Some (sha1_reference msg)"
proof -
  have "absorb HV_SHA1Transform s xs = absorb sha1_compress s xs" for s xs
    by (rule absorb_cong) (rule transform_compress)
  moreover have "absorb HV_SHA1Transform s (msg @ sha1_padding (length msg)) =
      absorb HV_SHA1Transform (fst (absorb HV_SHA1Transform s msg)) (snd (absorb HV_SHA1Transform s msg) @ sha1_padding (length msg))" for s
    using absorb_append [of HV_SHA1Transform s msg] by (simp add: case_prod_beta)
  ultimately show ?thesis using HV_SHA1Final_ok [OF assms] by (simp add: sha1_reference_def)
qed

text \<open>
  C4: \<open>hv_sha1\<close> computes SHA-1: for every message shorter than 2^32 - 64 bytes the digest is the one the standard's
  padding, schedule and rounds define.
\<close>

theorem hv_sha1_reference:
  assumes "length mem = 64" "length msg < 2 ^ 32 - 64"
  shows "hv_sha1 mem msg = Some (sha1_reference msg)"
  using sha.upd_ok [OF sha_init_rep [OF assms(1)] assms(2)] digest_of [of _ msg] by (auto simp: hv_sha1_def)

theorem hv_sha1_reference_witness:
  "hv_sha1 (replicate 64 0) [97, 98, 99] = Some (sha1_reference [97, 98, 99])"
  using hv_sha1_reference [of "replicate 64 0" "[97, 98, 99]"] by simp



text \<open>
  C39: the length of one update is limited: with bytes already buffered, an update of 2^32 - 1 bytes wraps the sum \<open>j + len\<close>
  around, and copies all the data into the 64-byte buffer.
\<close>

theorem sha1_update_wraps:
  assumes "sha_rep ctx s p n" "n mod 64 \<noteq> 0" "length data = 2 ^ 32 - 1"
  shows "HV_SHA1Update ctx data = None"
proof -
  let ?j = "n mod 64"
  have j: "?j < 64" by simp
  have l: "(of_nat (length data) :: u32) = - 1" unfolding assms(3) by simp
  have u: "unat (of_nat ?j :: u32) = ?j" by (rule mod64_word)
  have w: "of_nat ?j + - 1 = (of_nat (?j - 1) :: u32)" using assms(2) by (simp add: of_nat_diff)
  have "\<not> (63 :: u32) < of_nat ?j + - 1"
    unfolding w using j by (simp only: word_less_nat_alt) (subst unat_of_nat32, simp_all)
  moreover have "copy_into (sha_buffer ctx) ?j data = None" using assms(1,3) by (simp add: copy_into_def sha_rep_def)
  moreover have "sha_buffer (sha1_count ctx x) = sha_buffer ctx" for x by (simp add: sha1_count_def Let_def)
  moreover have "drop_bit 3 (sha_count0 ctx) AND 63 = of_nat ?j" using assms(1) count_index by (simp add: sha_rep_def)
  ultimately show ?thesis using u l by (simp add: HV_SHA1Update_def Let_def)
qed

theorem sha1_update_wraps_witness:
  "\<exists>ctx. HV_SHA1Update (HV_SHA1Init (replicate 64 0)) [7] = Some ctx \<and> HV_SHA1Update ctx (replicate (2 ^ 32 - 1) 0) = None"
proof -
  obtain ctx s p where "HV_SHA1Update (HV_SHA1Init (replicate 64 0)) [7] = Some ctx" "sha_rep ctx s p (0 + length [7])"
    using sha.upd_ok [OF sha_init_rep [of "replicate 64 0"], of "[7]"] by auto
  thus ?thesis using sha1_update_wraps [of ctx s p 1 "replicate (2 ^ 32 - 1) 0"] by (simp only: length_replicate) simp
qed

end
