(* ===== verification/Websocket_Channel.thy ===== *)
theory Websocket_Channel
  imports Websocket_Frame Hv_Buf Sha1_Correct Hv_Base64
begin

unbundle bit_operations_syntax

section \<open>Sending WebSocket messages (http/wsdef.c, http/WebSocketChannel.cpp)\<close>

text \<open>
  The handshake key, the frame functions of \<open>wsdef\<close>, and the channel that splits a message into frames.  What
  \<open>SocketChannel::write\<close> returns is the parameter \<open>wr\<close>, a function of the buffers written before and of the new one: a negative
  number is an error, and otherwise the buffer has been sent or queued as a whole.  The numbers \<open>rand()\<close> gives are the
  parameter \<open>rnd\<close>.  Overflow of an \<open>int\<close> is \<open>None\<close>.
\<close>

definition as_int :: "int \<Rightarrow> int option" where
  "as_int i = (if - (2 ^ 31) \<le> i \<and> i < 2 ^ 31 then Some i else None)"

definition ws_magic :: "byte list" where
  "ws_magic = map (of_nat \<circ> of_char) ''258EAFA5-E914-47DA-95CA-C5AB0DC85B11''"

text \<open>\<open>key\<close> is the text before the terminating NUL, \<open>mem\<close> what the buffer of the digest context holds at first.\<close>

definition ws_encode_key :: "byte list \<Rightarrow> byte list \<Rightarrow> byte list \<Rightarrow> byte list option" where
  "ws_encode_key mem key accept = do {
     ctx \<leftarrow> HV_SHA1Update (HV_SHA1Init mem) key;
     ctx \<leftarrow> HV_SHA1Update ctx ws_magic;
     digest \<leftarrow> HV_SHA1Final ctx;
     (n, accept) \<leftarrow> hv_base64_encode digest accept;
     Some accept }"

definition ws_calc_frame_size :: "int \<Rightarrow> bool \<Rightarrow> int option" where
  "ws_calc_frame_size data_len has_mask = do {
     size \<leftarrow> as_int (data_len + 2);
     size \<leftarrow> (if data_len \<ge> 126 then if data_len > 0xFFFF then as_int (size + 8) else as_int (size + 2) else Some size);
     if has_mask then as_int (size + 4) else Some size }"

datatype ws_session_type = WS_CLIENT | WS_SERVER

datatype ws_opcode = WS_OPCODE_CONTINUE | WS_OPCODE_TEXT | WS_OPCODE_BINARY | WS_OPCODE_CLOSE | WS_OPCODE_PING | WS_OPCODE_PONG

primrec opcode_value :: "ws_opcode \<Rightarrow> u32" where
  "opcode_value WS_OPCODE_CONTINUE = 0x0"
| "opcode_value WS_OPCODE_TEXT = 0x1"
| "opcode_value WS_OPCODE_BINARY = 0x2"
| "opcode_value WS_OPCODE_CLOSE = 0x8"
| "opcode_value WS_OPCODE_PING = 0x9"
| "opcode_value WS_OPCODE_PONG = 0xA"

definition frame_flags :: "bool \<Rightarrow> ws_opcode \<Rightarrow> bool \<Rightarrow> u32" where
  "frame_flags has_mask opcode fin =
     (let flags = opcode_value opcode;
          flags = (if fin then flags OR WS_FIN else flags)
      in if has_mask then flags OR WS_HAS_MASK else flags)"

definition ws_build_frame :: "byte list \<Rightarrow> byte list \<Rightarrow> byte list \<Rightarrow> bool \<Rightarrow> ws_opcode \<Rightarrow> bool \<Rightarrow> (byte list \<times> int) option" where
  "ws_build_frame out data key has_mask opcode fin = do {
     (out, n) \<leftarrow> websocket_build_frame out (frame_flags has_mask opcode fin) (Some key) data;
     Some (out, sint (of_nat n :: u32)) }"

text \<open>The four bytes of a random number, on a little-endian machine.\<close>

definition mask_of :: "u32 \<Rightarrow> byte list" where
  "mask_of r = map (\<lambda>i. ucast (drop_bit (8 * i) r AND 0xFF)) [0, 1, 2, 3]"

definition ws_client_build_frame :: "u32 \<Rightarrow> byte list \<Rightarrow> byte list \<Rightarrow> ws_opcode \<Rightarrow> bool \<Rightarrow> (byte list \<times> int) option" where
  "ws_client_build_frame r out data opcode fin = ws_build_frame out data (mask_of r) True opcode fin"

definition ws_server_build_frame :: "byte list \<Rightarrow> byte list \<Rightarrow> ws_opcode \<Rightarrow> bool \<Rightarrow> (byte list \<times> int) option" where
  "ws_server_build_frame out data opcode fin = ws_build_frame out data [0, 0, 0, 0] False opcode fin"

subsection \<open>The channel\<close>

record WebSocketChannel =
  wc_type :: ws_session_type
  wc_sendbuf :: HBuf
  wc_written :: "byte list list"
  wc_rands :: nat

type_synonym ws_io = "byte list list \<Rightarrow> byte list \<Rightarrow> int"

definition channel_write :: "ws_io \<Rightarrow> byte list \<Rightarrow> WebSocketChannel \<Rightarrow> int \<times> WebSocketChannel" where
  "channel_write wr bytes ch =
     (let r = wr (wc_written ch) bytes in (r, if r < 0 then ch else ch\<lparr>wc_written := wc_written ch @ [bytes]\<rparr>))"

text \<open>The mask of a frame, and whether there is one.\<close>

definition frame_key :: "(nat \<Rightarrow> u32) \<Rightarrow> WebSocketChannel \<Rightarrow> bool \<times> byte list \<times> WebSocketChannel" where
  "frame_key rnd ch =
     (case wc_type ch of
        WS_CLIENT \<Rightarrow> (True, mask_of (rnd (wc_rands ch)), ch\<lparr>wc_rands := wc_rands ch + 1\<rparr>)
      | WS_SERVER \<Rightarrow> (False, [0, 0, 0, 0], ch))"

definition sendFrame :: "ws_io \<Rightarrow> (nat \<Rightarrow> u32) \<Rightarrow> byte list \<Rightarrow> ws_opcode \<Rightarrow> bool \<Rightarrow> WebSocketChannel \<Rightarrow> (int \<times> WebSocketChannel) option" where
  "sendFrame wr rnd buf opcode fin ch = do {
     let (has_mask, key, ch) = frame_key rnd ch;
     frame_size \<leftarrow> ws_calc_frame_size (int (length buf)) has_mask;
     sb \<leftarrow> (if int (length (hb_mem (wc_sendbuf ch))) < frame_size
           then HBuf_resize (unat (ceil2e (of_int frame_size))) (wc_sendbuf ch) else Some (wc_sendbuf ch));
     (mem, n) \<leftarrow> ws_build_frame (hb_mem sb) buf key has_mask opcode fin;
     Some (channel_write wr (take (nat frame_size) mem) (ch\<lparr>wc_sendbuf := sb\<lparr>hb_mem := mem\<rparr>\<rparr>)) }"

text \<open>The loop over the fragments after the first one, and the last one; a negative fragment size makes \<open>memcpy\<close> leave the data.\<close>

partial_function (option) send_rest :: "ws_io \<Rightarrow> (nat \<Rightarrow> u32) \<Rightarrow> int \<Rightarrow> byte list \<Rightarrow> WebSocketChannel \<Rightarrow> (int \<times> WebSocketChannel) option" where
  "send_rest wr rnd fragment p ch =
     (if int (length p) > fragment then do {
        (nsend, ch) \<leftarrow> sendFrame wr rnd (take (nat fragment) p) WS_OPCODE_CONTINUE False ch;
        if nsend < 0 then Some (nsend, ch) else send_rest wr rnd fragment (drop (nat fragment) p) ch }
      else sendFrame wr rnd p WS_OPCODE_CONTINUE True ch)"

declare send_rest.simps [code]

definition send_split :: "ws_io \<Rightarrow> (nat \<Rightarrow> u32) \<Rightarrow> byte list \<Rightarrow> int \<Rightarrow> ws_opcode \<Rightarrow> WebSocketChannel \<Rightarrow> (int \<times> WebSocketChannel) option" where
  "send_split wr rnd buf fragment opcode ch =
     (if int (length buf) \<le> fragment then sendFrame wr rnd buf opcode True ch
      else if fragment < 0 then None
      else do {
        (nsend, ch) \<leftarrow> sendFrame wr rnd (take (nat fragment) buf) opcode False ch;
        if nsend < 0 then Some (nsend, ch)
        else do {
          (nsend, ch) \<leftarrow> send_rest wr rnd fragment (drop (nat fragment) buf) ch;
          Some (if nsend < 0 then nsend else int (length buf), ch) } })"

definition send_message :: "ws_io \<Rightarrow> (nat \<Rightarrow> u32) \<Rightarrow> byte list \<Rightarrow> ws_opcode \<Rightarrow> bool \<Rightarrow> WebSocketChannel \<Rightarrow> (int \<times> WebSocketChannel) option" where
  "send_message wr rnd buf opcode fin ch =
     (if int (length buf) > 0xFFFF then send_split wr rnd buf 0xFFFF opcode ch
      else sendFrame wr rnd buf opcode fin ch)"

definition ping_frame :: "ws_session_type \<Rightarrow> byte list" where
  "ping_frame t = (case t of WS_CLIENT \<Rightarrow> [0x89, 0x80, 0x57, 0x53, 0x57, 0x53] | WS_SERVER \<Rightarrow> [0x89, 0])"

definition pong_frame :: "ws_session_type \<Rightarrow> byte list" where
  "pong_frame t = (case t of WS_CLIENT \<Rightarrow> [0x8A, 0x80, 0x57, 0x53, 0x57, 0x53] | WS_SERVER \<Rightarrow> [0x8A, 0])"

definition sendPing :: "ws_io \<Rightarrow> WebSocketChannel \<Rightarrow> int \<times> WebSocketChannel" where
  "sendPing wr ch = channel_write wr (ping_frame (wc_type ch)) ch"

definition sendPong :: "ws_io \<Rightarrow> WebSocketChannel \<Rightarrow> int \<times> WebSocketChannel" where
  "sendPong wr ch = channel_write wr (pong_frame (wc_type ch)) ch"

section \<open>What a frame of the channel does\<close>

lemma as_int_Some [simp]: "- (2 ^ 31) \<le> i \<Longrightarrow> i < 2 ^ 31 \<Longrightarrow> as_int i = Some i"
  by (simp add: as_int_def)

lemma opcode_bits:
  "opcode_value op AND WS_OP_MASK = opcode_value op"
  "frame_flags m op fin AND WS_OP_MASK = opcode_value op"
  "frame_flags m op fin AND WS_FIN \<noteq> 0 \<longleftrightarrow> fin"
  "frame_flags m op fin AND WS_HAS_MASK \<noteq> 0 \<longleftrightarrow> m"
  by (cases op; simp add: frame_flags_def ws_flag_defs)+

lemma opcode_continue: "opcode_value op = WS_OP_CONTINUE \<longleftrightarrow> op = WS_OPCODE_CONTINUE"
  by (cases op) (simp_all add: WS_OP_CONTINUE_def)

text \<open>The size of a frame.\<close>

definition frame_total :: "nat \<Rightarrow> bool \<Rightarrow> nat" where
  "frame_total n m = n + 2 + (if n < 126 then 0 else if n \<le> 0xFFFF then 2 else 8) + (if m then 4 else 0)"

lemma ws_calc_frame_size_eq: "n + 14 < 2 ^ 31 \<Longrightarrow> ws_calc_frame_size (int n) m = Some (int (frame_total n m))"
  by (simp add: ws_calc_frame_size_def frame_total_def)

lemma frame_bytes_total:
  assumes "length key = 4" "length data < 2 ^ 63"
  shows "length (frame_bytes (frame_flags m op fin) key data) = frame_total (length data) m"
proof -
  have "(of_nat (length data) :: u64) < 126 \<longleftrightarrow> length data < 126" "(of_nat (length data) :: u64) \<le> 0xFFFF \<longleftrightarrow> length data \<le> 0xFFFF"
    using unat_of_nat64 [of "length data"] assms(2) by (simp_all add: word_less_nat_alt word_le_nat_alt)
  then show ?thesis using assms(1) opcode_bits(4) [of m op fin]
    by (simp add: frame_bytes_def split_beta Let_def length_field_length frame_total_def)
qed

text \<open>A channel on which every \<open>write\<close> succeeds.\<close>

definition accepts :: "ws_io \<Rightarrow> bool" where
  "accepts wr \<longleftrightarrow> (\<forall>h d. 0 \<le> wr h d)"

definition buf_ok :: "HBuf \<Rightarrow> bool" where
  "buf_ok b \<longleftrightarrow> hb_null b \<or> hb_cleanup b"

lemma ceil2e_room:
  assumes "1 < n" "n < 2 ^ 31"
  shows "n \<le> unat (ceil2e (of_nat n))"
proof -
  have "unat (of_nat n :: u64) = n" using assms(2) by (intro unat_of_nat64) simp
  then show ?thesis using ceil2e_bounds [of "of_nat n"] assms by auto
qed

lemma send_room:
  assumes "buf_ok sb" "1 < n" "n < 2 ^ 31"
  shows "\<exists>sb'. (if length (hb_mem sb) < n then HBuf_resize (unat (ceil2e (of_nat n))) sb else Some sb) = Some sb' \<and>
    buf_ok sb' \<and> n \<le> length (hb_mem sb')"
  using assms ceil2e_room [OF assms(2,3)] by (auto simp: HBuf_resize_def buf_ok_def)

lemma length_mask_of [simp]: "length (mask_of r) = 4"
  by (simp add: mask_of_def)

text \<open>A channel whose \<open>write\<close> succeeds has written the bytes of one frame.\<close>

lemma sendFrame_ok:
  assumes "buf_ok (wc_sendbuf ch)" "length buf + 14 < 2 ^ 31" "accepts wr"
  shows "\<exists>r ch' m key. sendFrame wr rnd buf op fin ch = Some (r, ch') \<and> 0 \<le> r \<and> buf_ok (wc_sendbuf ch') \<and> length key = 4 \<and>
    wc_written ch' = wc_written ch @ [frame_bytes (frame_flags m op fin) key buf]"
proof -
  obtain m key ch1 where k: "frame_key rnd ch = (m, key, ch1)" "length key = 4" "wc_sendbuf ch1 = wc_sendbuf ch" "wc_written ch1 = wc_written ch"
    by (cases "wc_type ch") (auto simp: frame_key_def)
  let ?n = "frame_total (length buf) m" and ?b = "frame_bytes (frame_flags m op fin) key buf"
  have n: "1 < ?n" "?n < 2 ^ 31" "length ?b = ?n" using assms(2) frame_bytes_total [OF k(2), of buf m op fin] by (simp_all add: frame_total_def)
  obtain sb where sb: "(if length (hb_mem (wc_sendbuf ch)) < ?n then HBuf_resize (unat (ceil2e (of_nat ?n))) (wc_sendbuf ch) else Some (wc_sendbuf ch)) = Some sb"
    "buf_ok sb" "?n \<le> length (hb_mem sb)" using send_room [OF assms(1) n(1,2)] by blast
  have "websocket_build_frame (hb_mem sb) (frame_flags m op fin) (Some key) buf = Some (?b @ drop ?n (hb_mem sb), ?n)"
    using websocket_build_frame_eq [OF k(2), of "frame_flags m op fin" buf "hb_mem sb"] n(3) sb(3) by simp
  then have w: "ws_build_frame (hb_mem sb) buf key m op fin = Some (?b @ drop ?n (hb_mem sb), sint (of_nat ?n :: u32))"
    by (simp add: ws_build_frame_def)
  let ?ch = "ch1\<lparr>wc_sendbuf := sb\<lparr>hb_mem := ?b @ drop ?n (hb_mem sb)\<rparr>\<rparr>"
  have "sendFrame wr rnd buf op fin ch = Some (channel_write wr ?b ?ch)"
    using k sb(1) w ws_calc_frame_size_eq [OF assms(2), of m] n(3) by (cases "length (hb_mem (wc_sendbuf ch)) < ?n") (simp_all add: sendFrame_def)
  moreover have "\<not> wr (wc_written ch) ?b < 0" using assms(3) by (simp add: accepts_def not_less)
  ultimately show ?thesis using k sb(2) by (auto simp: channel_write_def Let_def buf_ok_def)
qed

text \<open>What it does to the message at the other end.\<close>

definition opcode_effect :: "ws_opcode \<Rightarrow> bool \<Rightarrow> byte list \<Rightarrow> WebSocketParser \<Rightarrow> WebSocketParser" where
  "opcode_effect op fin data wp =
     (let opc = (if op = WS_OPCODE_CONTINUE then wp_opcode wp else opcode_value op);
          msg = (if wp_state wp = WS_FRAME_BEGIN \<or> wp_state wp = WS_FRAME_FIN then [] else wp_message wp) @ data
      in wp\<lparr>wp_opcode := opc, wp_message := msg, wp_state := (if fin then WS_FRAME_FIN else WS_FRAME_END),
            wp_delivered := (if fin \<and> wp_onMessage wp then wp_delivered wp @ [(opc, msg)] else wp_delivered wp)\<rparr>)"

lemma frame_effect_opcode: "frame_effect (frame_flags m op fin) data wp = opcode_effect op fin data wp"
  using opcode_bits(3) [of m op fin]
  by (cases wp) (auto simp: frame_effect_def opcode_effect_def wp_header_def wp_end_def Let_def opcode_bits(2) opcode_continue)

definition ready :: "websocket_parser \<Rightarrow> bool" where
  "ready p \<longleftrightarrow> ws_st p = s_start \<and> length (ws_mask p) = 4"

lemma ws_run_sent:
  assumes "ready p" "length key = 4" "length data \<le> lim" "lim < 2 ^ 31 - 1"
  shows "\<exists>p'. ws_run lim (frame_bytes (frame_flags m op fin) key data) (p, wp) = Some (p', opcode_effect op fin data wp) \<and> ready p'"
  using ws_run_frame [of p key data lim "frame_flags m op fin" wp] assms by (simp add: ready_def frame_effect_opcode)

text \<open>The buffers \<open>w\<close> that a channel has written complete the message of a receiver.\<close>

definition completes :: "nat \<Rightarrow> byte list list \<Rightarrow> WebSocketParser \<Rightarrow> u32 \<times> byte list \<Rightarrow> bool" where
  "completes lim w wp msg \<longleftrightarrow>
     (\<forall>p. ready p \<longrightarrow> (\<exists>p' wp'. ws_run lim (concat w) (p, wp) = Some (p', wp') \<and> ready p' \<and> wp_state wp' = WS_FRAME_FIN \<and>
        wp_delivered wp' = wp_delivered wp @ [msg]))"

lemma completes_one:
  assumes "length key = 4" "length data \<le> lim" "lim < 2 ^ 31 - 1" "wp_onMessage wp"
  shows "completes lim [frame_bytes (frame_flags m op True) key data] wp (wp_opcode (opcode_effect op True data wp), wp_message (opcode_effect op True data wp))"
  unfolding completes_def using ws_run_sent [OF _ assms(1-3), of _ m op True wp] assms(4) by (fastforce simp: opcode_effect_def Let_def)

lemma completes_Cons:
  assumes "length key = 4" "length data \<le> lim" "lim < 2 ^ 31 - 1" "completes lim w (opcode_effect op False data wp) msg"
  shows "completes lim (frame_bytes (frame_flags m op False) key data # w) wp msg"
  unfolding completes_def
proof (intro allI impI)
  fix p assume "ready p"
  then obtain q where q: "ws_run lim (frame_bytes (frame_flags m op False) key data) (p, wp) = Some (q, opcode_effect op False data wp)" "ready q"
    using ws_run_sent [OF _ assms(1-3)] by blast
  have d: "wp_delivered (opcode_effect op False data wp) = wp_delivered wp" by (simp add: opcode_effect_def Let_def)
  show "\<exists>p' wp'. ws_run lim (concat (frame_bytes (frame_flags m op False) key data # w)) (p, wp) = Some (p', wp') \<and> ready p' \<and>
      wp_state wp' = WS_FRAME_FIN \<and> wp_delivered wp' = wp_delivered wp @ [msg]"
    using assms(4) q d by (auto simp: completes_def ws_run_append)
qed

lemma send_rest_ok:
  assumes "buf_ok (wc_sendbuf ch)" "length p \<le> lim" "lim + 14 < 2 ^ 31" "0 < fragment" "accepts wr"
    "wp_state wp = WS_FRAME_END" "wp_onMessage wp"
  shows "\<exists>r ch' w. send_rest wr rnd fragment p ch = Some (r, ch') \<and> 0 \<le> r \<and> wc_written ch' = wc_written ch @ w \<and>
    completes lim w wp (wp_opcode wp, wp_message wp @ p)"
  using assms
proof (induction "length p" arbitrary: p ch wp rule: less_induct)
  case less
  show ?case
  proof (cases "int (length p) > fragment")
    case True
    let ?d = "take (nat fragment) p" and ?q = "drop (nat fragment) p" and ?wp = "opcode_effect WS_OPCODE_CONTINUE False (take (nat fragment) p) wp"
    have "length ?d + 14 < 2 ^ 31" using less.prems(2,3) by simp
    then obtain r ch1 m key where 1: "sendFrame wr rnd ?d WS_OPCODE_CONTINUE False ch = Some (r, ch1)" "0 \<le> r" "buf_ok (wc_sendbuf ch1)" "length key = 4"
      "wc_written ch1 = wc_written ch @ [frame_bytes (frame_flags m WS_OPCODE_CONTINUE False) key ?d]"
      using sendFrame_ok [OF less.prems(1) _ less.prems(5), where buf = ?d and rnd = rnd and op = WS_OPCODE_CONTINUE and fin = False] by blast
    have w: "wp_state ?wp = WS_FRAME_END" "wp_onMessage ?wp" "wp_opcode ?wp = wp_opcode wp" "wp_message ?wp = wp_message wp @ ?d"
      using less.prems(6,7) by (simp_all add: opcode_effect_def Let_def)
    have "0 < length p" using True less.prems(4) by auto
    then have lt: "length ?q < length p" "length ?q \<le> lim" using less.prems(2,4) by auto
    obtain r2 ch2 w2 where 2: "send_rest wr rnd fragment ?q ch1 = Some (r2, ch2)" "0 \<le> r2" "wc_written ch2 = wc_written ch1 @ w2"
      "completes lim w2 ?wp (wp_opcode ?wp, wp_message ?wp @ ?q)"
      using less.hyps [OF lt(1) 1(3) lt(2) less.prems(3-5) w(1,2)] by blast
    have "completes lim (frame_bytes (frame_flags m WS_OPCODE_CONTINUE False) key ?d # w2) wp (wp_opcode wp, wp_message wp @ p)"
      using completes_Cons [OF 1(4) _ _ 2(4)] less.prems(2,3) w(3,4) by simp
    then show ?thesis using True 1 2 by (subst send_rest.simps) auto
  next
    case False
    have "length p + 14 < 2 ^ 31" using less.prems(2,3) by simp
    then obtain r ch1 m key where 1: "sendFrame wr rnd p WS_OPCODE_CONTINUE True ch = Some (r, ch1)" "0 \<le> r" "length key = 4"
      "wc_written ch1 = wc_written ch @ [frame_bytes (frame_flags m WS_OPCODE_CONTINUE True) key p]"
      using sendFrame_ok [OF less.prems(1) _ less.prems(5), where buf = p and rnd = rnd and op = WS_OPCODE_CONTINUE and fin = True] by blast
    then show ?thesis using False completes_one [OF 1(3) less.prems(2) _ less.prems(7), of m WS_OPCODE_CONTINUE] less.prems(3,6)
      by (subst send_rest.simps) (auto simp: opcode_effect_def Let_def)
  qed
qed

lemma send_split_ok:
  assumes "buf_ok (wc_sendbuf ch)" "length buf \<le> lim" "lim + 14 < 2 ^ 31" "0 < fragment" "accepts wr" "op \<noteq> WS_OPCODE_CONTINUE"
    "wp_state wp = WS_FRAME_BEGIN \<or> wp_state wp = WS_FRAME_FIN" "wp_onMessage wp"
  shows "\<exists>r ch' w. send_split wr rnd buf fragment op ch = Some (r, ch') \<and> 0 \<le> r \<and> wc_written ch' = wc_written ch @ w \<and>
    completes lim w wp (opcode_value op, buf)"
proof (cases "int (length buf) \<le> fragment")
  case True
  have "length buf + 14 < 2 ^ 31" using assms(2,3) by simp
  then obtain r ch1 m key where 1: "sendFrame wr rnd buf op True ch = Some (r, ch1)" "0 \<le> r" "length key = 4"
    "wc_written ch1 = wc_written ch @ [frame_bytes (frame_flags m op True) key buf]"
    using sendFrame_ok [OF assms(1) _ assms(5), where buf = buf and rnd = rnd and op = op and fin = True] by blast
  then show ?thesis using True completes_one [OF 1(3) assms(2) _ assms(8), of m op] assms(3,6,7)
    by (auto simp: send_split_def opcode_effect_def Let_def)
next
  case False
  let ?d = "take (nat fragment) buf" and ?q = "drop (nat fragment) buf" and ?wp = "opcode_effect op False (take (nat fragment) buf) wp"
  have "length ?d + 14 < 2 ^ 31" using assms(2,3) by simp
  then obtain r ch1 m key where 1: "sendFrame wr rnd ?d op False ch = Some (r, ch1)" "0 \<le> r" "buf_ok (wc_sendbuf ch1)" "length key = 4"
    "wc_written ch1 = wc_written ch @ [frame_bytes (frame_flags m op False) key ?d]"
    using sendFrame_ok [OF assms(1) _ assms(5), where buf = ?d and rnd = rnd and op = op and fin = False] by blast
  have w: "wp_state ?wp = WS_FRAME_END" "wp_onMessage ?wp" "wp_opcode ?wp = opcode_value op" "wp_message ?wp = ?d"
    using assms(6-8) by (auto simp: opcode_effect_def Let_def)
  have q: "length ?q \<le> lim" using assms(2) by simp
  obtain r2 ch2 w2 where 2: "send_rest wr rnd fragment ?q ch1 = Some (r2, ch2)" "0 \<le> r2" "wc_written ch2 = wc_written ch1 @ w2"
    "completes lim w2 ?wp (wp_opcode ?wp, wp_message ?wp @ ?q)"
    using send_rest_ok [OF 1(3) q assms(3-5) w(1,2)] by blast
  have "completes lim (frame_bytes (frame_flags m op False) key ?d # w2) wp (opcode_value op, buf)"
    using completes_Cons [OF 1(4) _ _ 2(4)] assms(2,3) w(3,4) by simp
  then show ?thesis using False assms(4) 1 2 by (auto simp: send_split_def)
qed

lemma feed_completes:
  assumes "completes lim w wp msg" "ready p" "list_all (in_memory lim) chunks" "concat (map snd chunks) = concat w"
  shows "\<exists>p' wp'. feed_chunks chunks (p, wp) = Some (p', wp') \<and> ws_st p' = s_start \<and> wp_state wp' = WS_FRAME_FIN \<and>
    wp_delivered wp' = wp_delivered wp @ [msg]"
proof -
  obtain q wq where q: "ws_run lim (concat w) (p, wp) = Some (q, wq)" "ready q" "wp_state wq = WS_FRAME_FIN" "wp_delivered wq = wp_delivered wp @ [msg]"
    using assms(1,2) by (auto simp: completes_def)
  obtain p' wp' where f: "feed_chunks chunks (p, wp) = Some (p', wp')" "forget (p', wp') = forget (q, wq)"
    using feed_chunks_run [of lim chunks "(p, wp)" "(q, wq)"] assms(3,4) q(1) by auto
  have "wp' = wq" "p'\<lparr>ws_offset := 0\<rparr> = q\<lparr>ws_offset := 0\<rparr>" using f(2) by (simp_all add: forget_def)
  then show ?thesis using f(1) q(2-4) by (cases p'; cases q) (simp add: ready_def)
qed

section \<open>Properties\<close>

definition demo_channel :: WebSocketChannel where
  "demo_channel = \<lparr>wc_type = WS_CLIENT, wc_sendbuf = HBuf_new, wc_written = [], wc_rands = 0\<rparr>"

text \<open>
  \<open>send\<close> drops its \<open>fin\<close> argument for a message of more than 65535 bytes: the last fragment is final even when the caller
  announces more to come.
\<close>
lemma send_large_drops_fin:
  "0xFFFF < length msg \<Longrightarrow> send_message wr rnd msg op False ch = send_message wr rnd msg op True ch"
  by (simp add: send_message_def)

lemma send_large_drops_fin_witness:
  "send_message (\<lambda>h d. 0) (\<lambda>i. 7) (replicate 70000 0) WS_OPCODE_TEXT False demo_channel =
   send_message (\<lambda>h d. 0) (\<lambda>i. 7) (replicate 70000 0) WS_OPCODE_TEXT True demo_channel"
  by (rule send_large_drops_fin) simp

text \<open>
  C23: \<open>websocket_build_frame\<close> fills exactly the \<open>websocket_calc_frame_size\<close> first bytes of a buffer that has that many, and
  \<open>ws_calc_frame_size\<close> is that number too for every payload below 2 GiB.
\<close>
theorem frame_size_exact:
  assumes "length key = 4" "length data + 14 < 2 ^ 31" "unat (websocket_calc_frame_size (frame_flags m op fin) (of_nat (length data))) \<le> length frame"
  shows "\<exists>n frame'. websocket_build_frame frame (frame_flags m op fin) (Some key) data = Some (frame', n) \<and>
    n = unat (websocket_calc_frame_size (frame_flags m op fin) (of_nat (length data))) \<and>
    ws_calc_frame_size (int (length data)) m = Some (int n) \<and> length frame' = length frame \<and> drop n frame' = drop n frame"
proof -
  let ?b = "frame_bytes (frame_flags m op fin) key data"
  have t: "length ?b = frame_total (length data) m" using frame_bytes_total [OF assms(1), of data m op fin] assms(2) by simp
  then have "length ?b < 2 ^ 64" using assms(2) by (simp add: frame_total_def)
  then have u: "unat (websocket_calc_frame_size (frame_flags m op fin) (of_nat (length data))) = length ?b"
    using frame_bytes_length [OF assms(1), of "frame_flags m op fin" data, symmetric] unat_of_nat64 by simp
  then show ?thesis using websocket_build_frame_eq [OF assms(1), of "frame_flags m op fin" data frame] assms(3) t ws_calc_frame_size_eq [OF assms(2), of m]
    by simp
qed

theorem frame_size_exact_witness:
  "\<exists>frame'. websocket_build_frame (replicate 20 0) (frame_flags True WS_OPCODE_TEXT True) (Some [1, 2, 3, 4]) [9, 8, 7] = Some (frame', 9)"
proof -
  have "unat (websocket_calc_frame_size (frame_flags True WS_OPCODE_TEXT True) (of_nat (length [9 :: byte, 8, 7]))) = 9" by code_simp
  then show ?thesis using frame_size_exact [of "[1, 2, 3, 4]" "[9, 8, 7]" True WS_OPCODE_TEXT True "replicate 20 0"] by auto
qed

end
