(* ===== verification/Spec2Isabelle.thy ===== *)
theory Spec2Isabelle
  imports Hv_Queue Event_Turn Hv_Base64 Kcp_Run Hv_Md5 Websocket_Channel
begin

text \<open>
  A verification development for libhv, a C/C++ network library: an event loop with timers and idle handlers, data structures
  and codecs, the KCP transport, and WebSocket framing on top of them.

  \<^bold>\<open>The program and how its parts interact.\<close>  An event loop (\<open>event/hloop.c\<close>) keeps its timers in intrusive binary heaps
  (\<open>base/heap.h\<close>), its idle handlers in a circular list (\<open>base/list.h\<close>), its custom events in a queue (\<open>base/queue.h\<close>), and runs
  the callbacks of the events that have become pending by priority.  \<open>base/hbuf.h\<close> and \<open>base/hmath.h\<close> are the byte buffers and
  the integer helpers of the library.  A KCP connection (\<open>event/kcp/ikcp.c\<close>) is driven by such a loop: the application sends and
  receives messages, datagrams come in, and the clock makes it flush.  A WebSocket channel (\<open>http/WebSocketChannel.cpp\<close>,
  \<open>http/wsdef.c\<close>) uses SHA-1 and Base64 (\<open>util\<close>) for the handshake and the frame builder (\<open>http/websocket_parser.c\<close>) for its
  messages; at the other end \<open>WebSocketParser\<close> puts them together from the bytes that the network delivers.

  \<^bold>\<open>Conventions.\<close>  Memory reached through pointers is a store indexed by addresses, a pointer an optional address, an array a list
  of cells.  A failed \<open>assert\<close>, a \<open>NULL\<close> or freed pointer, an access outside an array, signed overflow, a division by zero, an
  exception that leaves the function and a loop that does not end are all the value \<open>None\<close>; the theorems prove \<open>Some\<close>, so they
  include that none of this happens.  Unsigned machine integers are words and wrap around; signed ones are integers with the
  range written out, or words read with \<open>sint\<close>.  Allocation does not fail.  The machine is 64-bit and little-endian.

  \<^bold>\<open>Theories, and what their lemmas show.\<close>

  \<^item> \<open>Prelude\<close>: stores, option-valued reads and writes, lemmas on 64-bit words that several components use.
  \<^item> \<open>Hv_Heap\<close> (\<open>base/heap.h\<close>): the linked heap with swap, replace, insert, remove, dequeue.  The locale \<open>heap_order\<close> is what the
    heap asks of its comparison; the event loop interprets it for the timers.  Insert and remove return, keep heap order and
    shape, and touch no other node (C8, C7, C28).
  \<^item> \<open>Hv_List\<close> (\<open>base/list.h\<close>): links of circular lists; refinement to operations on HOL lists (C15).
  \<^item> \<open>Hv_Queue\<close> (\<open>base/queue.h\<close>, \<open>base/array.h\<close>): the generated containers; the locale \<open>fifo\<close> is the contract of a queue,
    interpreted on the model of \<open>queue.h\<close> (C25, C26).
  \<^item> \<open>Event_Loop\<close> (definitions of \<open>hloop.c\<close> and the macros of \<open>hevent.h\<close>), \<open>Event_Inv\<close> (the calls keep the invariant),
    \<open>Event_Run\<close> (the run of the pending events, with callbacks that make calls), \<open>Event_Turn\<close> (timers, idles, a whole turn):
    C1, C11, C12, C30 and the use after free C31.
  \<^item> \<open>Hv_Buf\<close> (\<open>base/hbuf.h\<close>): HBuf, HVLBuf, HRingBuf (C13, C14).  \<open>Hv_Math\<close> (\<open>base/hmath.h\<close>): powers of two, variable-length
    integers, ASN.1 lengths (C21, C22, C38).
  \<^item> \<open>Hv_Base64\<close> (\<open>util/base64.c\<close>): round trip and bounds (C18, C19, C40).
  \<^item> \<open>Hv_Digest\<close>: the locale \<open>digest\<close>, the contract of a block digest that is fed in pieces, interpreted for both contexts.
    \<open>Hv_Sha1\<close>, \<open>Sha1_Rounds\<close>, \<open>Sha1_Correct\<close> (\<open>util/sha1.c\<close>) and \<open>Hv_Md5\<close> (\<open>util/md5.c\<close>): the unrolled code equals the
    definitions of FIPS 180 and RFC 1321 (C4, C9, C29, C39).
  \<^item> \<open>Kcp\<close> (definitions of \<open>ikcp.c\<close>), \<open>Kcp_Receive\<close>, \<open>Kcp_Send\<close>, \<open>Kcp_Message\<close>, \<open>Kcp_Input\<close> (invariants of the receiving and the
    sending side, kept by every operation), \<open>Kcp_Run\<close> (the calls of an application as a step relation, and the properties of
    every reachable state): C3, C6, C10, C16, C20, C27, C37; overflows and a partial send are C34, C35, C36.
  \<^item> \<open>Websocket\<close> (definitions of \<open>websocket_parser.c\<close> and \<open>WebSocketParser.cpp\<close>), \<open>Websocket_Stream\<close> (the parser equals a
    machine on single bytes however the stream is cut), \<open>Websocket_Frame\<close> (what that machine does with a built frame),
    \<open>Websocket_Channel\<close> (\<open>wsdef.c\<close>, \<open>WebSocketChannel.cpp\<close>): C5, C17, C23, and C32, C33 on hostile lengths.
  \<^item> This theory: the properties that span components, C2 (from \<open>send\<close> over the network to \<open>onMessage\<close>) and C24 (the
    handshake key: \<open>wsdef.c\<close> over \<open>sha1.c\<close> and \<open>base64.c\<close>).

  \<^bold>\<open>Parameters.\<close>  The behaviour of callbacks of the loop is a function from the state to the calls they make, bound by the contract
  in \<open>Event_Run\<close>; clock readings and fresh addresses are arguments.  The comparison of a heap is a function argument.  What
  \<open>SocketChannel::write\<close> returns is the function \<open>wr\<close> and the numbers of \<open>rand()\<close> the function \<open>rnd\<close>; the address of a buffer
  given to the WebSocket parser is an argument, since the parser compares addresses.  The output callback of KCP is the list of
  datagrams a flush returns.

  \<^bold>\<open>Bounds.\<close>  There is no fuel.  Loops that end for every input are total functions with a measure; loops that need not end (the
  sift loops of the heap, the loops over timers, idles and pending events, \<open>catch_up\<close>, the loop of the WebSocket parser,
  \<open>varint_encode\<close>, the block loops of the digests) are \<open>partial_function (option)\<close>, and the theorems show where they return.
  Statements about digests ask for fewer than \<open>2 ^ 32 - 64\<close> bytes, because the length arguments are 32-bit; those about frames
  for a payload whose frame fits an \<open>int\<close>; those about the parser for data that does not reach the end of the address space.

  \<^bold>\<open>Not modelled.\<close>  Sockets, the readiness back ends (epoll, kqueue, poll, select, IOCP, io_uring, wepoll), \<open>nio.c\<close>, processes,
  threads, mutexes, logging and the clock are calls of the operating system; the signal handlers, the eventfd and the table of
  descriptors of \<open>hloop.c\<close> only connect it to them.  The TLS back ends wrap libraries that are not part of the source.  The HTTP
  servers and clients, evpp, MQTT, the protocol clients and the C++ utilities are mostly glue over these and over standard
  containers; \<open>http_parser.c\<close>, \<open>json.hpp\<close>, \<open>wepoll.c\<close> and the code bundled with the examples are third-party code copied into the
  tree.  Concurrency is out of scope: a loop, a connection and a parser are used by one thread, and the mutex of the channel is
  left out.
\<close>

section \<open>From one end of a WebSocket connection to the other\<close>

text \<open>
  C2: a message of any kind but a continuation that \<open>send\<close> takes arrives unchanged and once: it is split into frames and masked
  by the sender, and whatever buffers the network cuts those bytes into, the \<open>WebSocketParser\<close> at the other end calls
  \<open>onMessage\<close> with its opcode and its bytes and is ready for the next message.
\<close>
theorem websocket_message_roundtrip:
  assumes "buf_ok (wc_sendbuf ch)" "accepts wr" "length msg + 14 < 2 ^ 31" "op \<noteq> WS_OPCODE_CONTINUE"
    "ready p" "wp_state wp = WS_FRAME_BEGIN \<or> wp_state wp = WS_FRAME_FIN" "wp_onMessage wp"
  shows "\<exists>r ch' w. send_message wr rnd msg op True ch = Some (r, ch') \<and> 0 \<le> r \<and> wc_written ch' = wc_written ch @ w \<and>
    (\<forall>chunks. concat (map snd chunks) = concat w \<and> list_all (in_memory (length msg)) chunks \<longrightarrow>
      (\<exists>p' wp'. feed_chunks chunks (p, wp) = Some (p', wp') \<and> ws_st p' = s_start \<and> wp_state wp' = WS_FRAME_FIN \<and>
        wp_delivered wp' = wp_delivered wp @ [(opcode_value op, msg)]))"
proof -
  have "send_message wr rnd msg op True ch = send_split wr rnd msg 0xFFFF op ch" by (simp add: send_message_def send_split_def)
  moreover obtain r ch' w where "send_split wr rnd msg 0xFFFF op ch = Some (r, ch')" "0 \<le> r" "wc_written ch' = wc_written ch @ w"
    "completes (length msg) w wp (opcode_value op, msg)"
    using send_split_ok [OF assms(1) order_refl assms(3) _ assms(2,4,6,7), where fragment = "0xFFFF" and rnd = rnd] by auto
  ultimately show ?thesis using feed_completes [OF _ assms(5)] by fastforce
qed

theorem websocket_message_roundtrip_witness:
  "\<exists>ch'. send_message (\<lambda>h d. 0) (\<lambda>i. 0x01020304) [0x68, 0x69] WS_OPCODE_TEXT True demo_channel = Some (0, ch') \<and>
    wc_written ch' = [[0x81, 0x82, 4, 3, 2, 1, 0x6C, 0x6A]] \<and>
    (\<exists>p' wp'. feed_chunks [(0x1000, [0x81, 0x82, 4]), (0x1000, [3, 2, 1, 0x6C, 0x6A])] (WebSocketParser_new True) = Some (p', wp') \<and>
       wp_delivered wp' = [(1, [0x68, 0x69])])"
proof -
  let ?wr = "\<lambda>(h :: byte list list) (d :: byte list). 0 :: int" and ?rnd = "\<lambda>i :: nat. 0x01020304 :: u32"
  have e: "map_option (\<lambda>(r, ch). (r, wc_written ch)) (send_message ?wr ?rnd [0x68, 0x69] WS_OPCODE_TEXT True demo_channel) =
    Some (0, [[0x81, 0x82, 4, 3, 2, 1, 0x6C, 0x6A]])" by code_simp
  then obtain ch' where ch: "send_message ?wr ?rnd [0x68, 0x69] WS_OPCODE_TEXT True demo_channel = Some (0, ch')"
    "wc_written ch' = [[0x81, 0x82, 4, 3, 2, 1, 0x6C, 0x6A]]" by auto
  have d: "buf_ok (wc_sendbuf demo_channel)" "wc_written demo_channel = []" "accepts ?wr"
    by (simp_all add: demo_channel_def HBuf_new_def buf_ok_def accepts_def)
  obtain p wp where n: "WebSocketParser_new True = (p, wp)" "ready p" "wp_state wp = WS_FRAME_BEGIN" "wp_onMessage wp" "wp_delivered wp = []"
    by (simp add: WebSocketParser_new_def ready_def websocket_parser_init_def)
  let ?c = "[(0x1000, [0x81, 0x82, 4]), (0x1000, [3, 2, 1, 0x6C, 0x6A])] :: (u64 \<times> byte list) list"
  have m: "list_all (in_memory (length [0x68 :: byte, 0x69])) ?c" by (simp add: in_memory_def)
  have "length [0x68 :: byte, 0x69] + 14 < 2 ^ 31" by simp
  from websocket_message_roundtrip [OF d(1,3) this _ n(2) _ n(4), of WS_OPCODE_TEXT ?rnd] n(3)
  obtain r c w where t: "send_message ?wr ?rnd [0x68, 0x69] WS_OPCODE_TEXT True demo_channel = Some (r, c)" "wc_written c = wc_written demo_channel @ w"
    "\<forall>chunks. concat (map snd chunks) = concat w \<and> list_all (in_memory (length [0x68 :: byte, 0x69])) chunks \<longrightarrow>
      (\<exists>p' wp'. feed_chunks chunks (p, wp) = Some (p', wp') \<and> ws_st p' = s_start \<and> wp_state wp' = WS_FRAME_FIN \<and>
        wp_delivered wp' = wp_delivered wp @ [(opcode_value WS_OPCODE_TEXT, [0x68, 0x69])])" by blast
  have "w = [[0x81, 0x82, 4, 3, 2, 1, 0x6C, 0x6A]]" using t(1,2) ch d(2) by simp
  then show ?thesis using t(3) [rule_format, of ?c] m ch n(1,5) by auto
qed

section \<open>The handshake key\<close>

lemma length_be_words: "length (concat (map be_bytes ws)) = 4 * length ws"
  by (induction ws) (simp_all add: be_bytes_def)

lemma sha1_reference_length: "length (sha1_reference msg) = 20"
proof -
  have "length (fst (absorb f s xs)) = 5" if "length s = 5" "\<And>s b. length (f s b) = 5" for f :: "u32 list \<Rightarrow> byte list \<Rightarrow> u32 list" and s xs
    using that
  proof (induction f s xs rule: absorb.induct)
    case (1 f s xs)
    then show ?case by (subst absorb.simps) auto
  qed
  from this [of "[0x67452301, 0xEFCDAB89, 0x98BADCFE, 0x10325476, 0xC3D2E1F0]" sha1_compress] show ?thesis
    by (simp add: sha1_reference_def length_be_words sha1_compress_def split_beta Let_def)
qed

text \<open>
  C24: \<open>ws_encode_key\<close> writes the Base64 form of the SHA-1 digest of the key and the protocol's magic text, 28 characters, to
  the start of \<open>accept\<close>.
\<close>
theorem ws_encode_key_correct:
  assumes "length mem = 64" "length key < 2 ^ 32 - 64" "28 \<le> length accept"
  shows "ws_encode_key mem key accept = Some (base64_spec (sha1_reference (key @ ws_magic)) @ drop 28 accept)"
proof -
  let ?d = "sha1_reference (key @ ws_magic)"
  have "length ws_magic = 36" by (simp add: ws_magic_def)
  then have "list_all (\<lambda>xs. length xs < 2 ^ 32 - 64) [key, ws_magic]" using assms(2) by simp
  from sha.feed_pieces [OF sha_init_rep [OF assms(1)] _ this] digest_of [of _ "key @ ws_magic"]
  have "Option.bind (HV_SHA1Update (HV_SHA1Init mem) key) (\<lambda>ctx. Option.bind (HV_SHA1Update ctx ws_magic) HV_SHA1Final) = Some ?d"
    by (auto simp: bind_eq_Some_conv)
  moreover have "length (base64_spec ?d) = 28"
    using length_base64_spec [of ?d] sha1_reference_length by (simp add: BASE64_ENCODE_OUT_SIZE_def)
  moreover from this have "hv_base64_encode ?d accept = Some (28, base64_spec ?d @ drop 28 accept)"
    using hv_base64_encode_spec [of ?d accept] assms(3) sha1_reference_length [of "key @ ws_magic"] by fastforce
  ultimately show ?thesis by (auto simp: ws_encode_key_def bind_eq_Some_conv)
qed

theorem ws_encode_key_correct_witness:
  "ws_encode_key (replicate 64 0) [0x61, 0x62] (replicate 28 0) = Some (base64_spec (sha1_reference ([0x61, 0x62] @ ws_magic)))"
  using ws_encode_key_correct [of "replicate 64 0" "[0x61, 0x62]" "replicate 28 0"] by simp

end
